theory Spec2Isabelle
  imports Main "HOL-Library.Word"
begin

unbundle bit_operations_syntax

section \<open>Control task (main/ctrl_task.c, main/ctrl_task.h)\<close>

subsection \<open>Constants of ctrl_task.h and ctrl_task.c\<close>

definition CTRL_EVAL_MSEC :: int where "CTRL_EVAL_MSEC = 50"
definition CTRL_BTN_LONG_PRESS_MSEC :: int where "CTRL_BTN_LONG_PRESS_MSEC = 3000"
definition CTRL_FAULT_BLINK_ON_MSEC :: int where "CTRL_FAULT_BLINK_ON_MSEC = 200"
definition CTRL_FAULT_BLINK_OFF_MSEC :: int where "CTRL_FAULT_BLINK_OFF_MSEC = 300"
definition CTRL_FAULT_IDLE_MSEC :: int where "CTRL_FAULT_IDLE_MSEC = 2000"

definition CTRL_FAULT_NONE :: int where "CTRL_FAULT_NONE = 0"
definition CTRL_FAULT_LEP_CCI :: int where "CTRL_FAULT_LEP_CCI = 4"
definition CTRL_FAULT_LEP_SYNC :: int where "CTRL_FAULT_LEP_SYNC = 6"

definition CTRL_NOTIFY_STARTUP_DONE :: "32 word" where "CTRL_NOTIFY_STARTUP_DONE = 0x00000001"
definition CTRL_NOTIFY_FAULT :: "32 word" where "CTRL_NOTIFY_FAULT = 0x00000002"
definition CTRL_NOTIFY_FAULT_CLEAR :: "32 word" where "CTRL_NOTIFY_FAULT_CLEAR = 0x00000004"

definition VID_NOTIFY_LEP_FRAME_MASK_1 :: "32 word" where "VID_NOTIFY_LEP_FRAME_MASK_1 = 0x00000001"
definition VID_NOTIFY_LEP_FRAME_MASK_2 :: "32 word" where "VID_NOTIFY_LEP_FRAME_MASK_2 = 0x00000002"
definition VID_NOTIFY_PARM_CHANGE_MASK :: "32 word" where "VID_NOTIFY_PARM_CHANGE_MASK = 0x00000010"
definition VID_NOTIFY_PARM_SELECT_MASK :: "32 word" where "VID_NOTIFY_PARM_SELECT_MASK = 0x00000020"

definition CTRL_LED_OFF :: int where "CTRL_LED_OFF = 0"
definition CTRL_LED_RED :: int where "CTRL_LED_RED = 1"
definition CTRL_LED_YEL :: int where "CTRL_LED_YEL = 2"
definition CTRL_LED_GRN :: int where "CTRL_LED_GRN = 3"

definition CTRL_LED_ST_SOLID :: int where "CTRL_LED_ST_SOLID = 0"
definition CTRL_LED_ST_FLT_ON :: int where "CTRL_LED_ST_FLT_ON = 1"
definition CTRL_LED_ST_FLT_OFF :: int where "CTRL_LED_ST_FLT_OFF = 2"
definition CTRL_LED_ST_FLT_IDLE :: int where "CTRL_LED_ST_FLT_IDLE = 3"

definition CTRL_ST_STARTUP :: int where "CTRL_ST_STARTUP = 0"
definition CTRL_ST_RUN :: int where "CTRL_ST_RUN = 1"
definition CTRL_ST_FAULT :: int where "CTRL_ST_FAULT = 2"

text \<open>The macro \<^verbatim>\<open>Notification(var, mask)\<close> of sys_utilities.h.\<close>

definition Notification :: "32 word \<Rightarrow> 32 word \<Rightarrow> bool" where
  "Notification var msk = (var AND msk = msk)"

subsection \<open>Button debouncer\<close>

text \<open>The function-static variables of \<^verbatim>\<open>ctrl_debounce_button\<close>.\<close>

record btn_state =
  prev_btn :: bool
  btn_down :: bool
  btn_timer :: int

definition btn_init :: btn_state where
  "btn_init = \<lparr>prev_btn = False, btn_down = False, btn_timer = 0\<rparr>"

text \<open>
  One call of \<^verbatim>\<open>ctrl_debounce_button\<close>. \<open>cur_btn\<close> is the sampled level
  (\<^verbatim>\<open>gpio_get_level(ctrl_pin_btn) == 0\<close>); the result is the new static state and the
  two outputs \<^verbatim>\<open>*short_p\<close> and \<^verbatim>\<open>*long_p\<close>.
\<close>

definition ctrl_debounce_button :: "bool \<Rightarrow> btn_state \<Rightarrow> btn_state \<times> bool \<times> bool" where
  "ctrl_debounce_button cur_btn b =
    (let b1 = (if cur_btn \<and> prev_btn b \<and> \<not> btn_down b
               then b\<lparr>btn_down := True,
                      btn_timer := CTRL_BTN_LONG_PRESS_MSEC div CTRL_EVAL_MSEC\<rparr>
               else b);
         btn_released = (\<not> cur_btn \<and> \<not> prev_btn b1 \<and> btn_down b1);
         b2 = (if btn_released then b1\<lparr>btn_down := False\<rparr> else b1);
         b3 = b2\<lparr>prev_btn := cur_btn\<rparr>;
         b4 = (if btn_down b3 \<and> btn_timer b3 \<noteq> 0
               then b3\<lparr>btn_timer := btn_timer b3 - 1\<rparr> else b3);
         long_p = (btn_down b3 \<and> btn_timer b3 \<noteq> 0 \<and> btn_timer b4 = 0);
         short_p = (btn_released \<and> btn_timer b4 \<noteq> 0)
     in (b4, short_p, long_p))"

text \<open>The debouncer run over a sequence of sampled levels, one per evaluation tick.\<close>

fun debounce_run :: "bool list \<Rightarrow> btn_state \<Rightarrow> (bool \<times> bool) list \<times> btn_state" where
  "debounce_run [] b = ([], b)"
| "debounce_run (l # ls) b =
     (case ctrl_debounce_button l b of
        (b', out) \<Rightarrow> (case debounce_run ls b' of (outs, b'') \<Rightarrow> (out # outs, b'')))"

text \<open>
  Observer for the ticks up to and including the next release: true iff some tick reports
  a short-press while the button has stayed down on all earlier ticks.
\<close>

fun short_until_release :: "bool list \<Rightarrow> btn_state \<Rightarrow> bool" where
  "short_until_release [] b = False"
| "short_until_release (l # ls) b =
     (case ctrl_debounce_button l b of
        (b', short_p, long_p) \<Rightarrow> short_p \<or> (btn_down b' \<and> short_until_release ls b'))"

subsection \<open>Control and LED state machines\<close>

text \<open>
  The file-static variables of ctrl_task.c, the two LED output levels written by
  \<^verbatim>\<open>ctrl_set_led\<close>, and the notification value of \<^verbatim>\<open>task_handle_ctrl\<close>
  (bits merged by \<^verbatim>\<open>xTaskNotify(..., eSetBits)\<close>, read and cleared by
  \<^verbatim>\<open>xTaskNotifyWait(0x00, 0xFFFFFFFF, ...)\<close>).
\<close>

record ctrl =
  ctrl_state :: int
  ctrl_pre_activity_state :: int
  ctrl_led_state :: int
  ctrl_led_timer :: int
  ctrl_fault_led_count :: int
  ctrl_fault_type :: int
  pin_r_led :: bool
  pin_g_led :: bool
  ctrl_notify :: "32 word"

definition ctrl_set_led :: "int \<Rightarrow> ctrl \<Rightarrow> ctrl" where
  "ctrl_set_led color c =
    (if color = CTRL_LED_OFF then c\<lparr>pin_r_led := False, pin_g_led := False\<rparr>
     else if color = CTRL_LED_RED then c\<lparr>pin_r_led := True, pin_g_led := False\<rparr>
     else if color = CTRL_LED_YEL then c\<lparr>pin_r_led := True, pin_g_led := True\<rparr>
     else if color = CTRL_LED_GRN then c\<lparr>pin_r_led := False, pin_g_led := True\<rparr>
     else c)"

definition ctrl_set_led_state :: "int \<Rightarrow> ctrl \<Rightarrow> ctrl" where
  "ctrl_set_led_state new_st c =
    (let c = c\<lparr>ctrl_led_state := new_st\<rparr> in
     if new_st = CTRL_LED_ST_SOLID then c
     else if new_st = CTRL_LED_ST_FLT_ON then
       ctrl_set_led CTRL_LED_RED
         (c\<lparr>ctrl_led_timer := CTRL_FAULT_BLINK_ON_MSEC div CTRL_EVAL_MSEC\<rparr>)
     else if new_st = CTRL_LED_ST_FLT_OFF then
       ctrl_set_led CTRL_LED_OFF
         (c\<lparr>ctrl_led_timer := CTRL_FAULT_BLINK_OFF_MSEC div CTRL_EVAL_MSEC\<rparr>)
     else if new_st = CTRL_LED_ST_FLT_IDLE then
       ctrl_set_led CTRL_LED_OFF
         (c\<lparr>ctrl_led_timer := CTRL_FAULT_IDLE_MSEC div CTRL_EVAL_MSEC\<rparr>)
     else c)"

definition ctrl_set_state :: "int \<Rightarrow> ctrl \<Rightarrow> ctrl" where
  "ctrl_set_state new_st c =
    (let c = c\<lparr>ctrl_state := new_st\<rparr> in
     if new_st = CTRL_ST_STARTUP then
       ctrl_set_led_state CTRL_LED_ST_SOLID (ctrl_set_led CTRL_LED_YEL c)
     else if new_st = CTRL_ST_RUN then
       ctrl_set_led_state CTRL_LED_ST_SOLID (ctrl_set_led CTRL_LED_GRN c)
     else if new_st = CTRL_ST_FAULT then
       (if ctrl_fault_type c \<noteq> CTRL_FAULT_NONE
        then ctrl_set_led_state CTRL_LED_ST_FLT_ON
               (c\<lparr>ctrl_fault_led_count := ctrl_fault_type c\<rparr>)
        else c)
     else c)"

text \<open>\<^verbatim>\<open>ctrl_set_fault_type\<close>, called from the other tasks.\<close>

definition ctrl_set_fault_type :: "int \<Rightarrow> ctrl \<Rightarrow> ctrl" where
  "ctrl_set_fault_type f c =
    (let c = c\<lparr>ctrl_fault_type := f\<rparr> in
     if f = CTRL_FAULT_NONE
     then c\<lparr>ctrl_notify := ctrl_notify c OR CTRL_NOTIFY_FAULT_CLEAR\<rparr>
     else c\<lparr>ctrl_pre_activity_state := ctrl_state c,
            ctrl_notify := ctrl_notify c OR CTRL_NOTIFY_FAULT\<rparr>)"

definition ctrl_eval_led_sm :: "ctrl \<Rightarrow> ctrl" where
  "ctrl_eval_led_sm c =
    (if ctrl_led_state c = CTRL_LED_ST_SOLID then c
     else if ctrl_led_state c = CTRL_LED_ST_FLT_ON then
       (let c = c\<lparr>ctrl_led_timer := ctrl_led_timer c - 1\<rparr> in
        if ctrl_led_timer c = 0 then ctrl_set_led_state CTRL_LED_ST_FLT_OFF c else c)
     else if ctrl_led_state c = CTRL_LED_ST_FLT_OFF then
       (let c = c\<lparr>ctrl_led_timer := ctrl_led_timer c - 1\<rparr> in
        if ctrl_led_timer c = 0 then
          (let c = c\<lparr>ctrl_fault_led_count := ctrl_fault_led_count c - 1\<rparr> in
           if ctrl_fault_led_count c = 0
           then ctrl_set_led_state CTRL_LED_ST_FLT_IDLE c
           else ctrl_set_led_state CTRL_LED_ST_FLT_ON c)
        else c)
     else if ctrl_led_state c = CTRL_LED_ST_FLT_IDLE then
       (let c = c\<lparr>ctrl_led_timer := ctrl_led_timer c - 1\<rparr> in
        if ctrl_led_timer c = 0
        then ctrl_set_led_state CTRL_LED_ST_FLT_ON
               (c\<lparr>ctrl_fault_led_count := ctrl_fault_type c\<rparr>)
        else c)
     else c)"

text \<open>
  \<^verbatim>\<open>ctrl_handle_notifications\<close>. When nothing is pending the value read is 0 and no
  mask matches, which is the source's skipped \<^verbatim>\<open>if (xTaskNotifyWait(...))\<close> body.
\<close>

definition ctrl_handle_notifications :: "ctrl \<Rightarrow> ctrl" where
  "ctrl_handle_notifications c =
    (let notification_value = ctrl_notify c;
         c = c\<lparr>ctrl_notify := 0\<rparr>;
         c = (if Notification notification_value CTRL_NOTIFY_STARTUP_DONE
              then (if ctrl_state c \<noteq> CTRL_ST_FAULT then ctrl_set_state CTRL_ST_RUN c else c)
              else c);
         c = (if Notification notification_value CTRL_NOTIFY_FAULT
              then ctrl_set_state CTRL_ST_FAULT c else c)
     in if Notification notification_value CTRL_NOTIFY_FAULT_CLEAR
        then ctrl_set_state (ctrl_pre_activity_state c) c else c)"

text \<open>
  \<^verbatim>\<open>ctrl_eval_sm\<close>; the third component is the set of bits sent to the video task
  with \<^verbatim>\<open>xTaskNotify(task_handle_vid, ..., eSetBits)\<close>.
\<close>

definition ctrl_eval_sm :: "bool \<Rightarrow> ctrl \<times> btn_state \<Rightarrow> ctrl \<times> btn_state \<times> 32 word" where
  "ctrl_eval_sm cur_btn cb =
    (case cb of (c, b) \<Rightarrow>
     (case ctrl_debounce_button cur_btn b of (b', btn_short_press, btn_long_press) \<Rightarrow>
        if ctrl_state c = CTRL_ST_STARTUP then (c, b', 0)
        else if ctrl_state c = CTRL_ST_RUN then
          (c, b', (if btn_short_press then VID_NOTIFY_PARM_CHANGE_MASK else 0) OR
                  (if btn_long_press then VID_NOTIFY_PARM_SELECT_MASK else 0))
        else if ctrl_state c = CTRL_ST_FAULT then (c, b', 0)
        else (ctrl_set_state CTRL_ST_STARTUP c, b', 0)))"

text \<open>One pass of the loop of \<^verbatim>\<open>ctrl_task\<close> (after its delay).\<close>

definition ctrl_task_iter :: "bool \<Rightarrow> ctrl \<times> btn_state \<Rightarrow> ctrl \<times> btn_state \<times> 32 word" where
  "ctrl_task_iter cur_btn cb =
    (case cb of (c, b) \<Rightarrow>
       ctrl_eval_sm cur_btn (ctrl_eval_led_sm (ctrl_handle_notifications c), b))"

text \<open>
  What can happen to the control task: another task reports or clears a fault
  (\<^verbatim>\<open>ctrl_set_fault_type\<close>), \<^verbatim>\<open>app_main\<close> sends the startup-complete notification,
  or the task runs one pass of its loop with the sampled button level.
\<close>

datatype ctrl_event = Set_fault int | Startup_done | Eval_pass bool

fun ctrl_step :: "ctrl_event \<Rightarrow> ctrl \<times> btn_state \<Rightarrow> ctrl \<times> btn_state" where
  "ctrl_step (Set_fault f) (c, b) = (ctrl_set_fault_type f c, b)"
| "ctrl_step Startup_done (c, b) =
     (c\<lparr>ctrl_notify := ctrl_notify c OR CTRL_NOTIFY_STARTUP_DONE\<rparr>, b)"
| "ctrl_step (Eval_pass cur_btn) (c, b) =
     (case ctrl_task_iter cur_btn (c, b) of (c', b', v) \<Rightarrow> (c', b'))"

fun ctrl_run :: "ctrl_event list \<Rightarrow> ctrl \<times> btn_state \<Rightarrow> ctrl \<times> btn_state" where
  "ctrl_run [] cb = cb"
| "ctrl_run (e # es) cb = ctrl_run es (ctrl_step e cb)"

fun is_fault_report :: "ctrl_event \<Rightarrow> bool" where
  "is_fault_report (Set_fault f) = (f \<noteq> CTRL_FAULT_NONE)"
| "is_fault_report Startup_done = False"
| "is_fault_report (Eval_pass l) = False"

fun is_eval_pass :: "ctrl_event \<Rightarrow> bool" where
  "is_eval_pass (Eval_pass l) = True"
| "is_eval_pass (Set_fault f) = False"
| "is_eval_pass Startup_done = False"

text \<open>
  The LED seen on successive passes of the loop: the LED state-machine state and the pair
  of output levels (red, green) at the start of each pass.
\<close>

fun led_trace :: "bool list \<Rightarrow> ctrl \<times> btn_state \<Rightarrow> (int \<times> bool \<times> bool) list" where
  "led_trace [] cb = []"
| "led_trace (l # ls) cb =
     (ctrl_led_state (fst cb), pin_r_led (fst cb), pin_g_led (fst cb)) #
       led_trace ls (ctrl_step (Eval_pass l) cb)"

text \<open>
  \<^verbatim>\<open>ctrl_task_init\<close> (its pin configuration left out) applied to the zero-initialised
  statics.
\<close>

definition ctrl_task_init :: ctrl where
  "ctrl_task_init = ctrl_set_state CTRL_ST_STARTUP
     \<lparr>ctrl_state = 0, ctrl_pre_activity_state = 0, ctrl_led_state = 0, ctrl_led_timer = 0,
      ctrl_fault_led_count = 0, ctrl_fault_type = CTRL_FAULT_NONE,
      pin_r_led = False, pin_g_led = False, ctrl_notify = 0\<rparr>"

text \<open>
  Shorthand for a control state that differs from \<open>c\<close> only in the LED state machine:
  LED state \<open>st\<close>, timer \<open>t\<close>, remaining blink count \<open>k\<close>, red output \<open>r\<close>, green off.
\<close>

definition led_cfg :: "ctrl \<Rightarrow> int \<Rightarrow> int \<Rightarrow> int \<Rightarrow> bool \<Rightarrow> ctrl" where
  "led_cfg c st t k r =
     c\<lparr>ctrl_led_state := st, ctrl_led_timer := t, ctrl_fault_led_count := k,
       pin_r_led := r, pin_g_led := False\<rparr>"

text \<open>
  The number of on-phases in a trace: the entries with the red output high whose
  predecessor (if any) has it low.
\<close>

fun count_on :: "bool \<Rightarrow> (int \<times> bool \<times> bool) list \<Rightarrow> nat" where
  "count_on prev [] = 0"
| "count_on prev ((st, r, g) # xs) = (if r \<and> \<not> prev then 1 else 0) + count_on r xs"

definition led_on_phases :: "(int \<times> bool \<times> bool) list \<Rightarrow> nat" where
  "led_on_phases tr = count_on False tr"

text \<open>
  The same trace, and the control state with the active fault code, over any events: one
  entry at the start of each pass of the loop; a fault report or the startup notification
  between two passes adds no entry.
\<close>

fun led_trace_events :: "ctrl_event list \<Rightarrow> ctrl \<times> btn_state \<Rightarrow> (int \<times> bool \<times> bool) list" where
  "led_trace_events [] cb = []"
| "led_trace_events (e # es) cb =
     (if is_eval_pass e
      then [(ctrl_led_state (fst cb), pin_r_led (fst cb), pin_g_led (fst cb))] else []) @
       led_trace_events es (ctrl_step e cb)"

fun fault_trace_events :: "ctrl_event list \<Rightarrow> ctrl \<times> btn_state \<Rightarrow> (int \<times> int) list" where
  "fault_trace_events [] cb = []"
| "fault_trace_events (e # es) cb =
     (if is_eval_pass e then [(ctrl_state (fst cb), ctrl_fault_type (fst cb))] else []) @
       fault_trace_events es (ctrl_step e cb)"

section \<open>Acquisition task (main/lep_task.c)\<close>

definition STATE_INIT :: int where "STATE_INIT = 0"
definition STATE_RUN :: int where "STATE_RUN = 1"
definition STATE_RE_INIT :: int where "STATE_RE_INIT = 2"
definition STATE_ERROR :: int where "STATE_ERROR = 3"

text \<open>The local variables of \<^verbatim>\<open>lep_task\<close> that live across passes of its loop.\<close>

record lep_task_t =
  task_state :: int
  vid_buf_index :: int
  vsync_count :: int
  sync_fail_count :: int
  reset_fail_count :: int

text \<open>
  What one pass of the loop does to the rest of the system, in program order:
  \<^verbatim>\<open>ctrl_set_fault_type(f)\<close>, \<^verbatim>\<open>xTaskNotify(task_handle_vid, bits, eSetBits)\<close>,
  \<^verbatim>\<open>vospi_get_frame(&vid_lep_buffer[i])\<close> under that slot's mutex,
  \<^verbatim>\<open>vTaskDelay(pdMS_TO_TICKS(ms))\<close> and \<^verbatim>\<open>gpio_set_level(BRD_LEP_RESET_IO, level)\<close>.
\<close>

datatype lep_effect =
  Fault_type int | Vid_notify "32 word" | Get_frame int | Task_delay int | Reset_level bool

text \<open>
  What one pass reads from outside: the levels of the vsync pin sampled by the spin loop of
  the Run state, and the result of the one call the pass makes (\<^verbatim>\<open>lepton_init\<close> in
  Init and ReInit, \<^verbatim>\<open>vospi_transfer_segment\<close> in Run).
\<close>

record lep_input =
  vsync_samples :: "bool list"
  call_ok :: bool

text \<open>
  \<^verbatim>\<open>while (gpio_get_level(lep_vsync_pin) == 0) {}\<close>: the samples left once a high level
  was read, \<open>None\<close> when the pin never goes high (the loop does not return).
\<close>

fun wait_vsync :: "bool list \<Rightarrow> bool list option" where
  "wait_vsync [] = None"
| "wait_vsync (l # ls) = (if l then Some ls else wait_vsync ls)"

text \<open>
  One pass of \<^verbatim>\<open>while (true) { switch (task_state) ... }\<close>. The constants
  \<^verbatim>\<open>LEP_SYNC_FAIL_FAULT_LIMIT\<close> and \<^verbatim>\<open>LEP_RESET_FAIL_RETRY_SECS\<close> come from a header
  that is not part of the sources at hand; they are the parameters \<open>LIMIT\<close> and \<open>RETRY\<close>.
\<close>

definition lep_task_pass ::
  "int \<Rightarrow> int \<Rightarrow> lep_input \<Rightarrow> lep_task_t \<Rightarrow> (lep_task_t \<times> lep_effect list) option" where
  "lep_task_pass LIMIT RETRY inp s =
    (if task_state s = STATE_INIT then
       (if call_ok inp then Some (s\<lparr>task_state := STATE_RUN\<rparr>, [])
        else Some (s\<lparr>task_state := STATE_ERROR, reset_fail_count := RETRY\<rparr>,
                   [Fault_type CTRL_FAULT_LEP_CCI]))
     else if task_state s = STATE_RUN then
       (case wait_vsync (vsync_samples inp) of
          None \<Rightarrow> None
        | Some rest \<Rightarrow>
          if call_ok inp then
            (let s = s\<lparr>vsync_count := 0\<rparr>;
                 i = vid_buf_index s;
                 e1 = [Get_frame i];
                 e2 = (if i = 0 then [Vid_notify VID_NOTIFY_LEP_FRAME_MASK_1]
                       else [Vid_notify VID_NOTIFY_LEP_FRAME_MASK_2]);
                 s = (if i = 0 then s\<lparr>vid_buf_index := 1\<rparr> else s\<lparr>vid_buf_index := 0\<rparr>);
                 e3 = (if sync_fail_count s \<ge> LIMIT then [Fault_type CTRL_FAULT_NONE] else []);
                 s = s\<lparr>sync_fail_count := 0, reset_fail_count := 0\<rparr>
             in Some (s, e1 @ e2 @ e3 @ [Task_delay 30]))
          else
            (let s = s\<lparr>vsync_count := vsync_count s + 1\<rparr> in
             if vsync_count s = 36 then
               (let s = s\<lparr>vsync_count := 0\<rparr>;
                    e1 = [Task_delay 185];
                    at_limit = (sync_fail_count s = LIMIT);
                    s = s\<lparr>sync_fail_count := sync_fail_count s + 1\<rparr>
                in if at_limit then
                     (let s = s\<lparr>sync_fail_count := 0\<rparr>;
                          e2 = [Fault_type CTRL_FAULT_LEP_SYNC]
                      in if reset_fail_count s = 0
                         then Some (s\<lparr>task_state := STATE_RE_INIT\<rparr>, e1 @ e2)
                         else Some (s\<lparr>task_state := STATE_ERROR, reset_fail_count := RETRY\<rparr>,
                                    e1 @ e2))
                   else Some (s, e1))
             else Some (s, [])))
     else if task_state s = STATE_RE_INIT then
       (let e1 = [Reset_level True, Task_delay 10, Reset_level False, Task_delay 1000] in
        if call_ok inp then Some (s\<lparr>task_state := STATE_RUN, reset_fail_count := 1\<rparr>, e1)
        else Some (s\<lparr>task_state := STATE_ERROR, reset_fail_count := RETRY\<rparr>,
                   e1 @ [Fault_type CTRL_FAULT_LEP_CCI]))
     else if task_state s = STATE_ERROR then
       (let s = s\<lparr>reset_fail_count := reset_fail_count s - 1\<rparr> in
        if reset_fail_count s = 0
        then Some (s\<lparr>task_state := STATE_RE_INIT\<rparr>, [Task_delay 1000])
        else Some (s, [Task_delay 1000]))
     else Some (s\<lparr>task_state := STATE_RE_INIT\<rparr>, []))"

text \<open>Successive passes, with the effects of all of them in order.\<close>

fun lep_task_run ::
  "int \<Rightarrow> int \<Rightarrow> lep_input list \<Rightarrow> lep_task_t \<Rightarrow> (lep_task_t \<times> lep_effect list) option" where
  "lep_task_run LIMIT RETRY [] s = Some (s, [])"
| "lep_task_run LIMIT RETRY (inp # inps) s =
     (case lep_task_pass LIMIT RETRY inp s of
        None \<Rightarrow> None
      | Some (s', es) \<Rightarrow>
          (case lep_task_run LIMIT RETRY inps s' of
             None \<Rightarrow> None
           | Some (s'', es') \<Rightarrow> Some (s'', es @ es')))"

text \<open>A pass input in which the vsync edge is seen at once and the segment transfer fails.\<close>

definition segment_miss :: lep_input where
  "segment_miss = \<lparr>vsync_samples = [True], call_ok = False\<rparr>"

definition segment_ok :: lep_input where
  "segment_ok = \<lparr>vsync_samples = [True], call_ok = True\<rparr>"

section \<open>Persistent storage (components/sys/ps_utilities.c)\<close>

definition PS_PARM_PALETTE_MARKER :: int where "PS_PARM_PALETTE_MARKER = 0"
definition PS_PARM_EMISSIVITY :: int where "PS_PARM_EMISSIVITY = 1"
definition PS_PARM_UNITS :: int where "PS_PARM_UNITS = 2"

definition PS_PARAM_PALETTE_MARKER_DEF :: int where "PS_PARAM_PALETTE_MARKER_DEF = 0"
definition PS_PARAM_EMISSIVITY_DEF :: int where "PS_PARAM_EMISSIVITY_DEF = 97"
definition PS_PARAM_UNITS_DEF :: int where "PS_PARAM_UNITS_DEF = 0"

text \<open>The local copies of the three stored values (each write also goes to NVS).\<close>

record ps_t =
  val_palette_marker :: int
  val_emissivity :: int
  val_units :: int

definition ps_defaults :: ps_t where
  "ps_defaults = \<lparr>val_palette_marker = PS_PARAM_PALETTE_MARKER_DEF,
                  val_emissivity = PS_PARAM_EMISSIVITY_DEF,
                  val_units = PS_PARAM_UNITS_DEF\<rparr>"

definition ps_get_parm :: "int \<Rightarrow> ps_t \<Rightarrow> int" where
  "ps_get_parm index p =
    (if index = PS_PARM_PALETTE_MARKER then val_palette_marker p
     else if index = PS_PARM_EMISSIVITY then val_emissivity p
     else if index = PS_PARM_UNITS then val_units p
     else 0)"

definition ps_set_parm :: "int \<Rightarrow> int \<Rightarrow> ps_t \<Rightarrow> ps_t" where
  "ps_set_parm index val p =
    (if index = PS_PARM_PALETTE_MARKER then p\<lparr>val_palette_marker := val\<rparr>
     else if index = PS_PARM_EMISSIVITY then p\<lparr>val_emissivity := val\<rparr>
     else if index = PS_PARM_UNITS then p\<lparr>val_units := val\<rparr>
     else p)"

section \<open>Video task (main/video_task.c)\<close>

definition NUM_PARMS :: int where "NUM_PARMS = 3"
definition PARM_INDEX_MARKER :: int where "PARM_INDEX_MARKER = 0"
definition PARM_INDEX_EMISSIVITY :: int where "PARM_INDEX_EMISSIVITY = 1"
definition PARM_INDEX_UNITS :: int where "PARM_INDEX_UNITS = 2"

definition NUM_M_PARM_VALS :: int where "NUM_M_PARM_VALS = 4"
definition M_PARM_MARKER_MASK :: int where "M_PARM_MARKER_MASK = 0x01"
definition M_PARM_PALETTE_MASK :: int where "M_PARM_PALETTE_MASK = 0x02"

definition NUM_E_PARM_VALS :: int where "NUM_E_PARM_VALS = 23"
definition parm_e_value :: "int list" where
  "parm_e_value = [10, 20, 30, 40, 50, 60, 70, 80, 82, 84, 86, 88,
                   90, 91, 92, 93, 94, 95, 96, 97, 98, 99, 100]"

definition NUM_U_PARM_VALS :: int where "NUM_U_PARM_VALS = 2"

definition PARM_ENTRY_TIMEOUT_MSEC :: int where
  "PARM_ENTRY_TIMEOUT_MSEC = CTRL_BTN_LONG_PRESS_MSEC + 7000"

text \<open>\<^verbatim>\<open>gui_state_t\<close> of render.h.\<close>

record gui_state_t =
  agc_enabled :: bool
  black_hot_palette :: bool
  display_interp_enable :: bool
  is_radiometric :: bool
  min_max_enable :: bool
  spotmeter_enable :: bool
  temp_unit_C :: bool
  rad_high_res :: bool

text \<open>
  The file-static variables of video_task.c and the function-static \<^verbatim>\<open>prev_time\<close> of
  \<^verbatim>\<open>_vid_eval_parm_update\<close>, together with the two things the parameter session writes
  outside the file: the stored settings (\<open>ps\<close>) and the emissivity last handed to
  \<^verbatim>\<open>lepton_emissivity\<close>.
\<close>

record vid_t =
  notify_image_1 :: bool
  notify_image_2 :: bool
  notify_parm_val_change :: bool
  notify_parm_sel_change :: bool
  gui_state :: gui_state_t
  cur_parm_index :: int
  cur_parm_max_index :: int
  cur_parm_value :: int
  prev_parm_value :: int
  parm_entry_timeout :: int
  prev_time :: int
  ps :: ps_t
  lep_emissivity :: int

text \<open>
  \<^verbatim>\<open>_vid_get_emissivity_index\<close>: the loop \<^verbatim>\<open>for (int i=0; i<NUM_E_PARM_VALS; i++)\<close>
  from index \<open>i\<close> on.
\<close>

function emissivity_index_from :: "nat \<Rightarrow> int \<Rightarrow> int" where
  "emissivity_index_from i cur_e =
    (if int i < NUM_E_PARM_VALS
     then (if parm_e_value ! i = cur_e then int i else emissivity_index_from (i + 1) cur_e)
     else NUM_E_PARM_VALS - 1)"
  by pat_completeness auto
termination
  by (relation "measure (\<lambda>(i, cur_e). 23 - i)") (auto simp: NUM_E_PARM_VALS_def)

definition vid_get_emissivity_index :: "int \<Rightarrow> int" where
  "vid_get_emissivity_index cur_e = emissivity_index_from 0 cur_e"

text \<open>The start of \<^verbatim>\<open>vid_task\<close>: the default GUI state, from the stored settings.\<close>

definition vid_task_init :: "ps_t \<Rightarrow> vid_t" where
  "vid_task_init p =
    (let v = ps_get_parm PS_PARM_PALETTE_MARKER p in
     \<lparr>notify_image_1 = False, notify_image_2 = False,
      notify_parm_val_change = False, notify_parm_sel_change = False,
      gui_state = \<lparr>agc_enabled = False,
                   black_hot_palette = (v AND M_PARM_PALETTE_MASK = M_PARM_PALETTE_MASK),
                   display_interp_enable = True,
                   is_radiometric = False,
                   min_max_enable = (v AND M_PARM_MARKER_MASK = M_PARM_MARKER_MASK),
                   spotmeter_enable = (v AND M_PARM_MARKER_MASK = M_PARM_MARKER_MASK),
                   temp_unit_C = (ps_get_parm PS_PARM_UNITS p \<noteq> 0),
                   rad_high_res = False\<rparr>,
      cur_parm_index = 0,
      cur_parm_max_index = NUM_M_PARM_VALS - 1,
      cur_parm_value = v,
      prev_parm_value = v,
      parm_entry_timeout = 0,
      prev_time = 0,
      ps = p,
      lep_emissivity = 0\<rparr>)"

text \<open>\<^verbatim>\<open>_vid_handle_notifications\<close>, given the notification value it reads.\<close>

definition vid_handle_notifications :: "32 word \<Rightarrow> vid_t \<Rightarrow> vid_t" where
  "vid_handle_notifications notification_value s =
    (let s = (if Notification notification_value VID_NOTIFY_LEP_FRAME_MASK_1
              then s\<lparr>notify_image_1 := True\<rparr> else s);
         s = (if Notification notification_value VID_NOTIFY_LEP_FRAME_MASK_2
              then s\<lparr>notify_image_2 := True\<rparr> else s);
         s = (if Notification notification_value VID_NOTIFY_PARM_CHANGE_MASK
              then s\<lparr>notify_parm_val_change := True\<rparr> else s)
     in if Notification notification_value VID_NOTIFY_PARM_SELECT_MASK
        then s\<lparr>notify_parm_sel_change := True\<rparr> else s)"

text \<open>
  The three identical \<^verbatim>\<open>switch (cur_parm_index)\<close> blocks of
  \<^verbatim>\<open>_vid_eval_parm_update\<close> that write the current value to persistent storage.
\<close>

definition store_cur_parm :: "vid_t \<Rightarrow> vid_t" where
  "store_cur_parm s =
    (if cur_parm_index s = PARM_INDEX_EMISSIVITY then
       s\<lparr>ps := ps_set_parm PS_PARM_EMISSIVITY (parm_e_value ! nat (cur_parm_value s)) (ps s)\<rparr>
     else if cur_parm_index s = PARM_INDEX_UNITS then
       s\<lparr>ps := ps_set_parm PS_PARM_UNITS (cur_parm_value s) (ps s)\<rparr>
     else s\<lparr>ps := ps_set_parm PS_PARM_PALETTE_MARKER (cur_parm_value s) (ps s)\<rparr>)"

text \<open>
  \<^verbatim>\<open>_vid_eval_parm_update\<close>, one definition for the body of each of its three
  branches; \<open>now\<close> is \<^verbatim>\<open>esp_timer_get_time() / 1000\<close>, read at most once in a call.
\<close>

text \<open>The body of \<^verbatim>\<open>if (notify_parm_val_change)\<close> (a short-press).\<close>

definition parm_value_change :: "int \<Rightarrow> vid_t \<Rightarrow> vid_t" where
  "parm_value_change now s =
    (let s = s\<lparr>notify_parm_val_change := False\<rparr>;
         s = s\<lparr>cur_parm_value := cur_parm_value s + 1\<rparr>;
         s = (if cur_parm_value s > cur_parm_max_index s then s\<lparr>cur_parm_value := 0\<rparr> else s);
         s = (if cur_parm_index s = PARM_INDEX_EMISSIVITY then
                s\<lparr>lep_emissivity := parm_e_value ! nat (cur_parm_value s)\<rparr>
              else if cur_parm_index s = PARM_INDEX_UNITS then
                s\<lparr>gui_state := (gui_state s)\<lparr>temp_unit_C := (cur_parm_value s \<noteq> 0)\<rparr>\<rparr>
              else
                s\<lparr>gui_state := (gui_state s)
                   \<lparr>black_hot_palette :=
                      (cur_parm_value s AND M_PARM_PALETTE_MASK = M_PARM_PALETTE_MASK),
                    min_max_enable :=
                      (cur_parm_value s AND M_PARM_MARKER_MASK = M_PARM_MARKER_MASK),
                    spotmeter_enable :=
                      (cur_parm_value s AND M_PARM_MARKER_MASK = M_PARM_MARKER_MASK)\<rparr>\<rparr>)
     in s\<lparr>parm_entry_timeout := PARM_ENTRY_TIMEOUT_MSEC, prev_time := now\<rparr>)"

text \<open>The body of \<^verbatim>\<open>else if (notify_parm_sel_change)\<close> (a long-press).\<close>

definition parm_select_change :: "int \<Rightarrow> vid_t \<Rightarrow> vid_t" where
  "parm_select_change now s =
    (let s = s\<lparr>notify_parm_sel_change := False\<rparr>;
         s = (if cur_parm_value s \<noteq> prev_parm_value s then store_cur_parm s else s);
         s = s\<lparr>cur_parm_index := cur_parm_index s + 1\<rparr>;
         s = (if cur_parm_index s = NUM_PARMS
              then s\<lparr>cur_parm_index := 0, parm_entry_timeout := 0\<rparr>
              else s\<lparr>parm_entry_timeout := PARM_ENTRY_TIMEOUT_MSEC, prev_time := now\<rparr>);
         s = (if cur_parm_index s = PARM_INDEX_EMISSIVITY then
                s\<lparr>cur_parm_value :=
                     vid_get_emissivity_index (ps_get_parm PS_PARM_EMISSIVITY (ps s)),
                  cur_parm_max_index := NUM_E_PARM_VALS - 1\<rparr>
              else if cur_parm_index s = PARM_INDEX_UNITS then
                s\<lparr>cur_parm_value := ps_get_parm PS_PARM_UNITS (ps s),
                  cur_parm_max_index := NUM_U_PARM_VALS - 1\<rparr>
              else
                s\<lparr>cur_parm_value := ps_get_parm PS_PARM_PALETTE_MARKER (ps s),
                  cur_parm_max_index := NUM_M_PARM_VALS - 1\<rparr>)
     in s\<lparr>prev_parm_value := cur_parm_value s\<rparr>)"

text \<open>
  The body of \<^verbatim>\<open>if ((cur_time - prev_time) >= parm_entry_timeout)\<close> (the inactivity
  timeout).
\<close>

definition parm_timeout_expired :: "vid_t \<Rightarrow> vid_t" where
  "parm_timeout_expired s =
    (let s = (if cur_parm_value s \<noteq> prev_parm_value s then store_cur_parm s else s);
         s = s\<lparr>cur_parm_index := 0,
               cur_parm_max_index := NUM_M_PARM_VALS - 1,
               cur_parm_value := ps_get_parm PS_PARM_PALETTE_MARKER (ps s)\<rparr>
     in s\<lparr>prev_parm_value := cur_parm_value s, parm_entry_timeout := 0\<rparr>)"

definition vid_eval_parm_update :: "int \<Rightarrow> vid_t \<Rightarrow> vid_t" where
  "vid_eval_parm_update now s =
    (if notify_parm_val_change s then parm_value_change now s
     else if notify_parm_sel_change s then parm_select_change now s
     else if parm_entry_timeout s \<noteq> 0 then
       (if now - prev_time s \<ge> parm_entry_timeout s then parm_timeout_expired s else s)
     else s)"

text \<open>
  What one pass of the loop of \<^verbatim>\<open>vid_task\<close> does with the frame buffers, in program
  order: \<^verbatim>\<open>video_wait_frame()\<close>, \<^verbatim>\<open>_vid_display_image(i)\<close> (copy render buffer \<open>i\<close>
  to the driver's frame buffer) and \<^verbatim>\<open>_vid_render_image(i)\<close> (render raw slot \<open>i\<close> into
  render buffer \<open>i\<close>).
\<close>

datatype vid_action = Wait_frame | Display_image int | Render_image int

text \<open>
  One pass of \<^verbatim>\<open>while (1)\<close> in \<^verbatim>\<open>vid_task\<close> on the variables of the task, given the
  notification value read and the time, with the buffer operations it makes listed in
  order. \<open>vid_task_loop_body\<close> further down is the same pass with these operations
  carried out on the buffers; there \<^verbatim>\<open>_vid_render_image\<close> also copies three telemetry
  flags into the GUI state, which the parameter session does not read and which are not
  followed here.
\<close>

definition vid_task_pass :: "32 word \<Rightarrow> int \<Rightarrow> vid_t \<Rightarrow> vid_t \<times> vid_action list" where
  "vid_task_pass notification_value now s =
    (let s = vid_handle_notifications notification_value s;
         s = vid_eval_parm_update now s;
         a1 = (if notify_image_1 s then [Wait_frame, Display_image 1, Render_image 0] else []);
         s = (if notify_image_1 s then s\<lparr>notify_image_1 := False\<rparr> else s);
         a2 = (if notify_image_2 s then [Wait_frame, Display_image 0, Render_image 1] else []);
         s = (if notify_image_2 s then s\<lparr>notify_image_2 := False\<rparr> else s)
     in (s, a1 @ a2))"

fun vid_task_run :: "(32 word \<times> int) list \<Rightarrow> vid_t \<Rightarrow> vid_t" where
  "vid_task_run [] s = s"
| "vid_task_run ((v, now) # es) s = vid_task_run es (fst (vid_task_pass v now s))"

text \<open>The branch of \<^verbatim>\<open>_vid_eval_parm_update\<close> taken by a call.\<close>

datatype parm_branch = Value_change | Select_change | Timeout_fired | No_change

definition parm_branch_of :: "int \<Rightarrow> vid_t \<Rightarrow> parm_branch" where
  "parm_branch_of now s =
    (if notify_parm_val_change s then Value_change
     else if notify_parm_sel_change s then Select_change
     else if parm_entry_timeout s \<noteq> 0 \<and> now - prev_time s \<ge> parm_entry_timeout s
     then Timeout_fired
     else No_change)"

text \<open>
  Successive passes together with a history flag: whether a short-press (value change) has
  been processed since the session last entered a group (at start, by a long-press or by
  the timeout).
\<close>

fun parm_run :: "(32 word \<times> int) list \<Rightarrow> vid_t \<times> bool \<Rightarrow> vid_t \<times> bool" where
  "parm_run [] sg = sg"
| "parm_run ((v, now) # es) (s, g) =
     parm_run es
       (fst (vid_task_pass v now s),
        (case parm_branch_of now (vid_handle_notifications v s) of
           Value_change \<Rightarrow> True
         | Select_change \<Rightarrow> False
         | Timeout_fired \<Rightarrow> False
         | No_change \<Rightarrow> g))"

text \<open>Two session states that differ at most in \<^verbatim>\<open>prev_time\<close>.\<close>

definition same_but_prev_time :: "vid_t \<Rightarrow> vid_t \<Rightarrow> bool" where
  "same_but_prev_time a b = (a\<lparr>prev_time := prev_time b\<rparr> = b)"

section \<open>Renderer (components/video/render.c, render.h)\<close>

text \<open>
  \<^verbatim>\<open>LEP_WIDTH\<close> and \<^verbatim>\<open>LEP_HEIGHT\<close> come from a header that is not part of the sources at
  hand; they are the parameters \<open>W\<close> and \<open>H\<close> of every function below. A pointer into the
  raw frame or into the image is the buffer (a list) together with an index into it. The
  file-static \<^verbatim>\<open>render_palette_mod\<close> is the parameter \<open>pm\<close> of the internal functions.
\<close>

definition SF_DS :: nat where "SF_DS = 3"
definition SF_QS :: nat where "SF_QS = 5"
definition DIV_DS :: nat where "DIV_DS = SF_DS + 1"
definition DIV_QS :: nat where "DIV_QS = SF_QS + 3"

text \<open>\<^verbatim>\<open>lep_buffer_t\<close> of sys_utilities.h, without its mutex.\<close>

record lep_buffer_t =
  telem_valid :: bool
  lep_min_val :: "16 word"
  lep_min_x :: "16 word"
  lep_min_y :: "16 word"
  lep_max_val :: "16 word"
  lep_max_x :: "16 word"
  lep_max_y :: "16 word"
  lep_bufferP :: "16 word list"
  lep_telemP :: "16 word list"

subsection \<open>Dynamic-range scaling\<close>

text \<open>
  \<^verbatim>\<open>diff = max_val - min_val; if (diff == 0) diff = 1;\<close> with \<^verbatim>\<open>uint32_t diff\<close>: the
  two 16-bit values are subtracted as \<^verbatim>\<open>int\<close> and the result converted to 32 bits.
\<close>

definition rad_diff :: "16 word \<Rightarrow> 16 word \<Rightarrow> 32 word" where
  "rad_diff min_val max_val =
    (let diff = word_of_int (uint max_val - uint min_val) in if diff = 0 then 1 else diff)"

text \<open>
  The scaling of one sample \<open>v\<close>, as both radiometric renderers write it:
  \<^verbatim>\<open>if (v < min_val) 0 else { t32 = ((uint32_t)(v - min_val) * 255) / diff;
  (t32 > 255) ? 255 : (uint8_t) t32 }\<close>.
\<close>

definition rad_scale :: "16 word \<Rightarrow> 32 word \<Rightarrow> 16 word \<Rightarrow> 8 word" where
  "rad_scale min_val diff v =
    (if v < min_val then 0
     else (let t32 = (word_of_int (uint v - uint min_val) * 255) div diff :: 32 word
           in if t32 > 255 then 255 else ucast t32))"

subsection \<open>Pixel doubling\<close>

text \<open>\<^verbatim>\<open>memcpy(dst, src, n)\<close> inside one image buffer (the two ranges do not overlap).\<close>

definition memcpy_img :: "8 word list \<Rightarrow> nat \<Rightarrow> nat \<Rightarrow> nat \<Rightarrow> 8 word list" where
  "memcpy_img img dst src n = take dst img @ take n (drop src img) @ drop (dst + n) img"

text \<open>
  The inner \<^verbatim>\<open>while (ptr < lep->lep_bufferP + (src_y+1)*LEP_WIDTH)\<close> of
  \<^verbatim>\<open>render_double_rad_data\<close>; \<open>e\<close> is the index of the end of the source line, \<open>sp\<close> the
  source pointer, \<open>ip\<close> the image pointer.
\<close>

function double_rad_line ::
  "nat \<Rightarrow> 8 word \<Rightarrow> 16 word \<Rightarrow> 32 word \<Rightarrow> 16 word list \<Rightarrow> nat \<Rightarrow> nat \<Rightarrow> 8 word list
   \<Rightarrow> nat \<times> nat \<times> 8 word list" where
  "double_rad_line e pm min_val diff src sp ip img =
    (if sp < e then
       (let t8 = rad_scale min_val diff (src ! sp);
            sp = sp + 1;
            img = img[ip := t8 XOR pm];
            ip = ip + 1;
            img = img[ip := t8 XOR pm];
            ip = ip + 1
        in double_rad_line e pm min_val diff src sp ip img)
     else (sp, ip, img))"
  by pat_completeness auto
termination
  by (relation "measure (\<lambda>(e, pm, min_val, diff, src, sp, ip, img). e - sp)") auto

declare double_rad_line.simps [simp del]

text \<open>The outer \<^verbatim>\<open>for (src_y=0; src_y<LEP_HEIGHT; src_y++)\<close>, from line \<open>src_y\<close> on.\<close>

function double_rad_lines ::
  "nat \<Rightarrow> nat \<Rightarrow> 8 word \<Rightarrow> 16 word \<Rightarrow> 32 word \<Rightarrow> 16 word list \<Rightarrow> nat \<Rightarrow> nat \<Rightarrow> nat
   \<Rightarrow> 8 word list \<Rightarrow> 8 word list" where
  "double_rad_lines W H pm min_val diff src src_y sp ip img =
    (if src_y < H then
       (case double_rad_line ((src_y + 1) * W) pm min_val diff src sp ip img of
          (sp, ip, img) \<Rightarrow>
            (let img = memcpy_img img ip (ip - 2 * W) (2 * W);
                 ip = ip + 2 * W
             in double_rad_lines W H pm min_val diff src (src_y + 1) sp ip img))
     else img)"
  by pat_completeness auto
termination
  by (relation "measure (\<lambda>(W, H, pm, min_val, diff, src, src_y, sp, ip, img). H - src_y)") auto

declare double_rad_lines.simps [simp del]

definition render_double_rad_data ::
  "nat \<Rightarrow> nat \<Rightarrow> 8 word \<Rightarrow> lep_buffer_t \<Rightarrow> 8 word list \<Rightarrow> 8 word list" where
  "render_double_rad_data W H pm lep img =
    (let min_val = lep_min_val lep;
         max_val = lep_max_val lep;
         diff = rad_diff min_val max_val
     in double_rad_lines W H pm min_val diff (lep_bufferP lep) 0 0 0 img)"

text \<open>The same two loops in \<^verbatim>\<open>render_double_agc_data\<close>.\<close>

function double_agc_line ::
  "nat \<Rightarrow> 8 word \<Rightarrow> 16 word list \<Rightarrow> nat \<Rightarrow> nat \<Rightarrow> 8 word list \<Rightarrow> nat \<times> nat \<times> 8 word list"
  where
  "double_agc_line e pm src sp ip img =
    (if sp < e then
       (let img = img[ip := ucast (src ! sp AND 0xFF) XOR pm];
            ip = ip + 1;
            img = img[ip := ucast (src ! sp AND 0xFF) XOR pm];
            sp = sp + 1;
            ip = ip + 1
        in double_agc_line e pm src sp ip img)
     else (sp, ip, img))"
  by pat_completeness auto
termination
  by (relation "measure (\<lambda>(e, pm, src, sp, ip, img). e - sp)") auto

declare double_agc_line.simps [simp del]

function double_agc_lines ::
  "nat \<Rightarrow> nat \<Rightarrow> 8 word \<Rightarrow> 16 word list \<Rightarrow> nat \<Rightarrow> nat \<Rightarrow> nat \<Rightarrow> 8 word list \<Rightarrow> 8 word list"
  where
  "double_agc_lines W H pm src src_y sp ip img =
    (if src_y < H then
       (case double_agc_line ((src_y + 1) * W) pm src sp ip img of
          (sp, ip, img) \<Rightarrow>
            (let img = memcpy_img img ip (ip - 2 * W) (2 * W);
                 ip = ip + 2 * W
             in double_agc_lines W H pm src (src_y + 1) sp ip img))
     else img)"
  by pat_completeness auto
termination
  by (relation "measure (\<lambda>(W, H, pm, src, src_y, sp, ip, img). H - src_y)") auto

declare double_agc_lines.simps [simp del]

definition render_double_agc_data ::
  "nat \<Rightarrow> nat \<Rightarrow> 8 word \<Rightarrow> lep_buffer_t \<Rightarrow> 8 word list \<Rightarrow> 8 word list" where
  "render_double_agc_data W H pm lep img = double_agc_lines W H pm (lep_bufferP lep) 0 0 0 img"

subsection \<open>Linear interpolation pixel doubler\<close>

definition interp_set_pixel ::
  "nat \<Rightarrow> 8 word \<Rightarrow> 16 word \<Rightarrow> 8 word list \<Rightarrow> nat \<Rightarrow> nat \<Rightarrow> 8 word list" where
  "interp_set_pixel W pm src img x y = img[y * 2 * W + x := ucast (src AND 0xFF) XOR pm]"

text \<open>
  The loop \<^verbatim>\<open>for (x=0; x<LEP_WIDTH-1; x++)\<close> of \<^verbatim>\<open>interp_set_outer_row\<close>, from \<open>x\<close> on;
  \<open>sp\<close> and \<open>ip\<close> are the pointers \<^verbatim>\<open>src\<close> and \<^verbatim>\<open>img\<close>, \<open>B\<close> the 8-bit variable.
\<close>

function interp_outer_row_loop ::
  "nat \<Rightarrow> 8 word \<Rightarrow> 16 word list \<Rightarrow> nat \<Rightarrow> nat \<Rightarrow> nat \<Rightarrow> 8 word \<Rightarrow> 8 word list
   \<Rightarrow> 8 word list" where
  "interp_outer_row_loop W pm src x sp ip B img =
    (if x < W - 1 then
       (let A = B;
            sp = sp + 1;
            B = ucast (src ! sp) :: 8 word;
            sub_pixel = word_of_nat ((SF_DS * unat A + unat B) div DIV_DS) :: 8 word;
            img = img[ip := sub_pixel XOR pm];
            ip = ip + 1;
            sub_pixel = word_of_nat ((unat A + SF_DS * unat B) div DIV_DS) :: 8 word;
            img = img[ip := sub_pixel XOR pm];
            ip = ip + 1
        in interp_outer_row_loop W pm src (x + 1) sp ip B img)
     else img)"
  by pat_completeness auto
termination
  by (relation "measure (\<lambda>(W, pm, src, x, sp, ip, B, img). W - 1 - x)") auto

declare interp_outer_row_loop.simps [simp del]

definition interp_set_outer_row ::
  "nat \<Rightarrow> nat \<Rightarrow> 8 word \<Rightarrow> 16 word list \<Rightarrow> 8 word list \<Rightarrow> bool \<Rightarrow> 8 word list" where
  "interp_set_outer_row W H pm src img first_row =
    (let sp = (if first_row then 0 else (H - 1) * W);
         ip = (if first_row then 1 else (2 * H - 1) * W * 2 + 1);
         B = ucast (src ! sp) :: 8 word
     in interp_outer_row_loop W pm src 0 sp ip B img)"

text \<open>The loop \<^verbatim>\<open>for (y=0; y<LEP_HEIGHT-1; y++)\<close> of \<^verbatim>\<open>interp_set_outer_col\<close>.\<close>

function interp_outer_col_loop ::
  "nat \<Rightarrow> nat \<Rightarrow> 8 word \<Rightarrow> 16 word list \<Rightarrow> nat \<Rightarrow> nat \<Rightarrow> nat \<Rightarrow> 8 word \<Rightarrow> 8 word list
   \<Rightarrow> 8 word list" where
  "interp_outer_col_loop W H pm src y sp ip B img =
    (if y < H - 1 then
       (let A = B;
            sp = sp + W;
            B = ucast (src ! sp) :: 8 word;
            sub_pixel = word_of_nat ((SF_DS * unat A + unat B) div DIV_DS) :: 8 word;
            img = img[ip := sub_pixel XOR pm];
            ip = ip + 2 * W;
            sub_pixel = word_of_nat ((unat A + SF_DS * unat B) div DIV_DS) :: 8 word;
            img = img[ip := sub_pixel XOR pm];
            ip = ip + 2 * W
        in interp_outer_col_loop W H pm src (y + 1) sp ip B img)
     else img)"
  by pat_completeness auto
termination
  by (relation "measure (\<lambda>(W, H, pm, src, y, sp, ip, B, img). H - 1 - y)") auto

declare interp_outer_col_loop.simps [simp del]

definition interp_set_outer_col ::
  "nat \<Rightarrow> nat \<Rightarrow> 8 word \<Rightarrow> 16 word list \<Rightarrow> 8 word list \<Rightarrow> bool \<Rightarrow> 8 word list" where
  "interp_set_outer_col W H pm src img first_col =
    (let sp = (if first_col then 0 else W - 1);
         ip = (if first_col then 2 * W else 2 * W + (2 * W - 1));
         B = ucast (src ! sp) :: 8 word
     in interp_outer_col_loop W H pm src 0 sp ip B img)"

text \<open>
  The inner loop \<^verbatim>\<open>for (x=0; x<LEP_WIDTH-1; x++)\<close> of \<^verbatim>\<open>interp_set_inner\<close>; it hands
  the two pointers back to the outer loop.
\<close>

function interp_inner_x_loop ::
  "nat \<Rightarrow> 8 word \<Rightarrow> 16 word list \<Rightarrow> nat \<Rightarrow> nat \<Rightarrow> nat \<Rightarrow> 8 word \<Rightarrow> 8 word \<Rightarrow> 8 word list
   \<Rightarrow> nat \<times> nat \<times> 8 word list" where
  "interp_inner_x_loop W pm src x sp ip B D img =
    (if x < W - 1 then
       (let A = B;
            C = D;
            sp = sp + 1;
            B = ucast (src ! sp) :: 8 word;
            D = ucast (src ! (sp + W)) :: 8 word;
            sub_pixel =
              word_of_nat ((SF_QS * unat A + unat B + unat C + unat D) div DIV_QS) :: 8 word;
            img = img[ip := sub_pixel XOR pm];
            sub_pixel =
              word_of_nat ((unat A + unat B + SF_QS * unat C + unat D) div DIV_QS) :: 8 word;
            img = img[ip + 2 * W := sub_pixel XOR pm];
            ip = ip + 1;
            sub_pixel =
              word_of_nat ((unat A + SF_QS * unat B + unat C + unat D) div DIV_QS) :: 8 word;
            img = img[ip := sub_pixel XOR pm];
            sub_pixel =
              word_of_nat ((unat A + unat B + unat C + SF_QS * unat D) div DIV_QS) :: 8 word;
            img = img[ip + 2 * W := sub_pixel XOR pm];
            ip = ip + 1
        in interp_inner_x_loop W pm src (x + 1) sp ip B D img)
     else (sp, ip, img))"
  by pat_completeness auto
termination
  by (relation "measure (\<lambda>(W, pm, src, x, sp, ip, B, D, img). W - 1 - x)") auto

declare interp_inner_x_loop.simps [simp del]

text \<open>The outer loop \<^verbatim>\<open>for (y=0; y<LEP_HEIGHT-1; y++)\<close> of \<^verbatim>\<open>interp_set_inner\<close>.\<close>

function interp_inner_y_loop ::
  "nat \<Rightarrow> nat \<Rightarrow> 8 word \<Rightarrow> 16 word list \<Rightarrow> nat \<Rightarrow> nat \<Rightarrow> nat \<Rightarrow> 8 word list \<Rightarrow> 8 word list"
  where
  "interp_inner_y_loop W H pm src y sp ip img =
    (if y < H - 1 then
       (let B = ucast (src ! sp) :: 8 word;
            D = ucast (src ! (sp + W)) :: 8 word
        in case interp_inner_x_loop W pm src 0 sp ip B D img of
             (sp, ip, img) \<Rightarrow>
               interp_inner_y_loop W H pm src (y + 1) (sp + 1) (ip + (2 * W + 2)) img)
     else img)"
  by pat_completeness auto
termination
  by (relation "measure (\<lambda>(W, H, pm, src, y, sp, ip, img). H - 1 - y)") auto

declare interp_inner_y_loop.simps [simp del]

definition interp_set_inner ::
  "nat \<Rightarrow> nat \<Rightarrow> 8 word \<Rightarrow> 16 word list \<Rightarrow> 8 word list \<Rightarrow> 8 word list" where
  "interp_set_inner W H pm src img = interp_inner_y_loop W H pm src 0 0 (2 * W + 1) img"

definition render_interp_agc_data ::
  "nat \<Rightarrow> nat \<Rightarrow> 8 word \<Rightarrow> 16 word list \<Rightarrow> 8 word list \<Rightarrow> 8 word list" where
  "render_interp_agc_data W H pm buf img =
    (let img = interp_set_pixel W pm (buf ! 0) img 0 0;
         img = interp_set_pixel W pm (buf ! (W - 1)) img (2 * W - 1) 0;
         img = interp_set_pixel W pm (buf ! (W * (H - 1))) img 0 (2 * H - 1);
         img = interp_set_pixel W pm (buf ! (W * (H - 1) + (W - 1))) img
                 (2 * W - 1) (2 * H - 1);
         img = interp_set_outer_row W H pm buf img True;
         img = interp_set_outer_row W H pm buf img False;
         img = interp_set_outer_col W H pm buf img True;
         img = interp_set_outer_col W H pm buf img False
     in interp_set_inner W H pm buf img)"

text \<open>
  The \<^verbatim>\<open>do { ... } while (++lepP < lep->lep_bufferP + LEP_WIDTH*LEP_HEIGHT)\<close> of
  \<^verbatim>\<open>render_interp_rad_data\<close>, which rewrites the raw frame in place.
\<close>

function linearize_loop ::
  "nat \<Rightarrow> nat \<Rightarrow> 16 word \<Rightarrow> 32 word \<Rightarrow> nat \<Rightarrow> 16 word list \<Rightarrow> 16 word list" where
  "linearize_loop W H min_val diff lepP buf =
    (let buf = buf[lepP := ucast (rad_scale min_val diff (buf ! lepP))];
         lepP = lepP + 1
     in if lepP < W * H then linearize_loop W H min_val diff lepP buf else buf)"
  by pat_completeness auto
termination
  by (relation "measure (\<lambda>(W, H, min_val, diff, lepP, buf). W * H - lepP)") auto

declare linearize_loop.simps [simp del]

definition render_interp_rad_data ::
  "nat \<Rightarrow> nat \<Rightarrow> 8 word \<Rightarrow> lep_buffer_t \<Rightarrow> 8 word list \<Rightarrow> lep_buffer_t \<times> 8 word list" where
  "render_interp_rad_data W H pm lep img =
    (let min_val = lep_min_val lep;
         max_val = lep_max_val lep;
         diff = rad_diff min_val max_val;
         lep = lep\<lparr>lep_bufferP := linearize_loop W H min_val diff 0 (lep_bufferP lep)\<rparr>
     in (lep, render_interp_agc_data W H pm (lep_bufferP lep) img))"

text \<open>
  \<^verbatim>\<open>render_lep_data\<close>; the result is the raw frame (rewritten by the radiometric
  interpolating path) and the image.
\<close>

definition render_lep_data ::
  "nat \<Rightarrow> nat \<Rightarrow> lep_buffer_t \<Rightarrow> 8 word list \<Rightarrow> gui_state_t \<Rightarrow> lep_buffer_t \<times> 8 word list"
  where
  "render_lep_data W H lep img g =
    (let render_palette_mod = (if black_hot_palette g then 0xFF else 0x00) in
     if display_interp_enable g then
       (if agc_enabled g
        then (lep, render_interp_agc_data W H render_palette_mod (lep_bufferP lep) img)
        else render_interp_rad_data W H render_palette_mod lep img)
     else
       (if agc_enabled g
        then (lep, render_double_agc_data W H render_palette_mod lep img)
        else (lep, render_double_rad_data W H render_palette_mod lep img)))"

text \<open>
  The doubler as the specification words it, on 8-bit source values: the source pixel that
  owns output pixel \<open>(X, Y)\<close> is \<open>(X div 2, Y div 2)\<close>; its neighbour across the nearer
  vertical boundary is in column \<open>nbr X\<close>, across the nearer horizontal boundary in row
  \<open>nbr Y\<close>.
\<close>

definition nbr :: "nat \<Rightarrow> nat" where
  "nbr X = (if even X then X div 2 - 1 else X div 2 + 1)"

definition interp_spec :: "nat \<Rightarrow> nat \<Rightarrow> (nat \<Rightarrow> nat \<Rightarrow> nat) \<Rightarrow> nat \<Rightarrow> nat \<Rightarrow> nat" where
  "interp_spec W H p X Y =
    (let x = X div 2; y = Y div 2;
         edge_x = (X = 0 \<or> X = 2 * W - 1);
         edge_y = (Y = 0 \<or> Y = 2 * H - 1)
     in if edge_x \<and> edge_y then p x y
        else if edge_y then (3 * p x y + p (nbr X) y) div 4
        else if edge_x then (3 * p x y + p x (nbr Y)) div 4
        else (5 * p x y + p (nbr X) y + p x (nbr Y) + p (nbr X) (nbr Y)) div 8)"

text \<open>
  The dynamic-range scaling as the specification words it, on numbers: 0 below the minimum,
  otherwise \<open>(v - min) * 255 div (max - min)\<close> with the divisor 1 when the two are equal,
  clipped to 255.
\<close>

definition scale_spec :: "nat \<Rightarrow> nat \<Rightarrow> nat \<Rightarrow> nat" where
  "scale_spec mn mx v =
    (if v < mn then 0
     else min 255 ((v - mn) * 255 div (if mx = mn then 1 else mx - mn)))"

text \<open>
  A 2 by 2 frame with the recorded range 100 to 250, holding a sample inside the range, one
  below it, one at its top and one above it; and a display configuration with the given
  interpolation and AGC flags, everything else off.
\<close>

definition example_frame :: lep_buffer_t where
  "example_frame =
    \<lparr>telem_valid = False, lep_min_val = 100, lep_min_x = 0, lep_min_y = 0,
     lep_max_val = 250, lep_max_x = 0, lep_max_y = 0,
     lep_bufferP = [175, 50, 250, 300], lep_telemP = []\<rparr>"

definition example_gui :: "bool \<Rightarrow> bool \<Rightarrow> gui_state_t" where
  "example_gui interp agc =
    \<lparr>agc_enabled = agc, black_hot_palette = False, display_interp_enable = interp,
     is_radiometric = False, min_max_enable = False, spotmeter_enable = False,
     temp_unit_C = False, rad_high_res = False\<rparr>"

text \<open>The two weighted blends, owner first, and the low byte of a raw sample.\<close>

definition ds_blend :: "8 word \<Rightarrow> 8 word \<Rightarrow> 8 word" where
  "ds_blend a b = word_of_nat ((SF_DS * unat a + unat b) div DIV_DS)"

definition qs_blend :: "8 word \<Rightarrow> 8 word \<Rightarrow> 8 word \<Rightarrow> 8 word \<Rightarrow> 8 word" where
  "qs_blend a b c d = word_of_nat ((SF_QS * unat a + unat b + unat c + unat d) div DIV_QS)"

definition lo8 :: "16 word \<Rightarrow> 8 word" where
  "lo8 v = ucast v"

text \<open>
  The index of output pixel \<open>(X, Y)\<close> in the image, and the low byte of source pixel
  \<open>(x, y)\<close> of a raw frame.
\<close>

definition px_index :: "nat \<Rightarrow> nat \<Rightarrow> nat \<Rightarrow> nat" where
  "px_index W X Y = Y * 2 * W + X"

definition src_px :: "nat \<Rightarrow> 16 word list \<Rightarrow> nat \<Rightarrow> nat \<Rightarrow> 8 word" where
  "src_px W buf x y = lo8 (buf ! (y * W + x))"

text \<open>
  The image indices written by \<open>m\<close> passes of the outer loop of \<^verbatim>\<open>interp_set_inner\<close>
  that start with the image pointer at \<open>ip\<close>: two runs of \<open>2 * (W - 1)\<close> pixels per pass,
  one image line apart, the passes two image lines apart.
\<close>

definition inner_rows :: "nat \<Rightarrow> nat \<Rightarrow> nat \<Rightarrow> nat \<Rightarrow> bool" where
  "inner_rows W ip m j = (\<exists>r < m.
      (ip + 4 * W * r \<le> j \<and> j < ip + 4 * W * r + 2 * (W - 1)) \<or>
      (ip + 4 * W * r + 2 * W \<le> j \<and> j < ip + 4 * W * r + 2 * W + 2 * (W - 1)))"

text \<open>
  The invariant of the parameter session and its history flag: the index is 0, 1 or 2, and
  the deadline is disarmed exactly in group 0 with no short-press processed since it was
  entered; otherwise it is armed with the fixed timeout.
\<close>

definition parm_inv :: "vid_t \<times> bool \<Rightarrow> bool" where
  "parm_inv sg = (case sg of (s, g) \<Rightarrow>
     (cur_parm_index s = 0 \<or> cur_parm_index s = 1 \<or> cur_parm_index s = 2) \<and>
     (if cur_parm_index s = 0 \<and> \<not> g then parm_entry_timeout s = 0
      else parm_entry_timeout s = PARM_ENTRY_TIMEOUT_MSEC))"

text \<open>
  Two session states that differ at most in \<^verbatim>\<open>prev_time\<close>, and not even there while
  the deadline is armed (the only time \<^verbatim>\<open>prev_time\<close> is read).
\<close>

definition sess_rel :: "vid_t \<Rightarrow> vid_t \<Rightarrow> bool" where
  "sess_rel a b = (same_but_prev_time a b \<and>
     (parm_entry_timeout b \<noteq> 0 \<longrightarrow> prev_time a = prev_time b))"

section \<open>Frame buffers of the video task (main/video_task.c, components/sys/sys_utilities.c)\<close>

definition IMG_BUF_MULT_FACTOR :: nat where "IMG_BUF_MULT_FACTOR = 2"
definition IMG_BUF_WIDTH :: "nat \<Rightarrow> nat" where "IMG_BUF_WIDTH W = IMG_BUF_MULT_FACTOR * W"
definition IMG_BUF_HEIGHT :: "nat \<Rightarrow> nat" where "IMG_BUF_HEIGHT H = IMG_BUF_MULT_FACTOR * H"

text \<open>
  What \<^verbatim>\<open>_vid_render_image\<close> uses from outside the sources at hand: the telemetry
  status word (\<^verbatim>\<open>lepton_get_tel_status\<close>) with the bit \<^verbatim>\<open>LEP_STATUS_AGC_STATE\<close>, the
  telemetry index \<^verbatim>\<open>LEP_TEL_TLIN_RES\<close> and \<^verbatim>\<open>lepton_is_radiometric()\<close>; and the three
  overlay routines of render.c, which draw on the image they are handed (markers, the spot
  temperature formatted in floating point, text in glyphs of font tables that are not part
  of the sources). The overlays are parameters: any functions from the frame, the image and
  the display configuration to an image; \<open>render_parm_string\<close> stands for
  \<^verbatim>\<open>render_parm_string(_vid_get_parm_string(), rendP)\<close>, the string being built from
  \<^verbatim>\<open>cur_parm_index\<close> and \<^verbatim>\<open>cur_parm_value\<close>.
\<close>

record vid_ext =
  lepton_get_tel_status :: "16 word list \<Rightarrow> 32 word"
  LEP_STATUS_AGC_STATE :: "32 word"
  LEP_TEL_TLIN_RES :: nat
  lepton_is_radiometric :: bool
  render_min_max_markers :: "lep_buffer_t \<Rightarrow> 8 word list \<Rightarrow> 8 word list"
  render_spotmeter :: "lep_buffer_t \<Rightarrow> 8 word list \<Rightarrow> gui_state_t \<Rightarrow> 8 word list"
  render_parm_string :: "int \<Rightarrow> int \<Rightarrow> 8 word list \<Rightarrow> 8 word list"

text \<open>
  The variables of the video task together with the buffers it works on: the video
  driver's frame buffer (\<^verbatim>\<open>drv_fbP\<close>), the two render buffers \<^verbatim>\<open>rend_fbP[2]\<close> and the
  two raw frame slots \<^verbatim>\<open>vid_lep_buffer[2]\<close> of sys_utilities.c.
\<close>

record vid_sys =
  vid :: vid_t
  drv_fb :: "8 word list"
  rend_fbP :: "8 word list list"
  vid_lep_buffer :: "lep_buffer_t list"

text \<open>
  \<^verbatim>\<open>while (rendP < rendEndP) *drvP++ = *rendP++;\<close> of \<^verbatim>\<open>_vid_display_image\<close>; \<open>p\<close> is
  the offset both pointers have advanced by.
\<close>

function vid_display_loop :: "nat \<Rightarrow> 8 word list \<Rightarrow> nat \<Rightarrow> 8 word list \<Rightarrow> 8 word list" where
  "vid_display_loop rendEnd rend p drv =
    (if p < rendEnd then vid_display_loop rendEnd rend (p + 1) (drv[p := rend ! p]) else drv)"
  by pat_completeness auto
termination
  by (relation "measure (\<lambda>(rendEnd, rend, p, drv). rendEnd - p)") auto

declare vid_display_loop.simps [simp del]

definition vid_display_image :: "nat \<Rightarrow> nat \<Rightarrow> nat \<Rightarrow> vid_sys \<Rightarrow> vid_sys" where
  "vid_display_image W H render_buf_index sys =
    sys\<lparr>drv_fb := vid_display_loop (IMG_BUF_WIDTH W * IMG_BUF_HEIGHT H)
                     (rend_fbP sys ! render_buf_index) 0 (drv_fb sys)\<rparr>"

text \<open>
  \<^verbatim>\<open>_vid_render_image\<close> in three parts: the telemetry flags it copies into the GUI state,
  the overlays it draws after \<^verbatim>\<open>render_lep_data\<close>, and the function itself, which reads
  raw slot \<open>render_buf_index\<close>, and writes render buffer \<open>render_buf_index\<close>, the GUI state
  and (through the radiometric interpolating renderer) the raw slot.
\<close>

definition vid_render_gui :: "vid_ext \<Rightarrow> lep_buffer_t \<Rightarrow> gui_state_t \<Rightarrow> gui_state_t" where
  "vid_render_gui ext lepP g =
    g\<lparr>agc_enabled := (lepton_get_tel_status ext (lep_telemP lepP) AND LEP_STATUS_AGC_STATE ext
                        = LEP_STATUS_AGC_STATE ext),
      is_radiometric := lepton_is_radiometric ext,
      rad_high_res := (lep_telemP lepP ! LEP_TEL_TLIN_RES ext \<noteq> 0)\<rparr>"

definition vid_render_overlays ::
  "vid_ext \<Rightarrow> int \<Rightarrow> int \<Rightarrow> lep_buffer_t \<Rightarrow> 8 word list \<Rightarrow> gui_state_t \<Rightarrow> 8 word list" where
  "vid_render_overlays ext parm_index parm_value lepP rendP g =
    (let rendP = (if min_max_enable g then render_min_max_markers ext lepP rendP else rendP);
         rendP = (if spotmeter_enable g \<and> is_radiometric g
                  then render_spotmeter ext lepP rendP g else rendP)
     in if parm_index \<noteq> PARM_INDEX_MARKER
        then render_parm_string ext parm_index parm_value rendP else rendP)"

definition vid_render_image :: "vid_ext \<Rightarrow> nat \<Rightarrow> nat \<Rightarrow> nat \<Rightarrow> vid_sys \<Rightarrow> vid_sys" where
  "vid_render_image ext W H render_buf_index sys =
    (let slot = (if render_buf_index = 0 then 0 else 1);
         g = vid_render_gui ext (vid_lep_buffer sys ! slot) (gui_state (vid sys));
         r = render_lep_data W H (vid_lep_buffer sys ! slot) (rend_fbP sys ! render_buf_index) g;
         rendP = vid_render_overlays ext (cur_parm_index (vid sys)) (cur_parm_value (vid sys))
                   (fst r) (snd r) g
     in sys\<lparr>vid := (vid sys)\<lparr>gui_state := g\<rparr>,
            rend_fbP := (rend_fbP sys)[render_buf_index := rendP],
            vid_lep_buffer := (vid_lep_buffer sys)[slot := fst r]\<rparr>)"

text \<open>
  One pass of \<^verbatim>\<open>while (1)\<close> in \<^verbatim>\<open>vid_task\<close> on the variables and the buffers.
  \<^verbatim>\<open>video_wait_frame()\<close> blocks until the driver has finished a frame and changes none of
  them.
\<close>

definition vid_task_loop_body ::
  "vid_ext \<Rightarrow> nat \<Rightarrow> nat \<Rightarrow> 32 word \<Rightarrow> int \<Rightarrow> vid_sys \<Rightarrow> vid_sys" where
  "vid_task_loop_body ext W H notification_value now sys =
    (let sys = sys\<lparr>vid := vid_handle_notifications notification_value (vid sys)\<rparr>;
         sys = sys\<lparr>vid := vid_eval_parm_update now (vid sys)\<rparr>;
         sys = (if notify_image_1 (vid sys)
                then vid_render_image ext W H 0
                       (vid_display_image W H 1 (sys\<lparr>vid := (vid sys)\<lparr>notify_image_1 := False\<rparr>\<rparr>))
                else sys)
     in if notify_image_2 (vid sys)
        then vid_render_image ext W H 1
               (vid_display_image W H 0 (sys\<lparr>vid := (vid sys)\<lparr>notify_image_2 := False\<rparr>\<rparr>))
        else sys)"

text \<open>
  The buffer operations of \<open>vid_action\<close> carried out, together with a record of history
  that the code does not keep: for each render buffer, the image that the most recent
  \<^verbatim>\<open>_vid_render_image\<close> left in it, if there has been one.
\<close>

fun vid_exec ::
  "vid_ext \<Rightarrow> nat \<Rightarrow> nat \<Rightarrow> vid_action \<Rightarrow> vid_sys \<times> 8 word list option list
   \<Rightarrow> vid_sys \<times> 8 word list option list" where
  "vid_exec ext W H Wait_frame (sys, hist) = (sys, hist)"
| "vid_exec ext W H (Display_image i) (sys, hist) = (vid_display_image W H (nat i) sys, hist)"
| "vid_exec ext W H (Render_image i) (sys, hist) =
     (vid_render_image ext W H (nat i) sys,
      hist[nat i := Some (rend_fbP (vid_render_image ext W H (nat i) sys) ! nat i)])"

text \<open>
  What happens to the buffers over time: the acquisition task stores a frame in a raw slot
  (\<^verbatim>\<open>vospi_get_frame(&vid_lep_buffer[i])\<close>), or the video task makes one pass of its loop
  with the notification value and the time it reads.
\<close>

datatype vid_event = Frame_written nat lep_buffer_t | Loop_pass "32 word" int

fun vid_sys_step ::
  "vid_ext \<Rightarrow> nat \<Rightarrow> nat \<Rightarrow> vid_event \<Rightarrow> vid_sys \<times> 8 word list option list
   \<Rightarrow> vid_sys \<times> 8 word list option list" where
  "vid_sys_step ext W H (Frame_written i lep) (sys, hist) =
     (sys\<lparr>vid_lep_buffer := (vid_lep_buffer sys)[i := lep]\<rparr>, hist)"
| "vid_sys_step ext W H (Loop_pass v now) (sys, hist) =
     foldl (\<lambda>st a. vid_exec ext W H a st)
       (sys\<lparr>vid := fst (vid_task_pass v now (vid sys))\<rparr>, hist)
       (snd (vid_task_pass v now (vid sys)))"

fun vid_sys_run ::
  "vid_ext \<Rightarrow> nat \<Rightarrow> nat \<Rightarrow> vid_event list \<Rightarrow> vid_sys \<times> 8 word list option list
   \<Rightarrow> vid_sys \<times> 8 word list option list" where
  "vid_sys_run ext W H [] st = st"
| "vid_sys_run ext W H (e # es) st = vid_sys_run ext W H es (vid_sys_step ext W H e st)"

text \<open>
  The buffers as \<^verbatim>\<open>system_buffer_init\<close> allocates them for frames of \<open>W\<close> by \<open>H\<close>
  samples, and the assumption made of the overlay routines: they return an image of the
  size they were given.
\<close>

definition bufs_ok :: "nat \<Rightarrow> nat \<Rightarrow> vid_sys \<Rightarrow> bool" where
  "bufs_ok W H sys =
    (length (drv_fb sys) = 4 * W * H \<and> length (rend_fbP sys) = 2 \<and>
     length (rend_fbP sys ! 0) = 4 * W * H \<and> length (rend_fbP sys ! 1) = 4 * W * H \<and>
     length (vid_lep_buffer sys) = 2)"

definition ext_ok :: "vid_ext \<Rightarrow> bool" where
  "ext_ok ext =
    ((\<forall>lep img. length (render_min_max_markers ext lep img) = length img) \<and>
     (\<forall>lep img g. length (render_spotmeter ext lep img g) = length img) \<and>
     (\<forall>i v img. length (render_parm_string ext i v img) = length img))"

text \<open>
  What holds of the buffers and the history record at every moment, for a start state
  \<open>sys0\<close>: the buffers keep their sizes, no frame notification is left pending between
  two operations, and each render buffer holds the image of the most recent render into
  it, or what it held at the start if there has been none.
\<close>

definition handoff_inv ::
  "nat \<Rightarrow> nat \<Rightarrow> vid_sys \<Rightarrow> vid_sys \<times> 8 word list option list \<Rightarrow> bool" where
  "handoff_inv W H sys0 st = (case st of (sys, hist) \<Rightarrow>
     bufs_ok W H sys \<and> length hist = 2 \<and>
     \<not> notify_image_1 (vid sys) \<and> \<not> notify_image_2 (vid sys) \<and>
     (\<forall>j < 2. rend_fbP sys ! j =
        (case hist ! j of Some img \<Rightarrow> img | None \<Rightarrow> rend_fbP sys0 ! j)))"

text \<open>
  An example: no overlays drawn, AGC off; the buffers for 2 by 2 frames at the start of the
  video task, the driver's buffer holding the test pattern and the two render buffers
  whatever the allocator left there.
\<close>

definition example_ext :: vid_ext where
  "example_ext =
    \<lparr>lepton_get_tel_status = (\<lambda>t. 0), LEP_STATUS_AGC_STATE = 0x1000, LEP_TEL_TLIN_RES = 0,
     lepton_is_radiometric = True,
     render_min_max_markers = (\<lambda>lep img. img),
     render_spotmeter = (\<lambda>lep img g. img),
     render_parm_string = (\<lambda>i v img. img)\<rparr>"

definition example_sys :: vid_sys where
  "example_sys =
    \<lparr>vid = vid_task_init ps_defaults, drv_fb = replicate 16 0x10,
     rend_fbP = [replicate 16 0x55, replicate 16 0xAA],
     vid_lep_buffer = [example_frame\<lparr>lep_telemP := [0]\<rparr>, example_frame\<lparr>lep_telemP := [0]\<rparr>]\<rparr>"

section \<open>Verification\<close>

lemmas ctrl_consts =
  CTRL_EVAL_MSEC_def CTRL_BTN_LONG_PRESS_MSEC_def CTRL_FAULT_BLINK_ON_MSEC_def
  CTRL_FAULT_BLINK_OFF_MSEC_def CTRL_FAULT_IDLE_MSEC_def CTRL_FAULT_NONE_def
  CTRL_NOTIFY_STARTUP_DONE_def CTRL_NOTIFY_FAULT_def CTRL_NOTIFY_FAULT_CLEAR_def
  CTRL_LED_OFF_def CTRL_LED_RED_def CTRL_LED_YEL_def CTRL_LED_GRN_def
  CTRL_LED_ST_SOLID_def CTRL_LED_ST_FLT_ON_def CTRL_LED_ST_FLT_OFF_def
  CTRL_LED_ST_FLT_IDLE_def CTRL_ST_STARTUP_def CTRL_ST_RUN_def CTRL_ST_FAULT_def

subsection \<open>Button debouncer\<close>

lemma debounce_step_exclusive:
  "ctrl_debounce_button l b = (b', short_p, long_p) \<Longrightarrow> \<not> (short_p \<and> long_p)"
  by (auto simp: ctrl_debounce_button_def Let_def split: if_splits)

lemma debounce_run_exclusive:
  "(short_p, long_p) \<in> set (fst (debounce_run ls b)) \<Longrightarrow> \<not> (short_p \<and> long_p)"
proof (induction ls arbitrary: b)
  case Nil
  then show ?case by simp
next
  case (Cons l ls)
  obtain b' s lg where st: "ctrl_debounce_button l b = (b', s, lg)"
    by (cases "ctrl_debounce_button l b") auto
  obtain outs b'' where rn: "debounce_run ls b' = (outs, b'')"
    by (cases "debounce_run ls b'") auto
  from Cons.prems st rn
  have "(short_p, long_p) = (s, lg) \<or> (short_p, long_p) \<in> set (fst (debounce_run ls b'))"
    by auto
  then show ?case
    using debounce_step_exclusive[OF st] Cons.IH[of b'] by auto
qed

lemma debounce_long_fired_state:
  "ctrl_debounce_button l b = (b', short_p, True) \<Longrightarrow> btn_down b' \<and> btn_timer b' = 0"
  by (auto simp: ctrl_debounce_button_def Let_def split: if_splits)

lemma debounce_expired_no_short:
  "btn_down b \<Longrightarrow> btn_timer b = 0 \<Longrightarrow> \<not> short_until_release ls b"
proof (induction ls arbitrary: b)
  case Nil
  then show ?case by simp
next
  case (Cons l ls)
  obtain b' s lg where st: "ctrl_debounce_button l b = (b', s, lg)"
    by (cases "ctrl_debounce_button l b") auto
  from st Cons.prems have ns: "\<not> s" and keep: "btn_down b' \<longrightarrow> btn_timer b' = 0"
    by (auto simp: ctrl_debounce_button_def Let_def split: if_splits)
  show ?case using st ns keep Cons.IH[of b'] by auto
qed

lemma debounce_release_on_expiry:
  "btn_down b \<Longrightarrow> \<not> prev_btn b \<Longrightarrow> btn_timer b = 1 \<Longrightarrow>
   snd (ctrl_debounce_button False b) = (True, False)"
  by (auto simp: ctrl_debounce_button_def Let_def)

lemma debounce_reach_last_count:
  "snd (debounce_run (replicate 59 True @ [False]) btn_init) =
     \<lparr>prev_btn = False, btn_down = True, btn_timer = 1\<rparr>"
  by code_simp

text \<open>
  C10. On every tick of every sequence of sampled levels, from any debouncer state, the
  debouncer does not report a short-press and a long-press together. Once the long-press
  countdown has reached zero while the button is held (a tick that reports long-press), no
  tick up to and including the release that follows reports a short-press. A release
  detected on the tick on which the countdown (value 1) would otherwise expire reports a
  short-press and no long-press.
\<close>

theorem debounce_never_short_and_long:
  "(\<forall>(short_p, long_p) \<in> set (fst (debounce_run ls b)). \<not> (short_p \<and> long_p))
   \<and> (snd (snd (ctrl_debounce_button l b)) \<longrightarrow>
        \<not> short_until_release ls' (fst (ctrl_debounce_button l b)))
   \<and> (btn_down b \<and> \<not> prev_btn b \<and> btn_timer b = 1 \<longrightarrow>
        snd (ctrl_debounce_button False b) = (True, False))"
proof (intro conjI impI)
  show "\<forall>(short_p, long_p) \<in> set (fst (debounce_run ls b)). \<not> (short_p \<and> long_p)"
    using debounce_run_exclusive by blast
next
  assume "snd (snd (ctrl_debounce_button l b))"
  then obtain b' s where "ctrl_debounce_button l b = (b', s, True)"
    by (cases "ctrl_debounce_button l b") auto
  then show "\<not> short_until_release ls' (fst (ctrl_debounce_button l b))"
    using debounce_long_fired_state debounce_expired_no_short by fastforce
next
  assume "btn_down b \<and> \<not> prev_btn b \<and> btn_timer b = 1"
  then show "snd (ctrl_debounce_button False b) = (True, False)"
    using debounce_release_on_expiry by blast
qed

theorem debounce_never_short_and_long_witness:
  "(False, True) \<in> set (fst (debounce_run [True]
       (snd (debounce_run (replicate 59 True @ [False]) btn_init))))
   \<and> snd (snd (ctrl_debounce_button True
       (snd (debounce_run (replicate 59 True @ [False]) btn_init))))
   \<and> \<not> short_until_release [False, False] (fst (ctrl_debounce_button True
       (snd (debounce_run (replicate 59 True @ [False]) btn_init))))
   \<and> btn_down (snd (debounce_run (replicate 59 True @ [False]) btn_init))
   \<and> \<not> prev_btn (snd (debounce_run (replicate 59 True @ [False]) btn_init))
   \<and> btn_timer (snd (debounce_run (replicate 59 True @ [False]) btn_init)) = 1
   \<and> snd (ctrl_debounce_button False
       (snd (debounce_run (replicate 59 True @ [False]) btn_init))) = (True, False)"
  using debounce_never_short_and_long
    [of "[True]" "snd (debounce_run (replicate 59 True @ [False]) btn_init)" True
        "[False, False]"]
  unfolding debounce_reach_last_count
  by (simp add: ctrl_debounce_button_def Let_def CTRL_BTN_LONG_PRESS_MSEC_def CTRL_EVAL_MSEC_def)

subsection \<open>Fault entry and fault clear\<close>

lemma set_led_fields [simp]:
  "ctrl_state (ctrl_set_led col c) = ctrl_state c"
  "ctrl_pre_activity_state (ctrl_set_led col c) = ctrl_pre_activity_state c"
  "ctrl_led_state (ctrl_set_led col c) = ctrl_led_state c"
  "ctrl_led_timer (ctrl_set_led col c) = ctrl_led_timer c"
  "ctrl_fault_led_count (ctrl_set_led col c) = ctrl_fault_led_count c"
  "ctrl_fault_type (ctrl_set_led col c) = ctrl_fault_type c"
  "ctrl_notify (ctrl_set_led col c) = ctrl_notify c"
  by (simp_all add: ctrl_set_led_def)

lemma set_led_state_fields [simp]:
  "ctrl_state (ctrl_set_led_state st c) = ctrl_state c"
  "ctrl_pre_activity_state (ctrl_set_led_state st c) = ctrl_pre_activity_state c"
  "ctrl_fault_led_count (ctrl_set_led_state st c) = ctrl_fault_led_count c"
  "ctrl_fault_type (ctrl_set_led_state st c) = ctrl_fault_type c"
  "ctrl_notify (ctrl_set_led_state st c) = ctrl_notify c"
  by (simp_all add: ctrl_set_led_state_def Let_def)

lemma set_state_fields [simp]:
  "ctrl_state (ctrl_set_state st c) = st"
  "ctrl_pre_activity_state (ctrl_set_state st c) = ctrl_pre_activity_state c"
  "ctrl_fault_type (ctrl_set_state st c) = ctrl_fault_type c"
  "ctrl_notify (ctrl_set_state st c) = ctrl_notify c"
  by (simp_all add: ctrl_set_state_def Let_def)

lemma eval_led_sm_fields [simp]:
  "ctrl_state (ctrl_eval_led_sm c) = ctrl_state c"
  "ctrl_pre_activity_state (ctrl_eval_led_sm c) = ctrl_pre_activity_state c"
  "ctrl_fault_type (ctrl_eval_led_sm c) = ctrl_fault_type c"
  "ctrl_notify (ctrl_eval_led_sm c) = ctrl_notify c"
  by (simp_all add: ctrl_eval_led_sm_def Let_def)

lemma handle_notifications_fields [simp]:
  "ctrl_pre_activity_state (ctrl_handle_notifications c) = ctrl_pre_activity_state c"
  "ctrl_fault_type (ctrl_handle_notifications c) = ctrl_fault_type c"
  "ctrl_notify (ctrl_handle_notifications c) = 0"
  by (simp_all add: ctrl_handle_notifications_def Let_def)

lemma handle_notifications_clear:
  "Notification (ctrl_notify c) CTRL_NOTIFY_FAULT_CLEAR \<Longrightarrow>
   ctrl_state (ctrl_handle_notifications c) = ctrl_pre_activity_state c"
  by (simp add: ctrl_handle_notifications_def Let_def)

lemma eval_sm_fields:
  "ctrl_pre_activity_state (fst (ctrl_eval_sm l (c, b))) = ctrl_pre_activity_state c"
  "ctrl_fault_type (fst (ctrl_eval_sm l (c, b))) = ctrl_fault_type c"
  "ctrl_notify (fst (ctrl_eval_sm l (c, b))) = ctrl_notify c"
  "ctrl_state c \<in> {CTRL_ST_STARTUP, CTRL_ST_RUN, CTRL_ST_FAULT} \<Longrightarrow>
     ctrl_state (fst (ctrl_eval_sm l (c, b))) = ctrl_state c"
  by (auto simp: ctrl_eval_sm_def split: prod.splits)

lemma ctrl_step_eval_fst:
  "fst (ctrl_step (Eval_pass l) (c, b)) = fst (ctrl_task_iter l (c, b))"
  by (simp split: prod.splits)

lemma ctrl_step_pre_activity:
  "\<not> is_fault_report e \<Longrightarrow>
   ctrl_pre_activity_state (fst (ctrl_step e cb)) = ctrl_pre_activity_state (fst cb)"
proof (cases cb)
  case (Pair c b)
  assume nf: "\<not> is_fault_report e"
  show ?thesis
  proof (cases e)
    case (Set_fault f)
    with nf Pair show ?thesis by (simp add: ctrl_set_fault_type_def Let_def)
  next
    case Startup_done
    with Pair show ?thesis by simp
  next
    case (Eval_pass l)
    have "ctrl_pre_activity_state (fst (ctrl_task_iter l (c, b))) = ctrl_pre_activity_state c"
      by (simp add: ctrl_task_iter_def eval_sm_fields)
    with Eval_pass Pair show ?thesis by (simp only: ctrl_step_eval_fst fst_conv)
  qed
qed

lemma ctrl_run_pre_activity:
  "\<forall>e \<in> set es. \<not> is_fault_report e \<Longrightarrow>
   ctrl_pre_activity_state (fst (ctrl_run es cb)) = ctrl_pre_activity_state (fst cb)"
  by (induction es arbitrary: cb) (simp_all add: ctrl_step_pre_activity)

lemma Notification_or_keep:
  "Notification v m \<Longrightarrow> Notification (v OR m') m"
  unfolding Notification_def
  by (metis (no_types, lifting) and.assoc word_ao_absorbs(7))

lemma ctrl_step_keeps_clear:
  "\<not> is_eval_pass e \<Longrightarrow> Notification (ctrl_notify (fst cb)) CTRL_NOTIFY_FAULT_CLEAR \<Longrightarrow>
   Notification (ctrl_notify (fst (ctrl_step e cb))) CTRL_NOTIFY_FAULT_CLEAR"
  by (cases cb; cases e) (auto simp: ctrl_set_fault_type_def Let_def Notification_or_keep)

lemma ctrl_run_keeps_clear:
  "\<forall>e \<in> set es. \<not> is_eval_pass e \<Longrightarrow> Notification (ctrl_notify (fst cb)) CTRL_NOTIFY_FAULT_CLEAR \<Longrightarrow>
   Notification (ctrl_notify (fst (ctrl_run es cb))) CTRL_NOTIFY_FAULT_CLEAR"
  by (induction es arbitrary: cb) (simp_all add: ctrl_step_keeps_clear)

lemma Notification_or_self: "Notification (v OR m) m"
  by (simp add: Notification_def)

lemma eval_pass_clear:
  "Notification (ctrl_notify c) CTRL_NOTIFY_FAULT_CLEAR \<Longrightarrow>
   ctrl_pre_activity_state c \<in> {CTRL_ST_STARTUP, CTRL_ST_RUN} \<Longrightarrow>
   ctrl_state (fst (ctrl_step (Eval_pass l) (c, b))) = ctrl_pre_activity_state c"
  by (simp only: ctrl_step_eval_fst) (auto simp: ctrl_task_iter_def eval_sm_fields handle_notifications_clear)

lemma ctrl_run_append: "ctrl_run (xs @ ys) cb = ctrl_run ys (ctrl_run xs cb)"
  by (induction xs arbitrary: cb) simp_all

lemma Notification_startup_clear:
  "Notification (v OR CTRL_NOTIFY_STARTUP_DONE) CTRL_NOTIFY_FAULT_CLEAR =
   Notification v CTRL_NOTIFY_FAULT_CLEAR"
  by (simp add: Notification_def CTRL_NOTIFY_STARTUP_DONE_def CTRL_NOTIFY_FAULT_CLEAR_def
        bit.conj_disj_distrib2)

lemma startup_done_in_fault:
  "ctrl_state c = CTRL_ST_FAULT \<Longrightarrow> \<not> Notification (ctrl_notify c) CTRL_NOTIFY_FAULT_CLEAR \<Longrightarrow>
   ctrl_state (fst (ctrl_run [Startup_done, Eval_pass l] (c, b))) = CTRL_ST_FAULT"
proof -
  assume a: "ctrl_state c = CTRL_ST_FAULT"
    "\<not> Notification (ctrl_notify c) CTRL_NOTIFY_FAULT_CLEAR"
  let ?c1 = "c\<lparr>ctrl_notify := ctrl_notify c OR CTRL_NOTIFY_STARTUP_DONE\<rparr>"
  have "ctrl_state (ctrl_handle_notifications ?c1) = CTRL_ST_FAULT"
    using a by (simp add: ctrl_handle_notifications_def Let_def Notification_startup_clear)
  then have "ctrl_state (fst (ctrl_task_iter l (?c1, b))) = CTRL_ST_FAULT"
    by (simp add: ctrl_task_iter_def eval_sm_fields)
  then have "ctrl_state (fst (ctrl_step (Eval_pass l) (?c1, b))) = CTRL_ST_FAULT"
    by (simp only: ctrl_step_eval_fst)
  then show ?thesis by simp
qed

text \<open>
  C8. Let the control state be \<open>s\<close>, Startup or Run, when a fault \<open>f\<close> is reported.
  After any further events that contain no fault report, a fault-clear signal, and then any
  notifications that arrive before the next pass of the loop, the pass that processes the
  clear leaves the control state equal to \<open>s\<close>. In the Fault state, with no fault-clear
  pending, a startup-complete notification and the pass that processes it leave the state
  in Fault.
\<close>

theorem fault_clear_returns:
  assumes "ctrl_state c = s" and "s = CTRL_ST_STARTUP \<or> s = CTRL_ST_RUN"
    and "f \<noteq> CTRL_FAULT_NONE"
    and "\<forall>e \<in> set es1. \<not> is_fault_report e"
    and "\<forall>e \<in> set es2. \<not> is_fault_report e \<and> \<not> is_eval_pass e"
  shows "ctrl_state (fst (ctrl_run
           (Set_fault f # es1 @ Set_fault CTRL_FAULT_NONE # es2 @ [Eval_pass l]) (c, b))) = s
       \<and> (\<forall>(c'::ctrl) b' l'. ctrl_state c' = CTRL_ST_FAULT \<and>
              \<not> Notification (ctrl_notify c') CTRL_NOTIFY_FAULT_CLEAR \<longrightarrow>
              ctrl_state (fst (ctrl_run [Startup_done, Eval_pass l'] (c', b'))) = CTRL_ST_FAULT)"
proof (intro conjI allI impI)
  let ?cb1 = "ctrl_step (Set_fault f) (c, b)"
  let ?cb2 = "ctrl_run es1 ?cb1"
  let ?cb3 = "ctrl_step (Set_fault CTRL_FAULT_NONE) ?cb2"
  let ?cb4 = "ctrl_run es2 ?cb3"
  have p1: "ctrl_pre_activity_state (fst ?cb1) = s"
    using assms(1,3) by (simp add: ctrl_set_fault_type_def Let_def)
  have p2: "ctrl_pre_activity_state (fst ?cb2) = s"
    using p1 assms(4) by (simp add: ctrl_run_pre_activity)
  have p3: "ctrl_pre_activity_state (fst ?cb3) = s"
    using p2 by (simp add: ctrl_step_pre_activity CTRL_FAULT_NONE_def)
  have n3: "Notification (ctrl_notify (fst ?cb3)) CTRL_NOTIFY_FAULT_CLEAR"
    by (cases ?cb2) (simp add: ctrl_set_fault_type_def Let_def Notification_or_self)
  have p4: "ctrl_pre_activity_state (fst ?cb4) = s"
    using p3 assms(5) by (simp add: ctrl_run_pre_activity)
  have n4: "Notification (ctrl_notify (fst ?cb4)) CTRL_NOTIFY_FAULT_CLEAR"
    using n3 assms(5) by (simp add: ctrl_run_keeps_clear)
  have "ctrl_state (fst (ctrl_step (Eval_pass l) ?cb4)) = s"
    using eval_pass_clear[of "fst ?cb4" l "snd ?cb4"] p4 n4 assms(2) by auto
  then show "ctrl_state (fst (ctrl_run
           (Set_fault f # es1 @ Set_fault CTRL_FAULT_NONE # es2 @ [Eval_pass l]) (c, b))) = s"
    by (simp add: ctrl_run_append)
next
  fix c' :: ctrl and b' l'
  assume "ctrl_state c' = CTRL_ST_FAULT \<and>
              \<not> Notification (ctrl_notify c') CTRL_NOTIFY_FAULT_CLEAR"
  then show "ctrl_state (fst (ctrl_run [Startup_done, Eval_pass l'] (c', b'))) = CTRL_ST_FAULT"
    using startup_done_in_fault by blast
qed

theorem fault_clear_returns_witness:
  "ctrl_state ctrl_task_init = CTRL_ST_STARTUP
   \<and> ctrl_state (fst (ctrl_run
         (Set_fault CTRL_FAULT_LEP_CCI # [Eval_pass False, Startup_done, Eval_pass True] @
          Set_fault CTRL_FAULT_NONE # [Startup_done] @ [Eval_pass False])
         (ctrl_task_init, btn_init))) = CTRL_ST_STARTUP
   \<and> ctrl_state (fst (ctrl_run [Set_fault CTRL_FAULT_LEP_CCI, Eval_pass False]
         (ctrl_task_init, btn_init))) = CTRL_ST_FAULT
   \<and> \<not> Notification (ctrl_notify (fst (ctrl_run [Set_fault CTRL_FAULT_LEP_CCI, Eval_pass False]
         (ctrl_task_init, btn_init)))) CTRL_NOTIFY_FAULT_CLEAR
   \<and> ctrl_state (fst (ctrl_run [Startup_done, Eval_pass False]
         (fst (ctrl_run [Set_fault CTRL_FAULT_LEP_CCI, Eval_pass False]
            (ctrl_task_init, btn_init)), btn_init))) = CTRL_ST_FAULT"
proof -
  have h1: "ctrl_state ctrl_task_init = CTRL_ST_STARTUP"
    by (simp add: ctrl_task_init_def)
  have h2: "CTRL_ST_STARTUP = CTRL_ST_STARTUP \<or> CTRL_ST_STARTUP = CTRL_ST_RUN"
    by simp
  have h3: "CTRL_FAULT_LEP_CCI \<noteq> CTRL_FAULT_NONE"
    by (simp add: CTRL_FAULT_LEP_CCI_def CTRL_FAULT_NONE_def)
  have h4: "\<forall>e \<in> set [Eval_pass False, Startup_done, Eval_pass True]. \<not> is_fault_report e"
    by simp
  have h5: "\<forall>e \<in> set [Startup_done]. \<not> is_fault_report e \<and> \<not> is_eval_pass e"
    by simp
  note r = fault_clear_returns [OF h1 h2 h3 h4 h5, of False btn_init]
  have h6: "ctrl_state (fst (ctrl_run [Set_fault CTRL_FAULT_LEP_CCI, Eval_pass False]
         (ctrl_task_init, btn_init))) = CTRL_ST_FAULT
     \<and> \<not> Notification (ctrl_notify (fst (ctrl_run [Set_fault CTRL_FAULT_LEP_CCI, Eval_pass False]
         (ctrl_task_init, btn_init)))) CTRL_NOTIFY_FAULT_CLEAR"
    by code_simp
  from r h6 have "ctrl_state (fst (ctrl_run [Startup_done, Eval_pass False]
         (fst (ctrl_run [Set_fault CTRL_FAULT_LEP_CCI, Eval_pass False]
            (ctrl_task_init, btn_init)), btn_init))) = CTRL_ST_FAULT"
    by blast
  with r h1 h6 show ?thesis by blast
qed

subsection \<open>Fault blink bursts\<close>

lemma led_cfg_fields [simp]:
  "ctrl_state (led_cfg c st t k r) = ctrl_state c"
  "ctrl_pre_activity_state (led_cfg c st t k r) = ctrl_pre_activity_state c"
  "ctrl_led_state (led_cfg c st t k r) = st"
  "ctrl_led_timer (led_cfg c st t k r) = t"
  "ctrl_fault_led_count (led_cfg c st t k r) = k"
  "ctrl_fault_type (led_cfg c st t k r) = ctrl_fault_type c"
  "pin_r_led (led_cfg c st t k r) = r"
  "pin_g_led (led_cfg c st t k r) = False"
  "ctrl_notify (led_cfg c st t k r) = ctrl_notify c"
  "led_cfg (led_cfg c st t k r) st' t' k' r' = led_cfg c st' t' k' r'"
  by (simp_all add: led_cfg_def)

lemma eval_led_sm_on:
  "ctrl_eval_led_sm (led_cfg c CTRL_LED_ST_FLT_ON t k True) =
     (if t - 1 = 0 then led_cfg c CTRL_LED_ST_FLT_OFF 6 k False
      else led_cfg c CTRL_LED_ST_FLT_ON (t - 1) k True)"
  by (simp add: ctrl_eval_led_sm_def ctrl_set_led_state_def ctrl_set_led_def led_cfg_def
        Let_def ctrl_consts)

lemma eval_led_sm_off:
  "ctrl_eval_led_sm (led_cfg c CTRL_LED_ST_FLT_OFF t k False) =
     (if t - 1 = 0 then
        (if k - 1 = 0 then led_cfg c CTRL_LED_ST_FLT_IDLE 40 (k - 1) False
         else led_cfg c CTRL_LED_ST_FLT_ON 4 (k - 1) True)
      else led_cfg c CTRL_LED_ST_FLT_OFF (t - 1) k False)"
  by (simp add: ctrl_eval_led_sm_def ctrl_set_led_state_def ctrl_set_led_def led_cfg_def
        Let_def ctrl_consts)

lemma eval_led_sm_idle:
  "ctrl_eval_led_sm (led_cfg c CTRL_LED_ST_FLT_IDLE t k False) =
     (if t - 1 = 0 then led_cfg c CTRL_LED_ST_FLT_ON 4 (ctrl_fault_type c) True
      else led_cfg c CTRL_LED_ST_FLT_IDLE (t - 1) k False)"
  by (simp add: ctrl_eval_led_sm_def ctrl_set_led_state_def ctrl_set_led_def led_cfg_def
        Let_def ctrl_consts)

lemma set_state_fault_cfg:
  "ctrl_fault_type c \<noteq> CTRL_FAULT_NONE \<Longrightarrow>
   ctrl_set_state CTRL_ST_FAULT c =
     led_cfg (c\<lparr>ctrl_state := CTRL_ST_FAULT\<rparr>) CTRL_LED_ST_FLT_ON 4 (ctrl_fault_type c) True"
  by (simp add: ctrl_set_state_def ctrl_set_led_state_def ctrl_set_led_def led_cfg_def
        Let_def ctrl_consts)

lemma handle_notifications_none:
  "ctrl_notify c = 0 \<Longrightarrow> ctrl_handle_notifications c = c"
  by (simp add: ctrl_handle_notifications_def Let_def Notification_def ctrl_consts)

lemma eval_pass_in_fault:
  "ctrl_state c = CTRL_ST_FAULT \<Longrightarrow> ctrl_notify c = 0 \<Longrightarrow>
   fst (ctrl_step (Eval_pass l) (c, b)) = ctrl_eval_led_sm c"
  by (simp add: ctrl_task_iter_def handle_notifications_none ctrl_eval_sm_def ctrl_consts
        ctrl_eval_led_sm_def Let_def ctrl_set_led_state_def ctrl_set_led_def
        split: prod.splits)

lemma eval_pass_in_fault_pair:
  "ctrl_state c = CTRL_ST_FAULT \<Longrightarrow> ctrl_notify c = 0 \<Longrightarrow>
   \<exists>b'. ctrl_step (Eval_pass l) (c, b) = (ctrl_eval_led_sm c, b')"
  by (metis eval_pass_in_fault prod.collapse)

lemma led_trace_append:
  "led_trace (xs @ ys) cb = led_trace xs cb @ led_trace ys (ctrl_run (map Eval_pass xs) cb)"
  by (induction xs arbitrary: cb) simp_all

lemma on_phase:
  "ctrl_state c = CTRL_ST_FAULT \<Longrightarrow> ctrl_notify c = 0 \<Longrightarrow> ls \<noteq> [] \<Longrightarrow>
   t = int (length ls) \<Longrightarrow>
   led_trace ls (led_cfg c CTRL_LED_ST_FLT_ON t k True, b) =
     replicate (length ls) (CTRL_LED_ST_FLT_ON, True, False) \<and>
   fst (ctrl_run (map Eval_pass ls) (led_cfg c CTRL_LED_ST_FLT_ON t k True, b)) =
     led_cfg c CTRL_LED_ST_FLT_OFF 6 k False"
proof (induction ls arbitrary: t b)
  case Nil
  then show ?case by simp
next
  case (Cons l ls)
  obtain b' where st: "ctrl_step (Eval_pass l) (led_cfg c CTRL_LED_ST_FLT_ON t k True, b) =
      (ctrl_eval_led_sm (led_cfg c CTRL_LED_ST_FLT_ON t k True), b')"
    using eval_pass_in_fault_pair[of "led_cfg c CTRL_LED_ST_FLT_ON t k True" l b] Cons.prems
    by auto
  show ?case
  proof (cases "ls = []")
    case True
    with Cons.prems st show ?thesis by (simp add: eval_led_sm_on del: ctrl_step.simps)
  next
    case False
    with Cons.prems have "t - 1 \<noteq> 0" "t - 1 = int (length ls)" by auto
    with Cons.IH[OF Cons.prems(1,2) False, of "t - 1" b'] st show ?thesis
      by (simp add: eval_led_sm_on del: ctrl_step.simps)
  qed
qed

lemma off_phase:
  "ctrl_state c = CTRL_ST_FAULT \<Longrightarrow> ctrl_notify c = 0 \<Longrightarrow> ls \<noteq> [] \<Longrightarrow>
   t = int (length ls) \<Longrightarrow>
   led_trace ls (led_cfg c CTRL_LED_ST_FLT_OFF t k False, b) =
     replicate (length ls) (CTRL_LED_ST_FLT_OFF, False, False) \<and>
   fst (ctrl_run (map Eval_pass ls) (led_cfg c CTRL_LED_ST_FLT_OFF t k False, b)) =
     (if k - 1 = 0 then led_cfg c CTRL_LED_ST_FLT_IDLE 40 (k - 1) False
      else led_cfg c CTRL_LED_ST_FLT_ON 4 (k - 1) True)"
proof (induction ls arbitrary: t b)
  case Nil
  then show ?case by simp
next
  case (Cons l ls)
  obtain b' where st: "ctrl_step (Eval_pass l) (led_cfg c CTRL_LED_ST_FLT_OFF t k False, b) =
      (ctrl_eval_led_sm (led_cfg c CTRL_LED_ST_FLT_OFF t k False), b')"
    using eval_pass_in_fault_pair[of "led_cfg c CTRL_LED_ST_FLT_OFF t k False" l b] Cons.prems
    by auto
  show ?case
  proof (cases "ls = []")
    case True
    with Cons.prems st show ?thesis by (simp add: eval_led_sm_off del: ctrl_step.simps)
  next
    case False
    with Cons.prems have "t - 1 \<noteq> 0" "t - 1 = int (length ls)" by auto
    with Cons.IH[OF Cons.prems(1,2) False, of "t - 1" b'] st show ?thesis
      by (simp add: eval_led_sm_off del: ctrl_step.simps)
  qed
qed

lemma idle_phase:
  "ctrl_state c = CTRL_ST_FAULT \<Longrightarrow> ctrl_notify c = 0 \<Longrightarrow> ls \<noteq> [] \<Longrightarrow>
   t = int (length ls) \<Longrightarrow>
   led_trace ls (led_cfg c CTRL_LED_ST_FLT_IDLE t k False, b) =
     replicate (length ls) (CTRL_LED_ST_FLT_IDLE, False, False) \<and>
   fst (ctrl_run (map Eval_pass ls) (led_cfg c CTRL_LED_ST_FLT_IDLE t k False, b)) =
     led_cfg c CTRL_LED_ST_FLT_ON 4 (ctrl_fault_type c) True"
proof (induction ls arbitrary: t b)
  case Nil
  then show ?case by simp
next
  case (Cons l ls)
  obtain b' where st: "ctrl_step (Eval_pass l) (led_cfg c CTRL_LED_ST_FLT_IDLE t k False, b) =
      (ctrl_eval_led_sm (led_cfg c CTRL_LED_ST_FLT_IDLE t k False), b')"
    using eval_pass_in_fault_pair[of "led_cfg c CTRL_LED_ST_FLT_IDLE t k False" l b] Cons.prems
    by auto
  show ?case
  proof (cases "ls = []")
    case True
    with Cons.prems st show ?thesis by (simp add: eval_led_sm_idle del: ctrl_step.simps)
  next
    case False
    with Cons.prems have "t - 1 \<noteq> 0" "t - 1 = int (length ls)" by auto
    with Cons.IH[OF Cons.prems(1,2) False, of "t - 1" b'] st show ?thesis
      by (simp add: eval_led_sm_idle del: ctrl_step.simps)
  qed
qed

lemma split_length:
  "length ls = a + b \<Longrightarrow> \<exists>xs ys. ls = xs @ ys \<and> length xs = a \<and> length ys = b"
  by (rule exI[of _ "take a ls"], rule exI[of _ "drop a ls"]) simp

lemma ctrl_run_fst_pair:
  "fst (ctrl_run es cb) = c' \<Longrightarrow> \<exists>b'. ctrl_run es cb = (c', b')"
  by (metis prod.collapse)

lemma blink_phase:
  assumes "ctrl_state c = CTRL_ST_FAULT" "ctrl_notify c = 0" "0 < n" "length ls = n + 6"
  shows "led_trace ls (led_cfg c CTRL_LED_ST_FLT_ON (int n) k True, b) =
           replicate n (CTRL_LED_ST_FLT_ON, True, False) @
           replicate 6 (CTRL_LED_ST_FLT_OFF, False, False) \<and>
         fst (ctrl_run (map Eval_pass ls) (led_cfg c CTRL_LED_ST_FLT_ON (int n) k True, b)) =
           (if k - 1 = 0 then led_cfg c CTRL_LED_ST_FLT_IDLE 40 (k - 1) False
            else led_cfg c CTRL_LED_ST_FLT_ON 4 (k - 1) True)"
proof -
  from split_length[OF assms(4)] obtain xs ys where
    ls: "ls = xs @ ys" and lx: "length xs = n" and ly: "length ys = 6" by blast
  from lx assms(3) have xne: "xs \<noteq> []" by auto
  from ly have yne: "ys \<noteq> []" by auto
  note on = on_phase[OF assms(1,2) xne, of "int n" k b, simplified lx, simplified]
  from ctrl_run_fst_pair[OF on[THEN conjunct2]] obtain b1 where
    r1: "ctrl_run (map Eval_pass xs) (led_cfg c CTRL_LED_ST_FLT_ON (int n) k True, b) =
           (led_cfg c CTRL_LED_ST_FLT_OFF 6 k False, b1)" by blast
  note off = off_phase[OF assms(1,2) yne, of 6 k b1, simplified ly, simplified]
  show ?thesis
    using on off r1 by (simp add: ls led_trace_append ctrl_run_append)
qed

lemma blinks_phase:
  "ctrl_state c = CTRL_ST_FAULT \<Longrightarrow> ctrl_notify c = 0 \<Longrightarrow> 0 < n \<Longrightarrow>
   length ls = n + 6 + 10 * m \<Longrightarrow>
   led_trace ls (led_cfg c CTRL_LED_ST_FLT_ON (int n) (int (Suc m)) True, b) =
     replicate n (CTRL_LED_ST_FLT_ON, True, False) @
     replicate 6 (CTRL_LED_ST_FLT_OFF, False, False) @
     concat (replicate m (replicate 4 (CTRL_LED_ST_FLT_ON, True, False) @
                          replicate 6 (CTRL_LED_ST_FLT_OFF, False, False))) \<and>
   fst (ctrl_run (map Eval_pass ls) (led_cfg c CTRL_LED_ST_FLT_ON (int n) (int (Suc m)) True, b)) =
     led_cfg c CTRL_LED_ST_FLT_IDLE 40 0 False"
proof (induction m arbitrary: n ls b)
  case 0
  then show ?case using blink_phase[of c n ls "int (Suc 0)" b] by simp
next
  case (Suc m)
  from Suc.prems(4) have "length ls = (n + 6) + (4 + 6 + 10 * m)" by simp
  from split_length[OF this] obtain xs ys where
    ls: "ls = xs @ ys" and lx: "length xs = n + 6" and ly: "length ys = 4 + 6 + 10 * m"
    by blast
  note b1 = blink_phase[OF Suc.prems(1,2,3) lx, of "int (Suc (Suc m))" b]
  from b1 have f1: "fst (ctrl_run (map Eval_pass xs)
      (led_cfg c CTRL_LED_ST_FLT_ON (int n) (int (Suc (Suc m))) True, b)) =
      led_cfg c CTRL_LED_ST_FLT_ON 4 (int (Suc m)) True" by simp
  from ctrl_run_fst_pair[OF f1] obtain b1' where
    r1: "ctrl_run (map Eval_pass xs)
      (led_cfg c CTRL_LED_ST_FLT_ON (int n) (int (Suc (Suc m))) True, b) =
      (led_cfg c CTRL_LED_ST_FLT_ON 4 (int (Suc m)) True, b1')" by blast
  have "(0::nat) < 4" by simp
  note ih = Suc.IH[OF Suc.prems(1,2) this ly, of b1', simplified]
  show ?case
    using b1 ih r1 by (simp add: ls led_trace_append ctrl_run_append)
qed

lemma burst_phase:
  assumes "ctrl_state c = CTRL_ST_FAULT" "ctrl_notify c = 0" "0 < n"
    "length ls = n + 6 + 10 * m + 40"
  shows "led_trace ls (led_cfg c CTRL_LED_ST_FLT_ON (int n) (int (Suc m)) True, b) =
     replicate n (CTRL_LED_ST_FLT_ON, True, False) @
     replicate 6 (CTRL_LED_ST_FLT_OFF, False, False) @
     concat (replicate m (replicate 4 (CTRL_LED_ST_FLT_ON, True, False) @
                          replicate 6 (CTRL_LED_ST_FLT_OFF, False, False))) @
     replicate 40 (CTRL_LED_ST_FLT_IDLE, False, False) \<and>
   fst (ctrl_run (map Eval_pass ls) (led_cfg c CTRL_LED_ST_FLT_ON (int n) (int (Suc m)) True, b)) =
     led_cfg c CTRL_LED_ST_FLT_ON 4 (ctrl_fault_type c) True"
proof -
  from split_length[OF assms(4)] obtain xs ys where
    ls: "ls = xs @ ys" and lx: "length xs = n + 6 + 10 * m" and ly: "length ys = 40" by blast
  from ly have yne: "ys \<noteq> []" by auto
  note bl = blinks_phase[OF assms(1,2,3) lx, of b]
  from ctrl_run_fst_pair[OF bl[THEN conjunct2]] obtain b1 where
    r1: "ctrl_run (map Eval_pass xs)
      (led_cfg c CTRL_LED_ST_FLT_ON (int n) (int (Suc m)) True, b) =
      (led_cfg c CTRL_LED_ST_FLT_IDLE 40 0 False, b1)" by blast
  note idl = idle_phase[OF assms(1,2) yne, of 40 0 b1, simplified ly, simplified]
  show ?thesis
    using bl idl r1 by (simp add: ls led_trace_append ctrl_run_append)
qed

lemma count_on_high:
  "count_on p (replicate n (st, True, g) @ xs) =
     (if n = 0 then count_on p xs else (if p then 0 else 1) + count_on True xs)"
proof (induction n arbitrary: p)
  case 0
  then show ?case by simp
next
  case (Suc n)
  then show ?case by (cases n) simp_all
qed

lemma count_on_low:
  "count_on p (replicate n (st, False, g) @ xs) =
     (if n = 0 then count_on p xs else count_on False xs)"
proof (induction n arbitrary: p)
  case 0
  then show ?case by simp
next
  case (Suc n)
  then show ?case by (cases n) simp_all
qed

lemma count_on_blinks:
  "count_on False (concat (replicate m (replicate 4 (s1, True, g1) @ replicate 6 (s2, False, g2))) @ xs)
     = m + count_on False xs"
proof (induction m)
  case 0
  then show ?case by simp
next
  case (Suc m)
  have "count_on False (concat (replicate (Suc m)
          (replicate 4 (s1, True, g1) @ replicate 6 (s2, False, g2))) @ xs) =
        count_on False (replicate 4 (s1, True, g1) @ (replicate 6 (s2, False, g2) @
          (concat (replicate m (replicate 4 (s1, True, g1) @ replicate 6 (s2, False, g2))) @ xs)))"
    by simp
  also have "\<dots> = 1 + count_on False
          (concat (replicate m (replicate 4 (s1, True, g1) @ replicate 6 (s2, False, g2))) @ xs)"
    by (simp only: count_on_high count_on_low) simp
  finally show ?case using Suc.IH by simp
qed

lemma burst_on_phases:
  "0 < n \<Longrightarrow>
   led_on_phases (replicate n (s1, True, g1) @ replicate 6 (s2, False, g2) @
     concat (replicate m (replicate 4 (s1, True, g1) @ replicate 6 (s2, False, g2))) @
     replicate 40 (s3, False, g3)) = Suc m"
proof -
  assume n: "0 < n"
  have z: "count_on False (replicate 40 (s3, False, g3)) = 0"
    using count_on_low[of False 40 s3 g3 "[]"] by simp
  show ?thesis
    unfolding led_on_phases_def
    by (simp only: count_on_high count_on_low count_on_blinks z) (use n in simp)
qed

lemma fault_entry_pass:
  assumes "ctrl_fault_type c0 = f" "0 < f" "ctrl_notify c0 = CTRL_NOTIFY_FAULT"
  shows "fst (ctrl_step (Eval_pass l) (c0, b)) =
           led_cfg (c0\<lparr>ctrl_state := CTRL_ST_FAULT, ctrl_notify := 0\<rparr>) CTRL_LED_ST_FLT_ON 3 f True"
proof -
  have "ctrl_handle_notifications c0 =
      led_cfg (c0\<lparr>ctrl_state := CTRL_ST_FAULT, ctrl_notify := 0\<rparr>) CTRL_LED_ST_FLT_ON 4 f True"
    using assms
    by (simp add: ctrl_handle_notifications_def Let_def Notification_def ctrl_consts
          ctrl_set_state_def ctrl_set_led_state_def ctrl_set_led_def led_cfg_def)
  then have "ctrl_eval_led_sm (ctrl_handle_notifications c0) =
      led_cfg (c0\<lparr>ctrl_state := CTRL_ST_FAULT, ctrl_notify := 0\<rparr>) CTRL_LED_ST_FLT_ON 3 f True"
    by (simp add: eval_led_sm_on)
  then show ?thesis
    by (simp only: ctrl_step_eval_fst) (simp add: ctrl_task_iter_def ctrl_eval_sm_def
          split: prod.splits)
qed

lemma led_trace_events_passes:
  "led_trace_events (map Eval_pass ls) cb = led_trace ls cb"
  by (induction ls arbitrary: cb) simp_all

text \<open>
  C9 (as stated, refuted). From the start of the control task, fault code 4 is reported and
  processed, and 25 passes later, in the third off-phase of the burst, it is reported
  again (as the acquisition task does after each failed re-initialisation). The control
  state is Fault with active code 4 at every one of the following 66 passes, and the burst
  shows 7 on-phases before the machine first reaches Idle: the three already made and four
  more, the repeat count having been reloaded and BlinkOn restarted by the second report.
\<close>

theorem fault_blink_rereport_counterexample:
  "fault_trace_events
     (replicate 25 (Eval_pass False) @ Set_fault 4 # replicate 41 (Eval_pass False))
     (ctrl_run [Set_fault 4, Eval_pass False] (ctrl_task_init, btn_init)) =
     replicate 66 (CTRL_ST_FAULT, 4)
   \<and> led_trace_events
     (replicate 25 (Eval_pass False) @ Set_fault 4 # replicate 41 (Eval_pass False))
     (ctrl_run [Set_fault 4, Eval_pass False] (ctrl_task_init, btn_init)) =
     replicate 3 (CTRL_LED_ST_FLT_ON, True, False) @
     replicate 6 (CTRL_LED_ST_FLT_OFF, False, False) @
     replicate 4 (CTRL_LED_ST_FLT_ON, True, False) @
     replicate 6 (CTRL_LED_ST_FLT_OFF, False, False) @
     replicate 4 (CTRL_LED_ST_FLT_ON, True, False) @
     replicate 3 (CTRL_LED_ST_FLT_OFF, False, False) @
     replicate 3 (CTRL_LED_ST_FLT_ON, True, False) @
     replicate 6 (CTRL_LED_ST_FLT_OFF, False, False) @
     replicate 4 (CTRL_LED_ST_FLT_ON, True, False) @
     replicate 6 (CTRL_LED_ST_FLT_OFF, False, False) @
     replicate 4 (CTRL_LED_ST_FLT_ON, True, False) @
     replicate 6 (CTRL_LED_ST_FLT_OFF, False, False) @
     replicate 4 (CTRL_LED_ST_FLT_ON, True, False) @
     replicate 6 (CTRL_LED_ST_FLT_OFF, False, False) @
     [(CTRL_LED_ST_FLT_IDLE, False, False)]
   \<and> led_on_phases (led_trace_events
     (replicate 25 (Eval_pass False) @ Set_fault 4 # replicate 41 (Eval_pass False))
     (ctrl_run [Set_fault 4, Eval_pass False] (ctrl_task_init, btn_init))) = 7"
  by code_simp

text \<open>
  C9 (amended). In the Fault state with active fault code \<open>f > 0\<close>, over passes in which
  no notification is processed, a blink burst that starts in BlinkOn with the repeat count
  equal to \<open>f\<close> and \<open>n > 0\<close> ticks left on its timer shows, pass by pass: \<open>n\<close> passes on,
  6 off, then \<open>f - 1\<close> times (4 on, 6 off),
  then 40 passes Idle; the burst has exactly \<open>f\<close> on-phases; and after it the machine is
  again in BlinkOn with the repeat count reloaded to \<open>f\<close> and the timer at 4, so the next
  burst is the same with \<open>n = 4\<close>. The pass that processes a fault notification for code
  \<open>f\<close>, from whatever state of the LED machine, initialises such a burst (BlinkOn, repeat
  count \<open>f\<close>, red on, \<open>n = 3\<close>); processed during a burst, it restarts the count.
\<close>

theorem fault_blink_count:
  assumes "ctrl_state c = CTRL_ST_FAULT" and "ctrl_notify c = 0"
    and "ctrl_fault_type c = f" and "0 < f"
    and "ctrl_led_state c = CTRL_LED_ST_FLT_ON" and "ctrl_fault_led_count c = f"
    and "ctrl_led_timer c = int n" and "0 < n" and "pin_r_led c" and "\<not> pin_g_led c"
    and "length ls = n + 6 + 10 * (nat f - 1) + 40"
  shows "led_trace ls (c, b) =
           replicate n (CTRL_LED_ST_FLT_ON, True, False) @
           replicate 6 (CTRL_LED_ST_FLT_OFF, False, False) @
           concat (replicate (nat f - 1)
             (replicate 4 (CTRL_LED_ST_FLT_ON, True, False) @
              replicate 6 (CTRL_LED_ST_FLT_OFF, False, False))) @
           replicate 40 (CTRL_LED_ST_FLT_IDLE, False, False)
       \<and> led_on_phases (led_trace ls (c, b)) = nat f
       \<and> fst (ctrl_run (map Eval_pass ls) (c, b)) = c\<lparr>ctrl_led_timer := 4\<rparr>
       \<and> (\<forall>(c0::ctrl) l b0. ctrl_fault_type c0 = f \<and> ctrl_notify c0 = CTRL_NOTIFY_FAULT \<longrightarrow>
            fst (ctrl_step (Eval_pass l) (c0, b0)) =
              c0\<lparr>ctrl_state := CTRL_ST_FAULT, ctrl_notify := 0,
                 ctrl_led_state := CTRL_LED_ST_FLT_ON, ctrl_led_timer := 3,
                 ctrl_fault_led_count := f, pin_r_led := True, pin_g_led := False\<rparr>)"
proof -
  define m where "m = nat f - 1"
  have m: "nat f = Suc m" "f = int (Suc m)"
    using assms(4) by (simp_all add: m_def)
  have c: "c = led_cfg c CTRL_LED_ST_FLT_ON (int n) (int (Suc m)) True"
    using assms m by (simp add: led_cfg_def)
  have len: "length ls = n + 6 + 10 * m + 40" using assms(11) m by simp
  note bp = burst_phase[OF assms(1,2,8) len, of b, folded c]
  have tr: "led_trace ls (c, b) =
           replicate n (CTRL_LED_ST_FLT_ON, True, False) @
           replicate 6 (CTRL_LED_ST_FLT_OFF, False, False) @
           concat (replicate (nat f - 1)
             (replicate 4 (CTRL_LED_ST_FLT_ON, True, False) @
              replicate 6 (CTRL_LED_ST_FLT_OFF, False, False))) @
           replicate 40 (CTRL_LED_ST_FLT_IDLE, False, False)"
    using bp m by simp
  have ph: "led_on_phases (led_trace ls (c, b)) = nat f"
    unfolding tr using burst_on_phases[OF assms(8)] m by simp
  have fin: "fst (ctrl_run (map Eval_pass ls) (c, b)) = c\<lparr>ctrl_led_timer := 4\<rparr>"
    using bp assms by (simp add: led_cfg_def)
  have ent: "\<forall>(c0::ctrl) l b0. ctrl_fault_type c0 = f \<and> ctrl_notify c0 = CTRL_NOTIFY_FAULT \<longrightarrow>
            fst (ctrl_step (Eval_pass l) (c0, b0)) =
              c0\<lparr>ctrl_state := CTRL_ST_FAULT, ctrl_notify := 0,
                 ctrl_led_state := CTRL_LED_ST_FLT_ON, ctrl_led_timer := 3,
                 ctrl_fault_led_count := f, pin_r_led := True, pin_g_led := False\<rparr>"
    using fault_entry_pass[OF _ assms(4)] by (simp add: led_cfg_def)
  from tr ph fin ent show ?thesis by blast
qed

theorem fault_blink_count_witness:
  "ctrl_state (fst (ctrl_run [Set_fault 2, Eval_pass False] (ctrl_task_init, btn_init)))
     = CTRL_ST_FAULT
   \<and> ctrl_fault_type (fst (ctrl_run [Set_fault 2, Eval_pass False] (ctrl_task_init, btn_init)))
     = 2
   \<and> led_trace (replicate 59 False)
        (fst (ctrl_run [Set_fault 2, Eval_pass False] (ctrl_task_init, btn_init)), btn_init) =
       replicate 3 (CTRL_LED_ST_FLT_ON, True, False) @
       replicate 6 (CTRL_LED_ST_FLT_OFF, False, False) @
       replicate 4 (CTRL_LED_ST_FLT_ON, True, False) @
       replicate 6 (CTRL_LED_ST_FLT_OFF, False, False) @
       replicate 40 (CTRL_LED_ST_FLT_IDLE, False, False)
   \<and> led_on_phases (led_trace (replicate 59 False)
        (fst (ctrl_run [Set_fault 2, Eval_pass False] (ctrl_task_init, btn_init)), btn_init)) = 2
   \<and> ctrl_fault_type (ctrl_set_fault_type 2 ctrl_task_init) = 2
   \<and> ctrl_notify (ctrl_set_fault_type 2 ctrl_task_init) = CTRL_NOTIFY_FAULT
   \<and> ctrl_led_timer (fst (ctrl_step (Eval_pass False)
        (ctrl_set_fault_type 2 ctrl_task_init, btn_init))) = 3"
proof -
  let ?c = "fst (ctrl_run [Set_fault 2, Eval_pass False] (ctrl_task_init, btn_init))"
  have h1: "ctrl_state ?c = CTRL_ST_FAULT" by code_simp
  have h2: "ctrl_notify ?c = 0" by code_simp
  have h3: "ctrl_fault_type ?c = 2" by code_simp
  have h4: "(0::int) < 2" by simp
  have h5: "ctrl_led_state ?c = CTRL_LED_ST_FLT_ON" by code_simp
  have h6: "ctrl_fault_led_count ?c = 2" by code_simp
  have h7: "ctrl_led_timer ?c = int 3" by code_simp
  have h8: "(0::nat) < 3" by simp
  have h9: "pin_r_led ?c" by code_simp
  have h10: "\<not> pin_g_led ?c" by code_simp
  have h11: "length (replicate 59 False) = 3 + 6 + 10 * (nat 2 - 1) + 40" by simp
  note r = fault_blink_count [OF h1 h2 h3 h4 h5 h6 h7 h8 h9 h10 h11, of btn_init]
  have e1: "ctrl_fault_type (ctrl_set_fault_type 2 ctrl_task_init) = 2
      \<and> ctrl_notify (ctrl_set_fault_type 2 ctrl_task_init) = CTRL_NOTIFY_FAULT"
    by code_simp
  note r1 = r [THEN conjunct1]
  note r2 = r [THEN conjunct2, THEN conjunct1]
  note r4 = r [THEN conjunct2, THEN conjunct2, THEN conjunct2]
  from r4 e1 have e2: "fst (ctrl_step (Eval_pass False)
        (ctrl_set_fault_type 2 ctrl_task_init, btn_init)) =
      (ctrl_set_fault_type 2 ctrl_task_init)\<lparr>ctrl_state := CTRL_ST_FAULT, ctrl_notify := 0,
         ctrl_led_state := CTRL_LED_ST_FLT_ON, ctrl_led_timer := 3,
         ctrl_fault_led_count := 2, pin_r_led := True, pin_g_led := False\<rparr>"
    by blast
  have e3: "ctrl_led_timer (fst (ctrl_step (Eval_pass False)
        (ctrl_set_fault_type 2 ctrl_task_init, btn_init))) = 3"
    by (simp only: e2) simp
  have k1: "nat (2::int) - 1 = Suc 0" by simp
  have k2: "nat (2::int) = 2" by simp
  have t: "led_trace (replicate 59 False) (?c, btn_init) =
       replicate 3 (CTRL_LED_ST_FLT_ON, True, False) @
       replicate 6 (CTRL_LED_ST_FLT_OFF, False, False) @
       replicate 4 (CTRL_LED_ST_FLT_ON, True, False) @
       replicate 6 (CTRL_LED_ST_FLT_OFF, False, False) @
       replicate 40 (CTRL_LED_ST_FLT_IDLE, False, False)"
    by (simp only: r1 k1 replicate.simps concat.simps append_Nil2 append_assoc)
  have p: "led_on_phases (led_trace (replicate 59 False) (?c, btn_init)) = 2"
    by (simp only: r2 k2)
  from h1 h3 t p e1 e3 show ?thesis by blast
qed

section \<open>Acquisition task\<close>

lemmas lep_consts = STATE_INIT_def STATE_RUN_def STATE_RE_INIT_def STATE_ERROR_def

lemma wait_vsync_seen: "True \<in> set ls \<Longrightarrow> \<exists>rest. wait_vsync ls = Some rest"
  by (induction ls) auto

lemma lep_run_miss:
  assumes "task_state s = STATE_RUN" "True \<in> set (vsync_samples inp)" "\<not> call_ok inp"
  shows "lep_task_pass LIMIT RETRY inp s =
    Some (if vsync_count s + 1 = 36 then
            (if sync_fail_count s = LIMIT then
               (if reset_fail_count s = 0
                then (s\<lparr>vsync_count := 0, sync_fail_count := 0, task_state := STATE_RE_INIT\<rparr>,
                      [Task_delay 185, Fault_type CTRL_FAULT_LEP_SYNC])
                else (s\<lparr>vsync_count := 0, sync_fail_count := 0, task_state := STATE_ERROR,
                        reset_fail_count := RETRY\<rparr>,
                      [Task_delay 185, Fault_type CTRL_FAULT_LEP_SYNC]))
             else (s\<lparr>vsync_count := 0, sync_fail_count := sync_fail_count s + 1\<rparr>,
                   [Task_delay 185]))
          else (s\<lparr>vsync_count := vsync_count s + 1\<rparr>, []))"
proof -
  from wait_vsync_seen[OF assms(2)] obtain rest where "wait_vsync (vsync_samples inp) = Some rest"
    by blast
  then show ?thesis
    using assms(1,3) by (simp add: lep_task_pass_def Let_def lep_consts)
qed

lemma lep_run_ok:
  assumes "task_state s = STATE_RUN" "True \<in> set (vsync_samples inp)" "call_ok inp"
  shows "lep_task_pass LIMIT RETRY inp s =
    Some (s\<lparr>vsync_count := 0, vid_buf_index := (if vid_buf_index s = 0 then 1 else 0),
            sync_fail_count := 0, reset_fail_count := 0\<rparr>,
          [Get_frame (vid_buf_index s)] @
          (if vid_buf_index s = 0 then [Vid_notify VID_NOTIFY_LEP_FRAME_MASK_1]
           else [Vid_notify VID_NOTIFY_LEP_FRAME_MASK_2]) @
          (if sync_fail_count s \<ge> LIMIT then [Fault_type CTRL_FAULT_NONE] else []) @
          [Task_delay 30])"
proof -
  from wait_vsync_seen[OF assms(2)] obtain rest where "wait_vsync (vsync_samples inp) = Some rest"
    by blast
  then show ?thesis
    using assms(1,3) by (simp add: lep_task_pass_def Let_def lep_consts)
qed

lemma segment_miss_simps [simp]:
  "True \<in> set (vsync_samples segment_miss)" "\<not> call_ok segment_miss"
  by (simp_all add: segment_miss_def)

lemma lep_task_run_append:
  "lep_task_run LIMIT RETRY (xs @ ys) s =
     (case lep_task_run LIMIT RETRY xs s of
        None \<Rightarrow> None
      | Some (s', es) \<Rightarrow>
          (case lep_task_run LIMIT RETRY ys s' of
             None \<Rightarrow> None
           | Some (s'', es') \<Rightarrow> Some (s'', es @ es')))"
  by (induction xs arbitrary: s) (auto split: option.splits)

lemma lep_task_run_append_Some:
  "lep_task_run LIMIT RETRY xs s = Some (s', es) \<Longrightarrow>
   lep_task_run LIMIT RETRY ys s' = Some (s'', es') \<Longrightarrow>
   lep_task_run LIMIT RETRY (xs @ ys) s = Some (s'', es @ es')"
  by (simp add: lep_task_run_append)

lemma lep_task_run_single:
  "lep_task_pass LIMIT RETRY inp s = Some (s', es) \<Longrightarrow>
   lep_task_run LIMIT RETRY [inp] s = Some (s', es)"
  by simp

lemma misses_below:
  "task_state s = STATE_RUN \<Longrightarrow> vsync_count s = int k \<Longrightarrow> k + n < 36 \<Longrightarrow>
   lep_task_run LIMIT RETRY (replicate n segment_miss) s =
     Some (s\<lparr>vsync_count := int (k + n)\<rparr>, [])"
proof (induction n arbitrary: s k)
  case 0
  then show ?case by simp
next
  case (Suc n)
  have st: "lep_task_pass LIMIT RETRY segment_miss s = Some (s\<lparr>vsync_count := int (Suc k)\<rparr>, [])"
    using lep_run_miss[OF Suc.prems(1), of segment_miss LIMIT RETRY] Suc.prems(2,3) by simp
  have "lep_task_run LIMIT RETRY (replicate n segment_miss) (s\<lparr>vsync_count := int (Suc k)\<rparr>) =
     Some (s\<lparr>vsync_count := int (Suc k)\<rparr>\<lparr>vsync_count := int (Suc k + n)\<rparr>, [])"
    using Suc.prems by (intro Suc.IH) simp_all
  with st show ?case by simp
qed

lemma one_pause:
  assumes "task_state s = STATE_RUN" "vsync_count s = 0" "sync_fail_count s \<noteq> LIMIT"
  shows "lep_task_run LIMIT RETRY (replicate 36 segment_miss) s =
     Some (s\<lparr>vsync_count := 0, sync_fail_count := sync_fail_count s + 1\<rparr>, [Task_delay 185])"
proof -
  have r35: "lep_task_run LIMIT RETRY (replicate 35 segment_miss) s =
      Some (s\<lparr>vsync_count := 35\<rparr>, [])"
    using misses_below[OF assms(1), of 0 35 LIMIT RETRY] assms(2) by simp
  have st: "lep_task_pass LIMIT RETRY segment_miss (s\<lparr>vsync_count := 35\<rparr>) =
      Some (s\<lparr>vsync_count := 0, sync_fail_count := sync_fail_count s + 1\<rparr>, [Task_delay 185])"
    using lep_run_miss[of "s\<lparr>vsync_count := 35\<rparr>" segment_miss LIMIT RETRY] assms by simp
  have "replicate 36 segment_miss = replicate 35 segment_miss @ [segment_miss]"
    by (simp add: replicate_append_same flip: replicate_Suc)
  then show ?thesis
    using lep_task_run_append_Some[OF r35 lep_task_run_single[OF st]] by simp
qed

lemma pause_at_limit:
  assumes "task_state s = STATE_RUN" "vsync_count s = 0" "sync_fail_count s = LIMIT"
  shows "lep_task_run LIMIT RETRY (replicate 36 segment_miss) s =
     Some (if reset_fail_count s = 0
           then s\<lparr>vsync_count := 0, sync_fail_count := 0, task_state := STATE_RE_INIT\<rparr>
           else s\<lparr>vsync_count := 0, sync_fail_count := 0, task_state := STATE_ERROR,
                   reset_fail_count := RETRY\<rparr>,
           [Task_delay 185, Fault_type CTRL_FAULT_LEP_SYNC])"
proof -
  have r35: "lep_task_run LIMIT RETRY (replicate 35 segment_miss) s =
      Some (s\<lparr>vsync_count := 35\<rparr>, [])"
    using misses_below[OF assms(1), of 0 35 LIMIT RETRY] assms(2) by simp
  have st: "lep_task_pass LIMIT RETRY segment_miss (s\<lparr>vsync_count := 35\<rparr>) =
     Some (if reset_fail_count s = 0
           then s\<lparr>vsync_count := 0, sync_fail_count := 0, task_state := STATE_RE_INIT\<rparr>
           else s\<lparr>vsync_count := 0, sync_fail_count := 0, task_state := STATE_ERROR,
                   reset_fail_count := RETRY\<rparr>,
           [Task_delay 185, Fault_type CTRL_FAULT_LEP_SYNC])"
    using lep_run_miss[of "s\<lparr>vsync_count := 35\<rparr>" segment_miss LIMIT RETRY] assms by simp
  have "replicate 36 segment_miss = replicate 35 segment_miss @ [segment_miss]"
    by (simp add: replicate_append_same flip: replicate_Suc)
  then show ?thesis
    using lep_task_run_append_Some[OF r35 lep_task_run_single[OF st]] by simp
qed

lemma pauses_below_limit:
  "task_state s = STATE_RUN \<Longrightarrow> vsync_count s = 0 \<Longrightarrow> sync_fail_count s = int j \<Longrightarrow>
   int (j + m) \<le> LIMIT \<Longrightarrow>
   lep_task_run LIMIT RETRY (replicate (36 * m) segment_miss) s =
     Some (s\<lparr>sync_fail_count := int (j + m)\<rparr>, replicate m (Task_delay 185))"
proof (induction m arbitrary: s j)
  case 0
  then show ?case by simp
next
  case (Suc m)
  have ne: "sync_fail_count s \<noteq> LIMIT" using Suc.prems by simp
  let ?s1 = "s\<lparr>vsync_count := 0, sync_fail_count := sync_fail_count s + 1\<rparr>"
  note p1 = one_pause[OF Suc.prems(1,2) ne, of RETRY]
  have ih: "lep_task_run LIMIT RETRY (replicate (36 * m) segment_miss) ?s1 =
     Some (?s1\<lparr>sync_fail_count := int (Suc j + m)\<rparr>, replicate m (Task_delay 185))"
    using Suc.prems by (intro Suc.IH) simp_all
  have sp: "replicate (36 * Suc m) segment_miss =
      replicate 36 segment_miss @ replicate (36 * m) segment_miss"
    by (simp add: replicate_add[symmetric] del: replicate_Suc)
  have eq: "?s1\<lparr>sync_fail_count := int (Suc j + m)\<rparr> = s\<lparr>sync_fail_count := int (j + Suc m)\<rparr>"
    using Suc.prems(2) by (cases s) simp
  show ?case
    unfolding sp using lep_task_run_append_Some[OF p1 ih] eq
    by (simp flip: replicate_Suc)
qed

lemma escalation_from_zero:
  assumes "task_state s = STATE_RUN" "vsync_count s = 0" "sync_fail_count s = 0" "0 \<le> LIMIT"
  shows "lep_task_run LIMIT RETRY (replicate (36 * nat LIMIT) segment_miss) s =
           Some (s\<lparr>sync_fail_count := LIMIT\<rparr>, replicate (nat LIMIT) (Task_delay 185))
       \<and> lep_task_run LIMIT RETRY (replicate (36 * (nat LIMIT + 1)) segment_miss) s =
           Some (if reset_fail_count s = 0
                 then s\<lparr>task_state := STATE_RE_INIT\<rparr>
                 else s\<lparr>task_state := STATE_ERROR, reset_fail_count := RETRY\<rparr>,
                 replicate (nat LIMIT + 1) (Task_delay 185) @ [Fault_type CTRL_FAULT_LEP_SYNC])"
proof -
  have a: "lep_task_run LIMIT RETRY (replicate (36 * nat LIMIT) segment_miss) s =
           Some (s\<lparr>sync_fail_count := LIMIT\<rparr>, replicate (nat LIMIT) (Task_delay 185))"
    using pauses_below_limit[OF assms(1,2), of 0 "nat LIMIT" LIMIT RETRY] assms(3,4) by simp
  let ?s1 = "s\<lparr>sync_fail_count := LIMIT\<rparr>"
  have b: "lep_task_run LIMIT RETRY (replicate 36 segment_miss) ?s1 =
     Some (if reset_fail_count ?s1 = 0
           then ?s1\<lparr>vsync_count := 0, sync_fail_count := 0, task_state := STATE_RE_INIT\<rparr>
           else ?s1\<lparr>vsync_count := 0, sync_fail_count := 0, task_state := STATE_ERROR,
                   reset_fail_count := RETRY\<rparr>,
           [Task_delay 185, Fault_type CTRL_FAULT_LEP_SYNC])"
    using assms by (intro pause_at_limit) simp_all
  have sp: "replicate (36 * (nat LIMIT + 1)) segment_miss =
      replicate (36 * nat LIMIT) segment_miss @ replicate 36 segment_miss"
    by (simp add: replicate_add[symmetric] del: replicate_Suc)
  have eq1: "?s1\<lparr>vsync_count := 0, sync_fail_count := 0, task_state := STATE_RE_INIT\<rparr> =
      s\<lparr>task_state := STATE_RE_INIT\<rparr>"
    using assms(2,3) by (cases s) simp
  have eq2: "?s1\<lparr>vsync_count := 0, sync_fail_count := 0, task_state := STATE_ERROR,
                   reset_fail_count := RETRY\<rparr> =
      s\<lparr>task_state := STATE_ERROR, reset_fail_count := RETRY\<rparr>"
    using assms(2,3) by (cases s) simp
  have rp: "replicate (nat LIMIT) (Task_delay 185) @ [Task_delay 185, Fault_type CTRL_FAULT_LEP_SYNC]
      = replicate (nat LIMIT + 1) (Task_delay 185) @ [Fault_type CTRL_FAULT_LEP_SYNC]"
    by (simp add: replicate_append_same)
  have c: "lep_task_run LIMIT RETRY (replicate (36 * (nat LIMIT + 1)) segment_miss) s =
           Some (if reset_fail_count s = 0
                 then s\<lparr>task_state := STATE_RE_INIT\<rparr>
                 else s\<lparr>task_state := STATE_ERROR, reset_fail_count := RETRY\<rparr>,
                 replicate (nat LIMIT + 1) (Task_delay 185) @ [Fault_type CTRL_FAULT_LEP_SYNC])"
    unfolding sp using lep_task_run_append_Some[OF a b] eq1 eq2 rp
    by (simp del: replicate_Suc)
  from a c show ?thesis by blast
qed

text \<open>
  C4 (as stated, refuted). With the limit at 10, 360 consecutive failed attempts from the
  Run state with all counters clear make ten resynchronization pauses and bring the failure
  counter to 10, the limit; it is not cleared, no fault is reported and the state is still
  Run.
\<close>

theorem lep_sync_limit_counterexample:
  "lep_task_run 10 60 (replicate 360 segment_miss)
     \<lparr>task_state = STATE_RUN, vid_buf_index = 0, vsync_count = 0, sync_fail_count = 0,
      reset_fail_count = 0\<rparr> =
   Some (\<lparr>task_state = STATE_RUN, vid_buf_index = 0, vsync_count = 0, sync_fail_count = 10,
          reset_fail_count = 0\<rparr>,
         replicate 10 (Task_delay 185))"
  using escalation_from_zero [of
      "\<lparr>task_state = STATE_RUN, vid_buf_index = 0, vsync_count = 0, sync_fail_count = 0,
        reset_fail_count = 0\<rparr>" 10 60, THEN conjunct1]
  by simp

text \<open>
  C4 (amended). In the Run state, once the vsync edge is seen: a failed attempt increments
  the miss counter; the 36th consecutive miss clears it and makes one resynchronization
  pause; at that pause, a failure counter different from the limit is incremented, and a
  failure counter equal to the limit is cleared and a synchronization fault is reported,
  the state going to ReInit when the reset counter is 0 and otherwise to Error with the
  reset counter set to the retry constant. A successful attempt clears the miss, failure
  and reset counters. From clear counters and a limit \<open>LIMIT \<ge> 0\<close>, \<open>36 * LIMIT\<close>
  consecutive misses bring the failure counter to the limit without a fault, and the fault
  is reported by the pause after \<open>36 * (LIMIT + 1)\<close> misses.
\<close>

theorem lep_sync_escalation:
  assumes "task_state s = STATE_RUN"
    and "True \<in> set (vsync_samples miss)" and "\<not> call_ok miss"
    and "True \<in> set (vsync_samples ok)" and "call_ok ok"
    and "vsync_count s0 = 0" and "sync_fail_count s0 = 0" and "task_state s0 = STATE_RUN"
    and "0 \<le> LIMIT"
  shows "lep_task_pass LIMIT RETRY miss s =
    Some (if vsync_count s + 1 = 36 then
            (if sync_fail_count s = LIMIT then
               (if reset_fail_count s = 0
                then (s\<lparr>vsync_count := 0, sync_fail_count := 0, task_state := STATE_RE_INIT\<rparr>,
                      [Task_delay 185, Fault_type CTRL_FAULT_LEP_SYNC])
                else (s\<lparr>vsync_count := 0, sync_fail_count := 0, task_state := STATE_ERROR,
                        reset_fail_count := RETRY\<rparr>,
                      [Task_delay 185, Fault_type CTRL_FAULT_LEP_SYNC]))
             else (s\<lparr>vsync_count := 0, sync_fail_count := sync_fail_count s + 1\<rparr>,
                   [Task_delay 185]))
          else (s\<lparr>vsync_count := vsync_count s + 1\<rparr>, []))
   \<and> lep_task_pass LIMIT RETRY ok s =
    Some (s\<lparr>vsync_count := 0, vid_buf_index := (if vid_buf_index s = 0 then 1 else 0),
            sync_fail_count := 0, reset_fail_count := 0\<rparr>,
          [Get_frame (vid_buf_index s)] @
          (if vid_buf_index s = 0 then [Vid_notify VID_NOTIFY_LEP_FRAME_MASK_1]
           else [Vid_notify VID_NOTIFY_LEP_FRAME_MASK_2]) @
          (if sync_fail_count s \<ge> LIMIT then [Fault_type CTRL_FAULT_NONE] else []) @
          [Task_delay 30])
   \<and> lep_task_run LIMIT RETRY (replicate 35 segment_miss) s0 = Some (s0\<lparr>vsync_count := 35\<rparr>, [])
   \<and> lep_task_run LIMIT RETRY (replicate (36 * nat LIMIT) segment_miss) s0 =
        Some (s0\<lparr>sync_fail_count := LIMIT\<rparr>, replicate (nat LIMIT) (Task_delay 185))
   \<and> lep_task_run LIMIT RETRY (replicate (36 * (nat LIMIT + 1)) segment_miss) s0 =
        Some (if reset_fail_count s0 = 0
              then s0\<lparr>task_state := STATE_RE_INIT\<rparr>
              else s0\<lparr>task_state := STATE_ERROR, reset_fail_count := RETRY\<rparr>,
              replicate (nat LIMIT + 1) (Task_delay 185) @ [Fault_type CTRL_FAULT_LEP_SYNC])"
proof -
  note a = lep_run_miss [OF assms(1,2,3), of LIMIT RETRY]
  note b = lep_run_ok [OF assms(1,4,5), of LIMIT RETRY]
  have c: "lep_task_run LIMIT RETRY (replicate 35 segment_miss) s0 =
      Some (s0\<lparr>vsync_count := 35\<rparr>, [])"
    using misses_below [OF assms(8), of 0 35 LIMIT RETRY] assms(6) by simp
  note d = escalation_from_zero [OF assms(8,6,7,9), of RETRY]
  from a b c d show ?thesis by blast
qed

theorem lep_sync_escalation_witness:
  "lep_task_pass 10 60 segment_miss
     \<lparr>task_state = STATE_RUN, vid_buf_index = 0, vsync_count = 35, sync_fail_count = 10,
      reset_fail_count = 0\<rparr> =
   Some (\<lparr>task_state = STATE_RE_INIT, vid_buf_index = 0, vsync_count = 0, sync_fail_count = 0,
          reset_fail_count = 0\<rparr>,
         [Task_delay 185, Fault_type CTRL_FAULT_LEP_SYNC])
   \<and> lep_task_pass 10 60 segment_ok
     \<lparr>task_state = STATE_RUN, vid_buf_index = 0, vsync_count = 35, sync_fail_count = 10,
      reset_fail_count = 0\<rparr> =
   Some (\<lparr>task_state = STATE_RUN, vid_buf_index = 1, vsync_count = 0, sync_fail_count = 0,
          reset_fail_count = 0\<rparr>,
         [Get_frame 0, Vid_notify VID_NOTIFY_LEP_FRAME_MASK_1, Fault_type CTRL_FAULT_NONE,
          Task_delay 30])
   \<and> lep_task_run 10 60 (replicate 396 segment_miss)
     \<lparr>task_state = STATE_RUN, vid_buf_index = 0, vsync_count = 0, sync_fail_count = 0,
      reset_fail_count = 0\<rparr> =
   Some (\<lparr>task_state = STATE_RE_INIT, vid_buf_index = 0, vsync_count = 0, sync_fail_count = 0,
          reset_fail_count = 0\<rparr>,
         replicate 11 (Task_delay 185) @ [Fault_type CTRL_FAULT_LEP_SYNC])"
proof -
  let ?s = "\<lparr>task_state = STATE_RUN, vid_buf_index = 0, vsync_count = 35,
             sync_fail_count = 10, reset_fail_count = 0\<rparr>"
  let ?z = "\<lparr>task_state = STATE_RUN, vid_buf_index = 0, vsync_count = 0,
             sync_fail_count = 0, reset_fail_count = 0\<rparr>"
  have h1: "task_state ?s = STATE_RUN" by simp
  have h2: "True \<in> set (vsync_samples segment_miss)" by (simp add: segment_miss_def)
  have h3: "\<not> call_ok segment_miss" by (simp add: segment_miss_def)
  have h4: "True \<in> set (vsync_samples segment_ok)" by (simp add: segment_ok_def)
  have h5: "call_ok segment_ok" by (simp add: segment_ok_def)
  have h6: "vsync_count ?z = 0" by simp
  have h7: "sync_fail_count ?z = 0" by simp
  have h8: "task_state ?z = STATE_RUN" by simp
  have h9: "(0::int) \<le> 10" by simp
  note r = lep_sync_escalation [OF h1 h2 h3 h4 h5 h6 h7 h8 h9, of 60]
  from r show ?thesis by simp
qed

section \<open>Display handoff\<close>

lemma vid_handle_notifications_image:
  "notify_image_1 (vid_handle_notifications v s) =
     (Notification v VID_NOTIFY_LEP_FRAME_MASK_1 \<or> notify_image_1 s)"
  "notify_image_2 (vid_handle_notifications v s) =
     (Notification v VID_NOTIFY_LEP_FRAME_MASK_2 \<or> notify_image_2 s)"
  by (simp_all add: vid_handle_notifications_def Let_def)

lemma store_cur_parm_image [simp]:
  "notify_image_1 (store_cur_parm s) = notify_image_1 s"
  "notify_image_2 (store_cur_parm s) = notify_image_2 s"
  by (simp_all add: store_cur_parm_def)

lemma parm_branches_image [simp]:
  "notify_image_1 (parm_value_change now s) = notify_image_1 s"
  "notify_image_2 (parm_value_change now s) = notify_image_2 s"
  "notify_image_1 (parm_select_change now s) = notify_image_1 s"
  "notify_image_2 (parm_select_change now s) = notify_image_2 s"
  "notify_image_1 (parm_timeout_expired s) = notify_image_1 s"
  "notify_image_2 (parm_timeout_expired s) = notify_image_2 s"
  by (simp_all add: parm_value_change_def parm_select_change_def parm_timeout_expired_def
        Let_def)

lemma vid_eval_parm_update_image:
  "notify_image_1 (vid_eval_parm_update now s) = notify_image_1 s"
  "notify_image_2 (vid_eval_parm_update now s) = notify_image_2 s"
  by (simp_all add: vid_eval_parm_update_def)

lemma vid_task_pass_actions:
  "snd (vid_task_pass v now s) =
     (if Notification v VID_NOTIFY_LEP_FRAME_MASK_1 \<or> notify_image_1 s
      then [Wait_frame, Display_image 1, Render_image 0] else []) @
     (if Notification v VID_NOTIFY_LEP_FRAME_MASK_2 \<or> notify_image_2 s
      then [Wait_frame, Display_image 0, Render_image 1] else [])"
  by (simp add: vid_task_pass_def Let_def vid_eval_parm_update_image
        vid_handle_notifications_image)

lemma vid_task_pass_flags:
  "\<not> notify_image_1 (fst (vid_task_pass v now s))"
  "\<not> notify_image_2 (fst (vid_task_pass v now s))"
  by (simp_all add: vid_task_pass_def Let_def)

section \<open>Parameter session\<close>

lemmas vid_consts = NUM_PARMS_def PARM_INDEX_MARKER_def PARM_INDEX_EMISSIVITY_def
  PARM_INDEX_UNITS_def NUM_M_PARM_VALS_def M_PARM_MARKER_MASK_def M_PARM_PALETTE_MASK_def
  NUM_E_PARM_VALS_def NUM_U_PARM_VALS_def PARM_ENTRY_TIMEOUT_MSEC_def
  CTRL_BTN_LONG_PRESS_MSEC_def PS_PARM_PALETTE_MARKER_def PS_PARM_EMISSIVITY_def
  PS_PARM_UNITS_def

lemma pass_after_eval:
  "fst (vid_task_pass v now s) =
     (vid_eval_parm_update now (vid_handle_notifications v s))
       \<lparr>notify_image_1 := False, notify_image_2 := False\<rparr>"
  by (simp add: vid_task_pass_def Let_def)

lemma vid_handle_notifications_parm [simp]:
  "cur_parm_index (vid_handle_notifications v s) = cur_parm_index s"
  "parm_entry_timeout (vid_handle_notifications v s) = parm_entry_timeout s"
  "prev_time (vid_handle_notifications v s) = prev_time s"
  by (simp_all add: vid_handle_notifications_def Let_def)

lemma store_cur_parm_fields [simp]:
  "cur_parm_index (store_cur_parm s) = cur_parm_index s"
  "parm_entry_timeout (store_cur_parm s) = parm_entry_timeout s"
  "cur_parm_value (store_cur_parm s) = cur_parm_value s"
  "prev_parm_value (store_cur_parm s) = prev_parm_value s"
  "prev_time (store_cur_parm s) = prev_time s"
  by (simp_all add: store_cur_parm_def)

lemma parm_value_change_fields [simp]:
  "cur_parm_index (parm_value_change now s) = cur_parm_index s"
  "parm_entry_timeout (parm_value_change now s) = PARM_ENTRY_TIMEOUT_MSEC"
  "prev_time (parm_value_change now s) = now"
  by (simp_all add: parm_value_change_def Let_def)

lemma parm_select_change_fields [simp]:
  "cur_parm_index (parm_select_change now s) =
     (if cur_parm_index s + 1 = NUM_PARMS then 0 else cur_parm_index s + 1)"
  "parm_entry_timeout (parm_select_change now s) =
     (if cur_parm_index s + 1 = NUM_PARMS then 0 else PARM_ENTRY_TIMEOUT_MSEC)"
  "prev_time (parm_select_change now s) =
     (if cur_parm_index s + 1 = NUM_PARMS then prev_time s else now)"
  by (simp_all add: parm_select_change_def Let_def)

lemma parm_timeout_expired_fields [simp]:
  "cur_parm_index (parm_timeout_expired s) = 0"
  "parm_entry_timeout (parm_timeout_expired s) = 0"
  "prev_time (parm_timeout_expired s) = prev_time s"
  by (simp_all add: parm_timeout_expired_def Let_def)

lemma eval_by_branch:
  "vid_eval_parm_update now s =
     (case parm_branch_of now s of
        Value_change \<Rightarrow> parm_value_change now s
      | Select_change \<Rightarrow> parm_select_change now s
      | Timeout_fired \<Rightarrow> parm_timeout_expired s
      | No_change \<Rightarrow> s)"
  by (simp add: vid_eval_parm_update_def parm_branch_of_def)

lemma parm_step_inv:
  assumes "parm_inv (s, g)"
  shows "parm_inv (fst (vid_task_pass v now s),
          (case parm_branch_of now (vid_handle_notifications v s) of
             Value_change \<Rightarrow> True
           | Select_change \<Rightarrow> False
           | Timeout_fired \<Rightarrow> False
           | No_change \<Rightarrow> g))"
  using assms
  by (cases "parm_branch_of now (vid_handle_notifications v s)")
     (auto simp: parm_inv_def pass_after_eval eval_by_branch NUM_PARMS_def)

lemma parm_run_inv: "parm_inv sg \<Longrightarrow> parm_inv (parm_run es sg)"
proof (induction es arbitrary: sg)
  case Nil
  then show ?case by simp
next
  case (Cons e es)
  obtain v now where e: "e = (v, now)" by (cases e)
  obtain s g where sg: "sg = (s, g)" by (cases sg)
  show ?case
    unfolding e sg parm_run.simps
    by (rule Cons.IH, rule parm_step_inv) (use Cons.prems sg in simp)
qed

lemma parm_init_inv: "parm_inv (vid_task_init p, False)"
  by (simp add: parm_inv_def vid_task_init_def Let_def)

lemma Notification_self: "Notification m m"
  by (simp add: Notification_def)

lemma branch_after_change:
  "parm_branch_of now (vid_handle_notifications VID_NOTIFY_PARM_CHANGE_MASK s) = Value_change"
  by (simp add: parm_branch_of_def vid_handle_notifications_def Let_def Notification_self)

text \<open>
  C7 (as stated, refuted). From the start state with the default settings, one short-press
  leaves the active index at 0 and arms the inactivity deadline with 10000 ms.
\<close>

theorem parm_group0_timeout_counterexample:
  "cur_parm_index (fst (vid_task_pass VID_NOTIFY_PARM_CHANGE_MASK 0
       (vid_task_init ps_defaults))) = 0
   \<and> parm_entry_timeout (fst (vid_task_pass VID_NOTIFY_PARM_CHANGE_MASK 0
       (vid_task_init ps_defaults))) = 10000"
proof -
  have i: "cur_parm_index (vid_task_init ps_defaults) = 0"
    by (simp add: vid_task_init_def Let_def)
  show ?thesis
    by (simp add: pass_after_eval eval_by_branch branch_after_change i
          PARM_ENTRY_TIMEOUT_MSEC_def CTRL_BTN_LONG_PRESS_MSEC_def)
qed

text \<open>
  C7 (amended). In every state reached from the start of the video task by any sequence of
  passes (with any notification bits and clock readings), if the active index is 0 then
  the inactivity deadline is disarmed exactly when no short-press has been processed since
  the session entered group 0 (at start, by the long-press that wraps around, or by the
  timeout).
\<close>

theorem parm_group0_timeout:
  "cur_parm_index (fst (parm_run es (vid_task_init p, False))) = 0 \<longrightarrow>
     (parm_entry_timeout (fst (parm_run es (vid_task_init p, False))) = 0) =
     (\<not> snd (parm_run es (vid_task_init p, False)))"
  using parm_run_inv[OF parm_init_inv, of es p]
  by (cases "parm_run es (vid_task_init p, False)")
     (auto simp: parm_inv_def PARM_ENTRY_TIMEOUT_MSEC_def CTRL_BTN_LONG_PRESS_MSEC_def
        split: if_splits)

theorem parm_group0_timeout_witness:
  "cur_parm_index (fst (parm_run [(VID_NOTIFY_PARM_CHANGE_MASK, 5)]
       (vid_task_init ps_defaults, False))) = 0
   \<and> parm_entry_timeout (fst (parm_run [(VID_NOTIFY_PARM_CHANGE_MASK, 5)]
       (vid_task_init ps_defaults, False))) \<noteq> 0
   \<and> snd (parm_run [(VID_NOTIFY_PARM_CHANGE_MASK, 5)] (vid_task_init ps_defaults, False))"
proof -
  have i: "cur_parm_index (vid_task_init ps_defaults) = 0"
    by (simp add: vid_task_init_def Let_def)
  have a: "cur_parm_index (fst (parm_run [(VID_NOTIFY_PARM_CHANGE_MASK, 5)]
       (vid_task_init ps_defaults, False))) = 0"
    by (simp add: pass_after_eval eval_by_branch branch_after_change i)
  have b: "snd (parm_run [(VID_NOTIFY_PARM_CHANGE_MASK, 5)] (vid_task_init ps_defaults, False))"
    by (simp add: branch_after_change)
  from parm_group0_timeout [of "[(VID_NOTIFY_PARM_CHANGE_MASK, 5)]" ps_defaults] a b
  show ?thesis by blast
qed

lemma sess_rel_alt:
  "sess_rel a b = (\<exists>x. a = b\<lparr>prev_time := x\<rparr> \<and> (parm_entry_timeout b \<noteq> 0 \<longrightarrow> x = prev_time b))"
  unfolding sess_rel_def same_but_prev_time_def
  by (cases a; cases b) auto

lemma sess_rel_refl: "sess_rel s s"
  by (simp add: sess_rel_def same_but_prev_time_def)

lemma handle_prev_time:
  "vid_handle_notifications v (s\<lparr>prev_time := x\<rparr>) = (vid_handle_notifications v s)\<lparr>prev_time := x\<rparr>"
  by (simp add: vid_handle_notifications_def Let_def)

lemma store_prev_time:
  "store_cur_parm (s\<lparr>prev_time := x\<rparr>) = (store_cur_parm s)\<lparr>prev_time := x\<rparr>"
  by (simp add: store_cur_parm_def)

lemma store_sel_flag:
  "store_cur_parm (s\<lparr>notify_parm_sel_change := b\<rparr>) =
     (store_cur_parm s)\<lparr>notify_parm_sel_change := b\<rparr>"
  by (simp add: store_cur_parm_def)

lemma value_change_prev_time:
  "parm_value_change now (s\<lparr>prev_time := x\<rparr>) = parm_value_change now s"
  by (simp add: parm_value_change_def Let_def)

lemma select_change_prev_time:
  "parm_select_change now (s\<lparr>prev_time := x\<rparr>) =
     (if cur_parm_index s + 1 = NUM_PARMS then (parm_select_change now s)\<lparr>prev_time := x\<rparr>
      else parm_select_change now s)"
  by (simp add: parm_select_change_def Let_def store_sel_flag store_prev_time)

lemma branch_prev_time:
  "parm_entry_timeout s = 0 \<Longrightarrow> parm_branch_of now (s\<lparr>prev_time := x\<rparr>) = parm_branch_of now s"
  by (simp add: parm_branch_of_def)

lemma branch_no_timeout:
  "parm_entry_timeout s = 0 \<Longrightarrow> parm_branch_of now s \<noteq> Timeout_fired"
  by (simp add: parm_branch_of_def)

lemma eval_prev_time:
  assumes "parm_entry_timeout s = 0"
  shows "\<exists>y. vid_eval_parm_update now (s\<lparr>prev_time := x\<rparr>) =
              (vid_eval_parm_update now s)\<lparr>prev_time := y\<rparr>
     \<and> (parm_entry_timeout (vid_eval_parm_update now s) \<noteq> 0 \<longrightarrow>
          y = prev_time (vid_eval_parm_update now s))"
proof (cases "parm_branch_of now s")
  case Value_change
  then show ?thesis
    using assms
    by (intro exI[of _ now])
       (simp add: eval_by_branch branch_prev_time value_change_prev_time)
next
  case Select_change
  then show ?thesis
    using assms
    by (intro exI[of _ "if cur_parm_index s + 1 = NUM_PARMS then x else now"])
       (simp add: eval_by_branch branch_prev_time select_change_prev_time)
next
  case Timeout_fired
  with branch_no_timeout[OF assms] show ?thesis by simp
next
  case No_change
  then show ?thesis
    using assms
    by (intro exI[of _ x]) (simp add: eval_by_branch branch_prev_time)
qed

lemma pass_rel:
  assumes "sess_rel a b"
  shows "sess_rel (fst (vid_task_pass v now a)) (fst (vid_task_pass v now b))"
proof -
  from assms obtain x where a: "a = b\<lparr>prev_time := x\<rparr>"
    and x: "parm_entry_timeout b \<noteq> 0 \<longrightarrow> x = prev_time b"
    unfolding sess_rel_alt by blast
  show ?thesis
  proof (cases "parm_entry_timeout b = 0")
    case False
    with x a have "a = b" by simp
    then show ?thesis by (simp add: sess_rel_refl)
  next
    case True
    then have t0: "parm_entry_timeout (vid_handle_notifications v b) = 0" by simp
    from eval_prev_time[OF t0, of now x] obtain y where
      y: "vid_eval_parm_update now ((vid_handle_notifications v b)\<lparr>prev_time := x\<rparr>) =
            (vid_eval_parm_update now (vid_handle_notifications v b))\<lparr>prev_time := y\<rparr>"
      and yc: "parm_entry_timeout (vid_eval_parm_update now (vid_handle_notifications v b)) \<noteq> 0
            \<longrightarrow> y = prev_time (vid_eval_parm_update now (vid_handle_notifications v b))"
      by blast
    have "fst (vid_task_pass v now a) = (fst (vid_task_pass v now b))\<lparr>prev_time := y\<rparr>"
      unfolding a pass_after_eval handle_prev_time y by simp
    moreover have "parm_entry_timeout (fst (vid_task_pass v now b)) \<noteq> 0 \<longrightarrow>
        y = prev_time (fst (vid_task_pass v now b))"
      using yc unfolding pass_after_eval by simp
    ultimately show ?thesis unfolding sess_rel_alt by blast
  qed
qed

lemma run_rel:
  "sess_rel a b \<Longrightarrow> sess_rel (vid_task_run es a) (vid_task_run es b)"
proof (induction es arbitrary: a b)
  case Nil
  then show ?case by simp
next
  case (Cons e es)
  obtain v now where e: "e = (v, now)" by (cases e)
  show ?case unfolding e vid_task_run.simps
    by (rule Cons.IH, rule pass_rel, rule Cons.prems)
qed

lemma vid_task_run_append:
  "vid_task_run (xs @ ys) s = vid_task_run ys (vid_task_run xs s)"
  by (induction xs arbitrary: s) auto

lemma handle_none: "vid_handle_notifications 0 s = s"
  by (simp add: vid_handle_notifications_def Let_def Notification_def
        VID_NOTIFY_LEP_FRAME_MASK_1_def VID_NOTIFY_LEP_FRAME_MASK_2_def
        VID_NOTIFY_PARM_CHANGE_MASK_def VID_NOTIFY_PARM_SELECT_MASK_def)

lemma handle_select:
  "vid_handle_notifications VID_NOTIFY_PARM_SELECT_MASK s = s\<lparr>notify_parm_sel_change := True\<rparr>"
  by (simp add: vid_handle_notifications_def Let_def Notification_def
        VID_NOTIFY_LEP_FRAME_MASK_1_def VID_NOTIFY_LEP_FRAME_MASK_2_def
        VID_NOTIFY_PARM_CHANGE_MASK_def VID_NOTIFY_PARM_SELECT_MASK_def)

lemma store_cur_parm_other [simp]:
  "notify_parm_val_change (store_cur_parm s) = notify_parm_val_change s"
  "notify_parm_sel_change (store_cur_parm s) = notify_parm_sel_change s"
  "gui_state (store_cur_parm s) = gui_state s"
  "cur_parm_max_index (store_cur_parm s) = cur_parm_max_index s"
  "lep_emissivity (store_cur_parm s) = lep_emissivity s"
  by (simp_all add: store_cur_parm_def)

lemma store_cur_parm_ps:
  "ps (store_cur_parm s) =
    (if cur_parm_index s = PARM_INDEX_EMISSIVITY then
       ps_set_parm PS_PARM_EMISSIVITY (parm_e_value ! nat (cur_parm_value s)) (ps s)
     else if cur_parm_index s = PARM_INDEX_UNITS then
       ps_set_parm PS_PARM_UNITS (cur_parm_value s) (ps s)
     else ps_set_parm PS_PARM_PALETTE_MARKER (cur_parm_value s) (ps s))"
  by (simp add: store_cur_parm_def)

lemma parm_select_change_other [simp]:
  "notify_parm_val_change (parm_select_change now s) = notify_parm_val_change s"
  "notify_parm_sel_change (parm_select_change now s) = False"
  "gui_state (parm_select_change now s) = gui_state s"
  "lep_emissivity (parm_select_change now s) = lep_emissivity s"
  "ps (parm_select_change now s) =
     (if cur_parm_value s \<noteq> prev_parm_value s then ps (store_cur_parm s) else ps s)"
  by (simp_all add: parm_select_change_def Let_def store_cur_parm_ps)

lemma parm_select_change_value:
  "cur_parm_value (parm_select_change now s) =
     (if cur_parm_index s + 1 = PARM_INDEX_EMISSIVITY then
        vid_get_emissivity_index (ps_get_parm PS_PARM_EMISSIVITY (ps (parm_select_change now s)))
      else if cur_parm_index s + 1 = PARM_INDEX_UNITS then
        ps_get_parm PS_PARM_UNITS (ps (parm_select_change now s))
      else ps_get_parm PS_PARM_PALETTE_MARKER (ps (parm_select_change now s)))"
  "prev_parm_value (parm_select_change now s) = cur_parm_value (parm_select_change now s)"
  "cur_parm_max_index (parm_select_change now s) =
     (if cur_parm_index s + 1 = PARM_INDEX_EMISSIVITY then NUM_E_PARM_VALS - 1
      else if cur_parm_index s + 1 = PARM_INDEX_UNITS then NUM_U_PARM_VALS - 1
      else NUM_M_PARM_VALS - 1)"
  by (simp_all add: parm_select_change_def Let_def NUM_PARMS_def PARM_INDEX_EMISSIVITY_def
        PARM_INDEX_UNITS_def store_cur_parm_ps)

lemma parm_timeout_expired_other [simp]:
  "notify_parm_val_change (parm_timeout_expired s) = notify_parm_val_change s"
  "notify_parm_sel_change (parm_timeout_expired s) = notify_parm_sel_change s"
  "gui_state (parm_timeout_expired s) = gui_state s"
  "lep_emissivity (parm_timeout_expired s) = lep_emissivity s"
  "ps (parm_timeout_expired s) =
     (if cur_parm_value s \<noteq> prev_parm_value s then ps (store_cur_parm s) else ps s)"
  "cur_parm_value (parm_timeout_expired s) =
     ps_get_parm PS_PARM_PALETTE_MARKER (ps (parm_timeout_expired s))"
  "prev_parm_value (parm_timeout_expired s) = cur_parm_value (parm_timeout_expired s)"
  "cur_parm_max_index (parm_timeout_expired s) = NUM_M_PARM_VALS - 1"
  by (simp_all add: parm_timeout_expired_def Let_def store_cur_parm_ps)

lemma branch_select:
  "\<not> notify_parm_val_change s \<Longrightarrow>
   parm_branch_of t (vid_handle_notifications VID_NOTIFY_PARM_SELECT_MASK s) = Select_change"
  by (simp add: handle_select parm_branch_of_def)

lemma branch_timeout:
  "\<not> notify_parm_val_change s \<Longrightarrow> \<not> notify_parm_sel_change s \<Longrightarrow>
   parm_entry_timeout s \<noteq> 0 \<Longrightarrow> parm_entry_timeout s \<le> now - prev_time s \<Longrightarrow>
   parm_branch_of now (vid_handle_notifications 0 s) = Timeout_fired"
  by (simp add: handle_none parm_branch_of_def)

lemma pass_select:
  "\<not> notify_parm_val_change s \<Longrightarrow>
   fst (vid_task_pass VID_NOTIFY_PARM_SELECT_MASK t s) =
     (parm_select_change t (s\<lparr>notify_parm_sel_change := True\<rparr>))
       \<lparr>notify_image_1 := False, notify_image_2 := False\<rparr>"
  by (simp add: pass_after_eval eval_by_branch branch_select) (simp add: handle_select)

lemma pass_timeout:
  "\<not> notify_parm_val_change s \<Longrightarrow> \<not> notify_parm_sel_change s \<Longrightarrow>
   parm_entry_timeout s \<noteq> 0 \<Longrightarrow> parm_entry_timeout s \<le> now - prev_time s \<Longrightarrow>
   fst (vid_task_pass 0 now s) =
     (parm_timeout_expired s)\<lparr>notify_image_1 := False, notify_image_2 := False\<rparr>"
  by (simp add: pass_after_eval eval_by_branch branch_timeout) (simp add: handle_none)

lemmas parm_fields = parm_select_change_value store_cur_parm_ps NUM_PARMS_def
  PARM_INDEX_EMISSIVITY_def PARM_INDEX_UNITS_def PARM_INDEX_MARKER_def

lemma long_from_units:
  assumes "cur_parm_index s = 2" "\<not> notify_parm_val_change s" "\<not> notify_parm_sel_change s"
    "parm_entry_timeout s \<noteq> 0" "parm_entry_timeout s \<le> now - prev_time s"
  shows "vid_task_run [(VID_NOTIFY_PARM_SELECT_MASK, t1)] s = fst (vid_task_pass 0 now s)"
  unfolding vid_task_run.simps pass_select[OF assms(2)] pass_timeout[OF assms(2,3,4,5)]
  by (rule vid_t.equality) (use assms in \<open>simp_all add: parm_fields\<close>)

lemma long_from_emissivity:
  assumes "cur_parm_index s = 1" "\<not> notify_parm_val_change s" "\<not> notify_parm_sel_change s"
    "parm_entry_timeout s \<noteq> 0" "parm_entry_timeout s \<le> now - prev_time s"
  shows "vid_task_run [(VID_NOTIFY_PARM_SELECT_MASK, t1), (VID_NOTIFY_PARM_SELECT_MASK, t2)] s =
     (fst (vid_task_pass 0 now s))\<lparr>prev_time := t1\<rparr>"
proof -
  let ?s1 = "fst (vid_task_pass VID_NOTIFY_PARM_SELECT_MASK t1 s)"
  have s1: "?s1 = (parm_select_change t1 (s\<lparr>notify_parm_sel_change := True\<rparr>))
       \<lparr>notify_image_1 := False, notify_image_2 := False\<rparr>"
    by (rule pass_select[OF assms(2)])
  have v1: "\<not> notify_parm_val_change ?s1" unfolding s1 using assms(2) by simp
  have s2: "fst (vid_task_pass VID_NOTIFY_PARM_SELECT_MASK t2 ?s1) =
     (parm_select_change t2 (?s1\<lparr>notify_parm_sel_change := True\<rparr>))
       \<lparr>notify_image_1 := False, notify_image_2 := False\<rparr>"
    by (rule pass_select[OF v1])
  show ?thesis
    unfolding vid_task_run.simps s2 pass_timeout[OF assms(2,3,4,5)]
    unfolding s1
    by (rule vid_t.equality) (use assms in \<open>simp_all add: parm_fields\<close>)
qed

lemma sess_rel_prev_time:
  "parm_entry_timeout b = 0 \<Longrightarrow> sess_rel (b\<lparr>prev_time := x\<rparr>) b"
  unfolding sess_rel_alt by blast

text \<open>
  C6. Take a session state in group 1 or 2 with the deadline armed and no button event
  pending (in group 1 the emissivity index within its table). The pass in which the
  inactivity timeout fires, and instead as many long-press passes as lead back to group 0
  (two from group 1, one from group 2, at any times), reach states that agree in every
  variable of the video task and in the stored settings, except possibly the time stamp
  \<^verbatim>\<open>prev_time\<close>, which is read only while a deadline is armed: after any further
  passes whatsoever the two runs still agree in the same way. In the state reached a
  pending change has been stored, the active index is 0 and the deadline is disarmed.
\<close>

theorem timeout_equals_long_presses:
  assumes "cur_parm_index s = 1 \<or> cur_parm_index s = 2"
    and "\<not> notify_parm_val_change s" and "\<not> notify_parm_sel_change s"
    and "parm_entry_timeout s \<noteq> 0" and "parm_entry_timeout s \<le> now - prev_time s"
    and "length ts = nat (NUM_PARMS - cur_parm_index s)"
    and "cur_parm_index s = 1 \<longrightarrow> 0 \<le> cur_parm_value s \<and> cur_parm_value s < NUM_E_PARM_VALS"
  shows "same_but_prev_time
           (vid_task_run (map (Pair VID_NOTIFY_PARM_SELECT_MASK) ts) s)
           (fst (vid_task_pass 0 now s))
       \<and> (\<forall>es. same_but_prev_time
             (vid_task_run (map (Pair VID_NOTIFY_PARM_SELECT_MASK) ts @ es) s)
             (vid_task_run ((0, now) # es) s))
       \<and> cur_parm_index (fst (vid_task_pass 0 now s)) = 0
       \<and> parm_entry_timeout (fst (vid_task_pass 0 now s)) = 0
       \<and> ps (fst (vid_task_pass 0 now s)) =
           (if cur_parm_value s \<noteq> prev_parm_value s then ps (store_cur_parm s) else ps s)"
proof -
  note pt = pass_timeout [OF assms(2,3,4,5)]
  have i0: "cur_parm_index (fst (vid_task_pass 0 now s)) = 0"
    and t0: "parm_entry_timeout (fst (vid_task_pass 0 now s)) = 0"
    and p0: "ps (fst (vid_task_pass 0 now s)) =
           (if cur_parm_value s \<noteq> prev_parm_value s then ps (store_cur_parm s) else ps s)"
    unfolding pt by simp_all
  have rel: "sess_rel (vid_task_run (map (Pair VID_NOTIFY_PARM_SELECT_MASK) ts) s)
      (fst (vid_task_pass 0 now s))"
  proof (cases "cur_parm_index s = 2")
    case True
    with assms(6) have "length ts = 1" by (simp add: NUM_PARMS_def)
    then obtain t1 where ts: "ts = [t1]" by (cases ts) auto
    show ?thesis
      unfolding ts list.map long_from_units [OF True assms(2,3,4,5)]
      by (rule sess_rel_refl)
  next
    case False
    with assms(1) have one: "cur_parm_index s = 1" by simp
    with assms(6) have "length ts = 2" by (simp add: NUM_PARMS_def)
    then obtain t1 t2 where ts: "ts = [t1, t2]"
      by (cases ts; cases "tl ts") auto
    show ?thesis
      unfolding ts list.map long_from_emissivity [OF one assms(2,3,4,5)]
      by (rule sess_rel_prev_time [OF t0])
  qed
  have all: "\<forall>es. same_but_prev_time
             (vid_task_run (map (Pair VID_NOTIFY_PARM_SELECT_MASK) ts @ es) s)
             (vid_task_run ((0, now) # es) s)"
    using run_rel [OF rel] by (simp add: vid_task_run_append sess_rel_def)
  from rel have "same_but_prev_time
           (vid_task_run (map (Pair VID_NOTIFY_PARM_SELECT_MASK) ts) s)
           (fst (vid_task_pass 0 now s))"
    by (simp add: sess_rel_def)
  with all i0 t0 p0 show ?thesis by blast
qed

theorem timeout_equals_long_presses_witness:
  "cur_parm_index (vid_task_run
       [(VID_NOTIFY_PARM_SELECT_MASK, 0), (VID_NOTIFY_PARM_CHANGE_MASK, 100)]
       (vid_task_init ps_defaults)) = 1
   \<and> cur_parm_value (vid_task_run
       [(VID_NOTIFY_PARM_SELECT_MASK, 0), (VID_NOTIFY_PARM_CHANGE_MASK, 100)]
       (vid_task_init ps_defaults)) = 20
   \<and> parm_entry_timeout (vid_task_run
       [(VID_NOTIFY_PARM_SELECT_MASK, 0), (VID_NOTIFY_PARM_CHANGE_MASK, 100)]
       (vid_task_init ps_defaults)) = 10000
   \<and> same_but_prev_time
       (vid_task_run (map (Pair VID_NOTIFY_PARM_SELECT_MASK) [10200, 10300])
          (vid_task_run [(VID_NOTIFY_PARM_SELECT_MASK, 0), (VID_NOTIFY_PARM_CHANGE_MASK, 100)]
             (vid_task_init ps_defaults)))
       (fst (vid_task_pass 0 10100
          (vid_task_run [(VID_NOTIFY_PARM_SELECT_MASK, 0), (VID_NOTIFY_PARM_CHANGE_MASK, 100)]
             (vid_task_init ps_defaults))))
   \<and> val_emissivity (ps (fst (vid_task_pass 0 10100
          (vid_task_run [(VID_NOTIFY_PARM_SELECT_MASK, 0), (VID_NOTIFY_PARM_CHANGE_MASK, 100)]
             (vid_task_init ps_defaults))))) = 98"
proof -
  let ?w = "vid_task_run [(VID_NOTIFY_PARM_SELECT_MASK, 0), (VID_NOTIFY_PARM_CHANGE_MASK, 100)]
       (vid_task_init ps_defaults)"
  have i: "cur_parm_index ?w = 1" by code_simp
  have v: "cur_parm_value ?w = 20" by code_simp
  have pv: "prev_parm_value ?w = 19" by code_simp
  have t: "parm_entry_timeout ?w = 10000" by code_simp
  have pt: "prev_time ?w = 100" by code_simp
  have h1: "cur_parm_index ?w = 1 \<or> cur_parm_index ?w = 2" using i by simp
  have h2: "\<not> notify_parm_val_change ?w" by code_simp
  have h3: "\<not> notify_parm_sel_change ?w" by code_simp
  have h4: "parm_entry_timeout ?w \<noteq> 0" using t by simp
  have h5: "parm_entry_timeout ?w \<le> 10100 - prev_time ?w" using t pt by simp
  have h6: "length [10200, 10300 :: int] = nat (NUM_PARMS - cur_parm_index ?w)"
    using i by (simp add: NUM_PARMS_def)
  have h7: "cur_parm_index ?w = 1 \<longrightarrow> 0 \<le> cur_parm_value ?w \<and> cur_parm_value ?w < NUM_E_PARM_VALS"
    using v by (simp add: NUM_E_PARM_VALS_def)
  note r = timeout_equals_long_presses [OF h1 h2 h3 h4 h5 h6 h7]
  have e: "val_emissivity (ps (store_cur_parm ?w)) = 98" by code_simp
  have ne: "cur_parm_value ?w \<noteq> prev_parm_value ?w" unfolding v pv by simp
  note r5 = r [THEN conjunct2, THEN conjunct2, THEN conjunct2, THEN conjunct2]
  have "ps (fst (vid_task_pass 0 10100 ?w)) = ps (store_cur_parm ?w)"
    using r5 by (simp only: ne simp_thms if_True)
  then have "val_emissivity (ps (fst (vid_task_pass 0 10100 ?w))) = 98"
    by (simp only: e)
  with r i v t show ?thesis by blast
qed

section \<open>Renderer\<close>

subsection \<open>The loops of the interpolating doubler\<close>

lemma outer_row_step:
  "x < W - 1 \<Longrightarrow>
   interp_outer_row_loop W pm src x sp ip B img =
   interp_outer_row_loop W pm src (x + 1) (sp + 1) (ip + 2) (lo8 (src ! (sp + 1)))
     (img[ip := ds_blend B (lo8 (src ! (sp + 1))) XOR pm,
          ip + 1 := ds_blend (lo8 (src ! (sp + 1))) B XOR pm])"
  by (subst interp_outer_row_loop.simps)
     (simp add: Let_def ds_blend_def lo8_def add.commute)

lemma outer_row_stop:
  "\<not> x < W - 1 \<Longrightarrow> interp_outer_row_loop W pm src x sp ip B img = img"
  by (subst interp_outer_row_loop.simps) simp

lemma outer_row_loop_props:
  "W - 1 - x = n \<Longrightarrow> ip + 2 * n \<le> length img \<Longrightarrow> B = lo8 (src ! sp) \<Longrightarrow>
   length (interp_outer_row_loop W pm src x sp ip B img) = length img \<and>
   (\<forall>j. j < ip \<or> ip + 2 * n \<le> j \<longrightarrow>
        interp_outer_row_loop W pm src x sp ip B img ! j = img ! j) \<and>
   (\<forall>k < n.
        interp_outer_row_loop W pm src x sp ip B img ! (ip + 2 * k) =
          ds_blend (lo8 (src ! (sp + k))) (lo8 (src ! (sp + k + 1))) XOR pm \<and>
        interp_outer_row_loop W pm src x sp ip B img ! (ip + 2 * k + 1) =
          ds_blend (lo8 (src ! (sp + k + 1))) (lo8 (src ! (sp + k))) XOR pm)"
proof (induction n arbitrary: x sp ip B img)
  case 0
  then show ?case by (simp add: outer_row_stop)
next
  case (Suc n)
  from Suc.prems(1) have lt: "x < W - 1" and n: "W - 1 - (x + 1) = n" by simp_all
  define B' where "B' = lo8 (src ! (sp + 1))"
  define img2 where "img2 = img[ip := ds_blend B B' XOR pm, ip + 1 := ds_blend B' B XOR pm]"
  let ?r = "interp_outer_row_loop W pm src (x + 1) (sp + 1) (ip + 2) B' img2"
  have step: "interp_outer_row_loop W pm src x sp ip B img = ?r"
    unfolding B'_def img2_def by (rule outer_row_step[OF lt])
  have len2: "length img2 = length img" by (simp add: img2_def)
  have bnd: "ip + 2 + 2 * n \<le> length img2" using Suc.prems(2) len2 by simp
  note ih = Suc.IH[OF n bnd, of B' "sp + 1", unfolded B'_def, OF refl, folded B'_def]
  have i0: "img2 ! ip = ds_blend B B' XOR pm" "img2 ! (ip + 1) = ds_blend B' B XOR pm"
    using Suc.prems(2) by (simp_all add: img2_def)
  have out2: "\<And>j. j \<noteq> ip \<Longrightarrow> j \<noteq> ip + 1 \<Longrightarrow> img2 ! j = img ! j"
    by (simp add: img2_def)
  have a: "length ?r = length img" using ih len2 by simp
  have b: "\<forall>j. j < ip \<or> ip + 2 * Suc n \<le> j \<longrightarrow> ?r ! j = img ! j"
  proof (intro allI impI)
    fix j assume j: "j < ip \<or> ip + 2 * Suc n \<le> j"
    then have "j < ip + 2 \<or> ip + 2 + 2 * n \<le> j" by auto
    with ih have "?r ! j = img2 ! j" by blast
    moreover from j have "j \<noteq> ip" "j \<noteq> ip + 1" by auto
    ultimately show "?r ! j = img ! j" using out2 by simp
  qed
  have c: "\<forall>k < Suc n.
        ?r ! (ip + 2 * k) =
          ds_blend (lo8 (src ! (sp + k))) (lo8 (src ! (sp + k + 1))) XOR pm \<and>
        ?r ! (ip + 2 * k + 1) =
          ds_blend (lo8 (src ! (sp + k + 1))) (lo8 (src ! (sp + k))) XOR pm"
  proof (intro allI impI)
    fix k assume k: "k < Suc n"
    show "?r ! (ip + 2 * k) =
          ds_blend (lo8 (src ! (sp + k))) (lo8 (src ! (sp + k + 1))) XOR pm \<and>
        ?r ! (ip + 2 * k + 1) =
          ds_blend (lo8 (src ! (sp + k + 1))) (lo8 (src ! (sp + k))) XOR pm"
    proof (cases k)
      case 0
      from ih have "?r ! ip = img2 ! ip" "?r ! (ip + 1) = img2 ! (ip + 1)" by simp_all
      with 0 i0 Suc.prems(3) show ?thesis by (simp add: B'_def)
    next
      case (Suc k')
      with k have "k' < n" by simp
      with ih have "?r ! (ip + 2 + 2 * k') =
          ds_blend (lo8 (src ! (sp + 1 + k'))) (lo8 (src ! (sp + 1 + k' + 1))) XOR pm"
        "?r ! (ip + 2 + 2 * k' + 1) =
          ds_blend (lo8 (src ! (sp + 1 + k' + 1))) (lo8 (src ! (sp + 1 + k'))) XOR pm"
        by simp_all
      with Suc show ?thesis by (simp add: add.commute add.left_commute)
    qed
  qed
  from a b c show ?case unfolding step by blast
qed

lemma outer_col_step:
  "y < H - 1 \<Longrightarrow>
   interp_outer_col_loop W H pm src y sp ip B img =
   interp_outer_col_loop W H pm src (y + 1) (sp + W) (ip + 2 * W + 2 * W) (lo8 (src ! (sp + W)))
     (img[ip := ds_blend B (lo8 (src ! (sp + W))) XOR pm,
          ip + 2 * W := ds_blend (lo8 (src ! (sp + W))) B XOR pm])"
  by (subst interp_outer_col_loop.simps)
     (simp add: Let_def ds_blend_def lo8_def add.commute)

lemma outer_col_stop:
  "\<not> y < H - 1 \<Longrightarrow> interp_outer_col_loop W H pm src y sp ip B img = img"
  by (subst interp_outer_col_loop.simps) simp

lemma outer_col_loop_props:
  "H - 1 - y = n \<Longrightarrow> 0 < W \<Longrightarrow> \<forall>i < 2 * n. ip + 2 * W * i < length img \<Longrightarrow>
   B = lo8 (src ! sp) \<Longrightarrow>
   length (interp_outer_col_loop W H pm src y sp ip B img) = length img \<and>
   (\<forall>j. (\<forall>i < 2 * n. j \<noteq> ip + 2 * W * i) \<longrightarrow>
        interp_outer_col_loop W H pm src y sp ip B img ! j = img ! j) \<and>
   (\<forall>k < n.
        interp_outer_col_loop W H pm src y sp ip B img ! (ip + 2 * W * (2 * k)) =
          ds_blend (lo8 (src ! (sp + W * k))) (lo8 (src ! (sp + W * (k + 1)))) XOR pm \<and>
        interp_outer_col_loop W H pm src y sp ip B img ! (ip + 2 * W * (2 * k + 1)) =
          ds_blend (lo8 (src ! (sp + W * (k + 1)))) (lo8 (src ! (sp + W * k))) XOR pm)"
proof (induction n arbitrary: y sp ip B img)
  case 0
  then show ?case by (simp add: outer_col_stop)
next
  case (Suc n)
  from Suc.prems(1) have lt: "y < H - 1" and n: "H - 1 - (y + 1) = n" by simp_all
  note W = Suc.prems(2)
  define B' where "B' = lo8 (src ! (sp + W))"
  define img2 where "img2 = img[ip := ds_blend B B' XOR pm, ip + 2 * W := ds_blend B' B XOR pm]"
  let ?ip2 = "ip + 2 * W + 2 * W"
  let ?r = "interp_outer_col_loop W H pm src (y + 1) (sp + W) ?ip2 B' img2"
  have step: "interp_outer_col_loop W H pm src y sp ip B img = ?r"
    unfolding B'_def img2_def by (rule outer_col_step[OF lt])
  have len2: "length img2 = length img" by (simp add: img2_def)
  have bnd: "\<forall>i < 2 * n. ?ip2 + 2 * W * i < length img2"
  proof (intro allI impI)
    fix i assume "i < 2 * n"
    then have "i + 2 < 2 * Suc n" by simp
    with Suc.prems(3) have "ip + 2 * W * (i + 2) < length img" by blast
    then show "?ip2 + 2 * W * i < length img2" by (simp add: len2 algebra_simps)
  qed
  note ih = Suc.IH[OF n W bnd, of B' "sp + W", unfolded B'_def, OF refl, folded B'_def]
  have b0: "ip < length img" "ip + 2 * W < length img"
    using Suc.prems(3)[rule_format, of 0] Suc.prems(3)[rule_format, of 1] by simp_all
  have i0: "img2 ! ip = ds_blend B B' XOR pm" "img2 ! (ip + 2 * W) = ds_blend B' B XOR pm"
    using b0 W by (simp_all add: img2_def)
  have out2: "\<And>j. j \<noteq> ip \<Longrightarrow> j \<noteq> ip + 2 * W \<Longrightarrow> img2 ! j = img ! j"
    by (simp add: img2_def)
  have a: "length ?r = length img" using ih len2 by simp
  have b: "\<forall>j. (\<forall>i < 2 * Suc n. j \<noteq> ip + 2 * W * i) \<longrightarrow> ?r ! j = img ! j"
  proof (intro allI impI)
    fix j assume j: "\<forall>i < 2 * Suc n. j \<noteq> ip + 2 * W * i"
    have "\<forall>i < 2 * n. j \<noteq> ?ip2 + 2 * W * i"
    proof (intro allI impI)
      fix i assume "i < 2 * n"
      then have "i + 2 < 2 * Suc n" by simp
      with j have "j \<noteq> ip + 2 * W * (i + 2)" by blast
      then show "j \<noteq> ?ip2 + 2 * W * i" by (simp add: algebra_simps)
    qed
    with ih have "?r ! j = img2 ! j" by blast
    moreover from j[rule_format, of 0] j[rule_format, of 1] have "j \<noteq> ip" "j \<noteq> ip + 2 * W"
      by simp_all
    ultimately show "?r ! j = img ! j" using out2 by simp
  qed
  have keep: "?r ! ip = img2 ! ip" "?r ! (ip + 2 * W) = img2 ! (ip + 2 * W)"
    using ih W by simp_all
  have c: "\<forall>k < Suc n.
        ?r ! (ip + 2 * W * (2 * k)) =
          ds_blend (lo8 (src ! (sp + W * k))) (lo8 (src ! (sp + W * (k + 1)))) XOR pm \<and>
        ?r ! (ip + 2 * W * (2 * k + 1)) =
          ds_blend (lo8 (src ! (sp + W * (k + 1)))) (lo8 (src ! (sp + W * k))) XOR pm"
  proof (intro allI impI)
    fix k assume k: "k < Suc n"
    show "?r ! (ip + 2 * W * (2 * k)) =
          ds_blend (lo8 (src ! (sp + W * k))) (lo8 (src ! (sp + W * (k + 1)))) XOR pm \<and>
        ?r ! (ip + 2 * W * (2 * k + 1)) =
          ds_blend (lo8 (src ! (sp + W * (k + 1)))) (lo8 (src ! (sp + W * k))) XOR pm"
    proof (cases k)
      case 0
      with keep i0 Suc.prems(4) show ?thesis by (simp add: B'_def)
    next
      case (Suc k')
      with k have "k' < n" by simp
      with ih have "?r ! (?ip2 + 2 * W * (2 * k')) =
          ds_blend (lo8 (src ! (sp + W + W * k'))) (lo8 (src ! (sp + W + W * (k' + 1)))) XOR pm"
        "?r ! (?ip2 + 2 * W * (2 * k' + 1)) =
          ds_blend (lo8 (src ! (sp + W + W * (k' + 1)))) (lo8 (src ! (sp + W + W * k'))) XOR pm"
        by simp_all
      moreover have "ip + 2 * W * (2 * k) = ?ip2 + 2 * W * (2 * k')"
        "ip + 2 * W * (2 * k + 1) = ?ip2 + 2 * W * (2 * k' + 1)"
        "sp + W * k = sp + W + W * k'" "sp + W * (k + 1) = sp + W + W * (k' + 1)"
        using Suc by (simp_all add: algebra_simps)
      ultimately show ?thesis by (simp only:)
    qed
  qed
  from a b c show ?case unfolding step by blast
qed

lemma inner_x_step:
  "x < W - 1 \<Longrightarrow>
   interp_inner_x_loop W pm src x sp ip B D img =
   interp_inner_x_loop W pm src (x + 1) (sp + 1) (ip + 2)
     (lo8 (src ! (sp + 1))) (lo8 (src ! (sp + 1 + W)))
     (img[ip := qs_blend B (lo8 (src ! (sp + 1))) D (lo8 (src ! (sp + 1 + W))) XOR pm,
          ip + 2 * W := qs_blend D B (lo8 (src ! (sp + 1))) (lo8 (src ! (sp + 1 + W))) XOR pm,
          ip + 1 := qs_blend (lo8 (src ! (sp + 1))) B D (lo8 (src ! (sp + 1 + W))) XOR pm,
          ip + 1 + 2 * W :=
            qs_blend (lo8 (src ! (sp + 1 + W))) B (lo8 (src ! (sp + 1))) D XOR pm])"
  by (subst interp_inner_x_loop.simps)
     (simp add: Let_def qs_blend_def lo8_def add.commute add.left_commute)

lemma inner_x_stop:
  "\<not> x < W - 1 \<Longrightarrow> interp_inner_x_loop W pm src x sp ip B D img = (sp, ip, img)"
  by (subst interp_inner_x_loop.simps) simp

lemma inner_x_loop_props:
  "W - 1 - x = n \<Longrightarrow> ip + 2 * W + 2 * n \<le> length img \<Longrightarrow>
   B = lo8 (src ! sp) \<Longrightarrow> D = lo8 (src ! (sp + W)) \<Longrightarrow>
   \<exists>img'. interp_inner_x_loop W pm src x sp ip B D img = (sp + n, ip + 2 * n, img') \<and>
     length img' = length img \<and>
     (\<forall>j. \<not> (ip \<le> j \<and> j < ip + 2 * n) \<and> \<not> (ip + 2 * W \<le> j \<and> j < ip + 2 * W + 2 * n)
          \<longrightarrow> img' ! j = img ! j) \<and>
     (\<forall>k < n.
        img' ! (ip + 2 * k) =
          qs_blend (lo8 (src ! (sp + k))) (lo8 (src ! (sp + k + 1)))
                   (lo8 (src ! (sp + k + W))) (lo8 (src ! (sp + k + 1 + W))) XOR pm \<and>
        img' ! (ip + 2 * k + 2 * W) =
          qs_blend (lo8 (src ! (sp + k + W))) (lo8 (src ! (sp + k)))
                   (lo8 (src ! (sp + k + 1))) (lo8 (src ! (sp + k + 1 + W))) XOR pm \<and>
        img' ! (ip + 2 * k + 1) =
          qs_blend (lo8 (src ! (sp + k + 1))) (lo8 (src ! (sp + k)))
                   (lo8 (src ! (sp + k + W))) (lo8 (src ! (sp + k + 1 + W))) XOR pm \<and>
        img' ! (ip + 2 * k + 1 + 2 * W) =
          qs_blend (lo8 (src ! (sp + k + 1 + W))) (lo8 (src ! (sp + k)))
                   (lo8 (src ! (sp + k + 1))) (lo8 (src ! (sp + k + W))) XOR pm)"
proof (induction n arbitrary: x sp ip B D img)
  case 0
  then show ?case by (simp add: inner_x_stop)
next
  case (Suc n)
  from Suc.prems(1) have lt: "x < W - 1" and n: "W - 1 - (x + 1) = n" and nW: "Suc n < W"
    by simp_all
  define B' where "B' = lo8 (src ! (sp + 1))"
  define D' where "D' = lo8 (src ! (sp + 1 + W))"
  define p1 where "p1 = qs_blend B B' D D' XOR pm"
  define p2 where "p2 = qs_blend D B B' D' XOR pm"
  define p3 where "p3 = qs_blend B' B D D' XOR pm"
  define p4 where "p4 = qs_blend D' B B' D XOR pm"
  define img2 where "img2 = img[ip := p1, ip + 2 * W := p2, ip + 1 := p3, ip + 1 + 2 * W := p4]"
  have step: "interp_inner_x_loop W pm src x sp ip B D img =
      interp_inner_x_loop W pm src (x + 1) (sp + 1) (ip + 2) B' D' img2"
    unfolding B'_def D'_def p1_def p2_def p3_def p4_def img2_def
    by (rule inner_x_step[OF lt])
  have len2: "length img2 = length img" by (simp add: img2_def)
  have bnd: "ip + 2 + 2 * W + 2 * n \<le> length img2" using Suc.prems(2) len2 by simp
  have D'2: "D' = lo8 (src ! (sp + 1 + W))" by (simp add: D'_def)
  from Suc.IH[OF n bnd, of B' "sp + 1" D', unfolded B'_def, OF refl, folded B'_def, OF D'2]
  obtain img' where
    res: "interp_inner_x_loop W pm src (x + 1) (sp + 1) (ip + 2) B' D' img2 =
            (sp + 1 + n, ip + 2 + 2 * n, img')"
    and len: "length img' = length img2"
    and out: "\<And>j. \<not> (ip + 2 \<le> j \<and> j < ip + 2 + 2 * n) \<Longrightarrow>
              \<not> (ip + 2 + 2 * W \<le> j \<and> j < ip + 2 + 2 * W + 2 * n) \<Longrightarrow> img' ! j = img2 ! j"
    and val: "\<And>k. k < n \<Longrightarrow>
        img' ! (ip + 2 + 2 * k) =
          qs_blend (lo8 (src ! (sp + 1 + k))) (lo8 (src ! (sp + 1 + k + 1)))
                   (lo8 (src ! (sp + 1 + k + W))) (lo8 (src ! (sp + 1 + k + 1 + W))) XOR pm \<and>
        img' ! (ip + 2 + 2 * k + 2 * W) =
          qs_blend (lo8 (src ! (sp + 1 + k + W))) (lo8 (src ! (sp + 1 + k)))
                   (lo8 (src ! (sp + 1 + k + 1))) (lo8 (src ! (sp + 1 + k + 1 + W))) XOR pm \<and>
        img' ! (ip + 2 + 2 * k + 1) =
          qs_blend (lo8 (src ! (sp + 1 + k + 1))) (lo8 (src ! (sp + 1 + k)))
                   (lo8 (src ! (sp + 1 + k + W))) (lo8 (src ! (sp + 1 + k + 1 + W))) XOR pm \<and>
        img' ! (ip + 2 + 2 * k + 1 + 2 * W) =
          qs_blend (lo8 (src ! (sp + 1 + k + 1 + W))) (lo8 (src ! (sp + 1 + k)))
                   (lo8 (src ! (sp + 1 + k + 1))) (lo8 (src ! (sp + 1 + k + W))) XOR pm"
    by blast
  have W2: "2 \<le> W" using lt by simp
  have i0: "img2 ! ip = p1" "img2 ! (ip + 2 * W) = p2" "img2 ! (ip + 1) = p3"
    "img2 ! (ip + 1 + 2 * W) = p4"
    using Suc.prems(2) W2 by (simp_all add: img2_def)
  have out2: "\<And>j. j \<noteq> ip \<Longrightarrow> j \<noteq> ip + 2 * W \<Longrightarrow> j \<noteq> ip + 1 \<Longrightarrow> j \<noteq> ip + 1 + 2 * W \<Longrightarrow>
      img2 ! j = img ! j"
    by (simp add: img2_def)
  have keep: "img' ! ip = p1" "img' ! (ip + 2 * W) = p2" "img' ! (ip + 1) = p3"
    "img' ! (ip + 1 + 2 * W) = p4"
    using out[of ip] out[of "ip + 2 * W"] out[of "ip + 1"] out[of "ip + 1 + 2 * W"] i0 nW
    by simp_all
  have a: "interp_inner_x_loop W pm src x sp ip B D img = (sp + Suc n, ip + 2 * Suc n, img')"
    unfolding step res by simp
  have b: "\<forall>j. \<not> (ip \<le> j \<and> j < ip + 2 * Suc n) \<and>
      \<not> (ip + 2 * W \<le> j \<and> j < ip + 2 * W + 2 * Suc n) \<longrightarrow> img' ! j = img ! j"
  proof (intro allI impI)
    fix j assume j: "\<not> (ip \<le> j \<and> j < ip + 2 * Suc n) \<and>
      \<not> (ip + 2 * W \<le> j \<and> j < ip + 2 * W + 2 * Suc n)"
    then have "img' ! j = img2 ! j" by (intro out) auto
    moreover from j have "j \<noteq> ip" "j \<noteq> ip + 2 * W" "j \<noteq> ip + 1" "j \<noteq> ip + 1 + 2 * W"
      by auto
    ultimately show "img' ! j = img ! j" using out2 by simp
  qed
  have c: "\<forall>k < Suc n.
        img' ! (ip + 2 * k) =
          qs_blend (lo8 (src ! (sp + k))) (lo8 (src ! (sp + k + 1)))
                   (lo8 (src ! (sp + k + W))) (lo8 (src ! (sp + k + 1 + W))) XOR pm \<and>
        img' ! (ip + 2 * k + 2 * W) =
          qs_blend (lo8 (src ! (sp + k + W))) (lo8 (src ! (sp + k)))
                   (lo8 (src ! (sp + k + 1))) (lo8 (src ! (sp + k + 1 + W))) XOR pm \<and>
        img' ! (ip + 2 * k + 1) =
          qs_blend (lo8 (src ! (sp + k + 1))) (lo8 (src ! (sp + k)))
                   (lo8 (src ! (sp + k + W))) (lo8 (src ! (sp + k + 1 + W))) XOR pm \<and>
        img' ! (ip + 2 * k + 1 + 2 * W) =
          qs_blend (lo8 (src ! (sp + k + 1 + W))) (lo8 (src ! (sp + k)))
                   (lo8 (src ! (sp + k + 1))) (lo8 (src ! (sp + k + W))) XOR pm"
  proof (intro allI impI)
    fix k assume k: "k < Suc n"
    show "img' ! (ip + 2 * k) =
          qs_blend (lo8 (src ! (sp + k))) (lo8 (src ! (sp + k + 1)))
                   (lo8 (src ! (sp + k + W))) (lo8 (src ! (sp + k + 1 + W))) XOR pm \<and>
        img' ! (ip + 2 * k + 2 * W) =
          qs_blend (lo8 (src ! (sp + k + W))) (lo8 (src ! (sp + k)))
                   (lo8 (src ! (sp + k + 1))) (lo8 (src ! (sp + k + 1 + W))) XOR pm \<and>
        img' ! (ip + 2 * k + 1) =
          qs_blend (lo8 (src ! (sp + k + 1))) (lo8 (src ! (sp + k)))
                   (lo8 (src ! (sp + k + W))) (lo8 (src ! (sp + k + 1 + W))) XOR pm \<and>
        img' ! (ip + 2 * k + 1 + 2 * W) =
          qs_blend (lo8 (src ! (sp + k + 1 + W))) (lo8 (src ! (sp + k)))
                   (lo8 (src ! (sp + k + 1))) (lo8 (src ! (sp + k + W))) XOR pm"
    proof (cases k)
      case 0
      with keep Suc.prems(3,4) show ?thesis
        by (simp add: p1_def p2_def p3_def p4_def B'_def D'_def)
    next
      case (Suc k')
      with k have k': "k' < n" by simp
      have e: "ip + 2 * k = ip + 2 + 2 * k'" "sp + k = sp + 1 + k'"
        using Suc by simp_all
      show ?thesis unfolding e using val[OF k'] by blast
    qed
  qed
  from a len len2 b c show ?case by (intro exI[of _ img']) simp
qed

lemma inner_y_step:
  "y < H - 1 \<Longrightarrow>
   interp_inner_y_loop W H pm src y sp ip img =
   (case interp_inner_x_loop W pm src 0 sp ip (lo8 (src ! sp)) (lo8 (src ! (sp + W))) img of
      (sp', ip', img') \<Rightarrow>
        interp_inner_y_loop W H pm src (y + 1) (sp' + 1) (ip' + (2 * W + 2)) img')"
  by (subst interp_inner_y_loop.simps) (simp add: Let_def lo8_def)

lemma inner_y_stop:
  "\<not> y < H - 1 \<Longrightarrow> interp_inner_y_loop W H pm src y sp ip img = img"
  by (subst interp_inner_y_loop.simps) simp

lemma inner_rows_Suc:
  "inner_rows W ip (Suc m) j =
     ((ip \<le> j \<and> j < ip + 2 * (W - 1)) \<or> (ip + 2 * W \<le> j \<and> j < ip + 2 * W + 2 * (W - 1)) \<or>
      inner_rows W (ip + 4 * W) m j)"
proof -
  have "inner_rows W ip (Suc m) j =
     (((ip + 4 * W * 0 \<le> j \<and> j < ip + 4 * W * 0 + 2 * (W - 1)) \<or>
      (ip + 4 * W * 0 + 2 * W \<le> j \<and> j < ip + 4 * W * 0 + 2 * W + 2 * (W - 1))) \<or>
      (\<exists>r < m. (ip + 4 * W * Suc r \<le> j \<and> j < ip + 4 * W * Suc r + 2 * (W - 1)) \<or>
      (ip + 4 * W * Suc r + 2 * W \<le> j \<and> j < ip + 4 * W * Suc r + 2 * W + 2 * (W - 1))))"
    unfolding inner_rows_def
    by (subst Ex_less_Suc2) (rule refl)
  also have "\<dots> = ((ip \<le> j \<and> j < ip + 2 * (W - 1)) \<or> (ip + 2 * W \<le> j \<and> j < ip + 2 * W + 2 * (W - 1)) \<or>
      inner_rows W (ip + 4 * W) m j)"
    unfolding inner_rows_def by (simp add: algebra_simps)
  finally show ?thesis .
qed

lemma inner_y_loop_props:
  "H - 1 - y = m \<Longrightarrow> 0 < W \<Longrightarrow> ip + 4 * W * m \<le> length img + 2 \<Longrightarrow>
   length (interp_inner_y_loop W H pm src y sp ip img) = length img \<and>
   (\<forall>j. \<not> inner_rows W ip m j \<longrightarrow> interp_inner_y_loop W H pm src y sp ip img ! j = img ! j) \<and>
   (\<forall>r < m. \<forall>k < W - 1.
      interp_inner_y_loop W H pm src y sp ip img ! (ip + 4 * W * r + 2 * k) =
        qs_blend (lo8 (src ! (sp + W * r + k))) (lo8 (src ! (sp + W * r + k + 1)))
          (lo8 (src ! (sp + W * r + k + W))) (lo8 (src ! (sp + W * r + k + 1 + W))) XOR pm \<and>
      interp_inner_y_loop W H pm src y sp ip img ! (ip + 4 * W * r + 2 * k + 2 * W) =
        qs_blend (lo8 (src ! (sp + W * r + k + W))) (lo8 (src ! (sp + W * r + k)))
          (lo8 (src ! (sp + W * r + k + 1))) (lo8 (src ! (sp + W * r + k + 1 + W))) XOR pm \<and>
      interp_inner_y_loop W H pm src y sp ip img ! (ip + 4 * W * r + 2 * k + 1) =
        qs_blend (lo8 (src ! (sp + W * r + k + 1))) (lo8 (src ! (sp + W * r + k)))
          (lo8 (src ! (sp + W * r + k + W))) (lo8 (src ! (sp + W * r + k + 1 + W))) XOR pm \<and>
      interp_inner_y_loop W H pm src y sp ip img ! (ip + 4 * W * r + 2 * k + 1 + 2 * W) =
        qs_blend (lo8 (src ! (sp + W * r + k + 1 + W))) (lo8 (src ! (sp + W * r + k)))
          (lo8 (src ! (sp + W * r + k + 1))) (lo8 (src ! (sp + W * r + k + W))) XOR pm)"
proof (induction m arbitrary: y sp ip img)
  case 0
  then show ?case by (simp add: inner_y_stop inner_rows_def)
next
  case (Suc m)
  from Suc.prems(1) have lt: "y < H - 1" and m: "H - 1 - (y + 1) = m" by simp_all
  note W = Suc.prems(2)
  have xb: "ip + 2 * W + 2 * (W - 1) \<le> length img"
    using Suc.prems(3) W by (simp add: algebra_simps)
  have x0: "W - 1 - 0 = W - 1" by simp
  from inner_x_loop_props[OF x0 xb refl refl, where src=src and sp=sp and pm=pm]
  obtain img1 where
    res: "interp_inner_x_loop W pm src 0 sp ip (lo8 (src ! sp)) (lo8 (src ! (sp + W))) img =
            (sp + (W - 1), ip + 2 * (W - 1), img1)"
    and len1: "length img1 = length img"
    and out1: "\<And>j. \<not> (ip \<le> j \<and> j < ip + 2 * (W - 1)) \<Longrightarrow>
              \<not> (ip + 2 * W \<le> j \<and> j < ip + 2 * W + 2 * (W - 1)) \<Longrightarrow> img1 ! j = img ! j"
    and val1: "\<And>k. k < W - 1 \<Longrightarrow>
        img1 ! (ip + 2 * k) =
          qs_blend (lo8 (src ! (sp + k))) (lo8 (src ! (sp + k + 1)))
                   (lo8 (src ! (sp + k + W))) (lo8 (src ! (sp + k + 1 + W))) XOR pm \<and>
        img1 ! (ip + 2 * k + 2 * W) =
          qs_blend (lo8 (src ! (sp + k + W))) (lo8 (src ! (sp + k)))
                   (lo8 (src ! (sp + k + 1))) (lo8 (src ! (sp + k + 1 + W))) XOR pm \<and>
        img1 ! (ip + 2 * k + 1) =
          qs_blend (lo8 (src ! (sp + k + 1))) (lo8 (src ! (sp + k)))
                   (lo8 (src ! (sp + k + W))) (lo8 (src ! (sp + k + 1 + W))) XOR pm \<and>
        img1 ! (ip + 2 * k + 1 + 2 * W) =
          qs_blend (lo8 (src ! (sp + k + 1 + W))) (lo8 (src ! (sp + k)))
                   (lo8 (src ! (sp + k + 1))) (lo8 (src ! (sp + k + W))) XOR pm"
    by blast
  let ?r = "interp_inner_y_loop W H pm src (y + 1) (sp + W) (ip + 4 * W) img1"
  have e1: "sp + (W - 1) + 1 = sp + W" "ip + 2 * (W - 1) + (2 * W + 2) = ip + 4 * W"
    using W by (simp_all add: algebra_simps)
  have step: "interp_inner_y_loop W H pm src y sp ip img = ?r"
    unfolding inner_y_step[OF lt] res by (simp only: prod.case e1)
  have bnd: "ip + 4 * W + 4 * W * m \<le> length img1 + 2"
    using Suc.prems(3) len1 by (simp add: algebra_simps)
  note ih = Suc.IH[OF m W bnd, of "sp + W"]
  have a: "length ?r = length img" using ih len1 by simp
  have b: "\<forall>j. \<not> inner_rows W ip (Suc m) j \<longrightarrow> ?r ! j = img ! j"
  proof (intro allI impI)
    fix j assume j: "\<not> inner_rows W ip (Suc m) j"
    then have "\<not> inner_rows W (ip + 4 * W) m j"
      and j0: "\<not> (ip \<le> j \<and> j < ip + 2 * (W - 1))"
        "\<not> (ip + 2 * W \<le> j \<and> j < ip + 2 * W + 2 * (W - 1))"
      unfolding inner_rows_Suc by blast+
    with ih have "?r ! j = img1 ! j" by blast
    with out1[OF j0] show "?r ! j = img ! j" by simp
  qed
  have first: "\<And>j. j < ip + 4 * W \<Longrightarrow> ?r ! j = img1 ! j"
  proof -
    fix j assume "j < ip + 4 * W"
    then have "\<not> inner_rows W (ip + 4 * W) m j"
      unfolding inner_rows_def by auto
    with ih show "?r ! j = img1 ! j" by blast
  qed
  have c: "\<forall>r < Suc m. \<forall>k < W - 1.
      ?r ! (ip + 4 * W * r + 2 * k) =
        qs_blend (lo8 (src ! (sp + W * r + k))) (lo8 (src ! (sp + W * r + k + 1)))
          (lo8 (src ! (sp + W * r + k + W))) (lo8 (src ! (sp + W * r + k + 1 + W))) XOR pm \<and>
      ?r ! (ip + 4 * W * r + 2 * k + 2 * W) =
        qs_blend (lo8 (src ! (sp + W * r + k + W))) (lo8 (src ! (sp + W * r + k)))
          (lo8 (src ! (sp + W * r + k + 1))) (lo8 (src ! (sp + W * r + k + 1 + W))) XOR pm \<and>
      ?r ! (ip + 4 * W * r + 2 * k + 1) =
        qs_blend (lo8 (src ! (sp + W * r + k + 1))) (lo8 (src ! (sp + W * r + k)))
          (lo8 (src ! (sp + W * r + k + W))) (lo8 (src ! (sp + W * r + k + 1 + W))) XOR pm \<and>
      ?r ! (ip + 4 * W * r + 2 * k + 1 + 2 * W) =
        qs_blend (lo8 (src ! (sp + W * r + k + 1 + W))) (lo8 (src ! (sp + W * r + k)))
          (lo8 (src ! (sp + W * r + k + 1))) (lo8 (src ! (sp + W * r + k + W))) XOR pm"
  proof (intro allI impI)
    fix r k assume r: "r < Suc m" and k: "k < W - 1"
    show "?r ! (ip + 4 * W * r + 2 * k) =
        qs_blend (lo8 (src ! (sp + W * r + k))) (lo8 (src ! (sp + W * r + k + 1)))
          (lo8 (src ! (sp + W * r + k + W))) (lo8 (src ! (sp + W * r + k + 1 + W))) XOR pm \<and>
      ?r ! (ip + 4 * W * r + 2 * k + 2 * W) =
        qs_blend (lo8 (src ! (sp + W * r + k + W))) (lo8 (src ! (sp + W * r + k)))
          (lo8 (src ! (sp + W * r + k + 1))) (lo8 (src ! (sp + W * r + k + 1 + W))) XOR pm \<and>
      ?r ! (ip + 4 * W * r + 2 * k + 1) =
        qs_blend (lo8 (src ! (sp + W * r + k + 1))) (lo8 (src ! (sp + W * r + k)))
          (lo8 (src ! (sp + W * r + k + W))) (lo8 (src ! (sp + W * r + k + 1 + W))) XOR pm \<and>
      ?r ! (ip + 4 * W * r + 2 * k + 1 + 2 * W) =
        qs_blend (lo8 (src ! (sp + W * r + k + 1 + W))) (lo8 (src ! (sp + W * r + k)))
          (lo8 (src ! (sp + W * r + k + 1))) (lo8 (src ! (sp + W * r + k + W))) XOR pm"
    proof (cases r)
      case 0
      have lt4: "ip + 2 * k < ip + 4 * W" "ip + 2 * k + 2 * W < ip + 4 * W"
        "ip + 2 * k + 1 < ip + 4 * W" "ip + 2 * k + 1 + 2 * W < ip + 4 * W"
        using k by simp_all
      have z: "ip + 4 * W * r = ip" "sp + W * r = sp" using 0 by simp_all
      show ?thesis
        unfolding z using val1[OF k] first[OF lt4(1)] first[OF lt4(2)] first[OF lt4(3)]
          first[OF lt4(4)] by simp
    next
      case (Suc r')
      with r have r': "r' < m" by simp
      have e: "ip + 4 * W * r = ip + 4 * W + 4 * W * r'" "sp + W * r = sp + W + W * r'"
        using Suc by (simp_all add: algebra_simps)
      show ?thesis unfolding e using ih r' k by blast
    qed
  qed
  from a b c show ?case unfolding step by blast
qed

subsection \<open>Pixel coordinates\<close>

lemma px_index_div_mod:
  "X < 2 * W \<Longrightarrow> px_index W X Y div (2 * W) = Y \<and> px_index W X Y mod (2 * W) = X"
  by (simp add: px_index_def mult.assoc)

lemma px_index_inj:
  "X < 2 * W \<Longrightarrow> X' < 2 * W \<Longrightarrow> px_index W X Y = px_index W X' Y' \<Longrightarrow> X = X' \<and> Y = Y'"
  by (metis px_index_div_mod)

lemma px_index_less:
  "X < 2 * W \<Longrightarrow> Y < 2 * H \<Longrightarrow> px_index W X Y < 4 * W * H"
proof -
  assume X: "X < 2 * W" and Y: "Y < 2 * H"
  then have "Y + 1 \<le> 2 * H" by simp
  then have "(Y + 1) * (2 * W) \<le> (2 * H) * (2 * W)" by (rule mult_le_mono1)
  moreover have "px_index W X Y < (Y + 1) * (2 * W)"
    using X by (simp add: px_index_def algebra_simps)
  ultimately show ?thesis by (simp add: algebra_simps)
qed

lemma lo8_and_ff: "ucast (v AND 0xFF :: 16 word) = lo8 v"
proof -
  have m: "(0xFF :: 16 word) = mask 8" by (simp add: mask_eq_exp_minus_1)
  show ?thesis
    unfolding lo8_def m
    by (rule bit_word_eqI) (auto simp: bit_simps)
qed

lemma set_pixel_at:
  assumes "x < 2 * W" "X < 2 * W" "px_index W x y < length img"
  shows "interp_set_pixel W pm v img x y ! px_index W X Y =
     (if X = x \<and> Y = y then lo8 v XOR pm else img ! px_index W X Y)"
    and "length (interp_set_pixel W pm v img x y) = length img"
proof -
  have e: "interp_set_pixel W pm v img x y = img[px_index W x y := lo8 v XOR pm]"
    by (simp add: interp_set_pixel_def px_index_def lo8_and_ff)
  show "length (interp_set_pixel W pm v img x y) = length img" by (simp add: e)
  show "interp_set_pixel W pm v img x y ! px_index W X Y =
     (if X = x \<and> Y = y then lo8 v XOR pm else img ! px_index W X Y)"
    using assms px_index_inj[of X W x Y y] by (auto simp: e nth_list_update)
qed

lemma px_index_row_less:
  "X < 2 * W \<Longrightarrow> Y < Y' \<Longrightarrow> px_index W X Y < px_index W X' Y'"
proof -
  assume X: "X < 2 * W" and Y: "Y < Y'"
  then have "Y + 1 \<le> Y'" by simp
  then have "(Y + 1) * (2 * W) \<le> Y' * (2 * W)" by (rule mult_le_mono1)
  moreover have "px_index W X Y < (Y + 1) * (2 * W)"
    using X by (simp add: px_index_def algebra_simps)
  moreover have "Y' * (2 * W) \<le> px_index W X' Y'"
    by (simp add: px_index_def algebra_simps)
  ultimately show ?thesis by linarith
qed

lemma px_index_same_row: "px_index W X Y = px_index W 0 Y + X"
  by (simp add: px_index_def)

lemma odd_or_even_pos:
  "1 \<le> (X::nat) \<Longrightarrow> (\<exists>k. X = 2 * k + 1) \<or> (\<exists>k. X = 2 * k + 2)"
proof (cases "even X")
  case True
  assume "1 \<le> X"
  with True have "X = 2 * (X div 2 - 1) + 2" by (auto elim!: evenE)
  then show ?thesis by blast
next
  case False
  then have "X = 2 * (X div 2) + 1" by (auto elim!: oddE)
  then show ?thesis by blast
qed

lemma nbr_odd [simp]: "nbr (2 * k + 1) = k + 1" "nbr (Suc (2 * k)) = Suc k"
  by (simp_all add: nbr_def)

lemma nbr_even [simp]: "nbr (2 * k + 2) = k" "nbr (Suc (Suc (2 * k))) = k"
  by (simp_all add: nbr_def)

lemma outer_row_loop_at:
  assumes W: "0 < W" and Y0: "Y0 < 2 * H" and len: "length img = 4 * W * H"
    and X: "X < 2 * W" and Y: "Y < 2 * H"
  shows "interp_outer_row_loop W pm src 0 (y0 * W) (px_index W 1 Y0) (lo8 (src ! (y0 * W))) img
           ! px_index W X Y =
      (if Y = Y0 \<and> 1 \<le> X \<and> X \<le> 2 * W - 2
       then ds_blend (src_px W src (X div 2) y0) (src_px W src (nbr X) y0) XOR pm
       else img ! px_index W X Y)"
    and "length (interp_outer_row_loop W pm src 0 (y0 * W) (px_index W 1 Y0)
           (lo8 (src ! (y0 * W))) img) = length img"
proof -
  let ?r = "interp_outer_row_loop W pm src 0 (y0 * W) (px_index W 1 Y0) (lo8 (src ! (y0 * W))) img"
  have n: "W - 1 - 0 = W - 1" by simp
  have "px_index W (2 * W - 1) Y0 < 4 * W * H"
    using W Y0 by (intro px_index_less) simp_all
  then have bnd: "px_index W 1 Y0 + 2 * (W - 1) \<le> length img"
    using W len by (simp add: px_index_def)
  note p = outer_row_loop_props[OF n bnd refl, of pm src "y0 * W"]
  from p show "length ?r = length img" by blast
  show "?r ! px_index W X Y =
      (if Y = Y0 \<and> 1 \<le> X \<and> X \<le> 2 * W - 2
       then ds_blend (src_px W src (X div 2) y0) (src_px W src (nbr X) y0) XOR pm
       else img ! px_index W X Y)"
  proof (cases "Y = Y0 \<and> 1 \<le> X \<and> X \<le> 2 * W - 2")
    case True
    from odd_or_even_pos[of X] True consider k where "X = 2 * k + 1" | k where "X = 2 * k + 2"
      by blast
    then show ?thesis
    proof cases
      case 1
      with True have k: "k < W - 1" by auto
      have i: "px_index W X Y = px_index W 1 Y0 + 2 * k"
        using 1 True by (simp add: px_index_def)
      show ?thesis
        unfolding i using p k True 1 by (simp add: src_px_def)
    next
      case 2
      with True have k: "k < W - 1" by auto
      have i: "px_index W X Y = px_index W 1 Y0 + 2 * k + 1"
        using 2 True by (simp add: px_index_def)
      show ?thesis
        unfolding i using p k True 2 by (simp add: src_px_def)
    qed
  next
    case False
    have "px_index W X Y < px_index W 1 Y0 \<or> px_index W 1 Y0 + 2 * (W - 1) \<le> px_index W X Y"
    proof -
      consider "Y < Y0" | "Y0 < Y" | "Y = Y0" "X = 0" | "Y = Y0" "2 * W - 1 \<le> X"
        using False by linarith
      then show ?thesis
      proof cases
        case 1
        then show ?thesis using px_index_row_less[OF X] by blast
      next
        case 2
        have "px_index W (2 * W - 1) Y0 < px_index W X Y"
          using W 2 by (intro px_index_row_less) simp_all
        then have "px_index W 0 Y0 + (2 * W - 1) < px_index W X Y"
          by (simp add: px_index_def)
        moreover have "px_index W 1 Y0 = px_index W 0 Y0 + 1"
          by (simp add: px_index_def)
        ultimately show ?thesis using W by linarith
      next
        case 3
        then show ?thesis by (simp add: px_index_def)
      next
        case 4
        then show ?thesis using W by (auto simp: px_index_def)
      qed
    qed
    with p have "?r ! px_index W X Y = img ! px_index W X Y" by blast
    with False show ?thesis by (simp only: if_False)
  qed
qed

lemma px_index_col: "px_index W X0 1 + 2 * W * i = px_index W X0 (1 + i)"
  by (simp add: px_index_def algebra_simps)

lemma outer_col_loop_at:
  assumes W: "0 < W" and H: "0 < H" and len: "length img = 4 * W * H"
    and X: "X < 2 * W" and Y: "Y < 2 * H" and X0: "X0 < 2 * W"
  shows "interp_outer_col_loop W H pm src 0 x0 (px_index W X0 1) (lo8 (src ! x0)) img
           ! px_index W X Y =
      (if X = X0 \<and> 1 \<le> Y \<and> Y \<le> 2 * H - 2
       then ds_blend (src_px W src x0 (Y div 2)) (src_px W src x0 (nbr Y)) XOR pm
       else img ! px_index W X Y)"
    and "length (interp_outer_col_loop W H pm src 0 x0 (px_index W X0 1)
           (lo8 (src ! x0)) img) = length img"
proof -
  let ?r = "interp_outer_col_loop W H pm src 0 x0 (px_index W X0 1) (lo8 (src ! x0)) img"
  have n: "H - 1 - 0 = H - 1" by simp
  have bnd: "\<forall>i < 2 * (H - 1). px_index W X0 1 + 2 * W * i < length img"
  proof (intro allI impI)
    fix i assume "i < 2 * (H - 1)"
    then have "1 + i < 2 * H" by simp
    from px_index_less[OF X0 this] show "px_index W X0 1 + 2 * W * i < length img"
      unfolding px_index_col len .
  qed
  note p = outer_col_loop_props[OF n W bnd refl, of pm src x0]
  from p show "length ?r = length img" by blast
  from p have out: "\<And>j. (\<forall>i < 2 * (H - 1). j \<noteq> px_index W X0 (1 + i)) \<Longrightarrow> ?r ! j = img ! j"
    unfolding px_index_col by blast
  from p have val: "\<And>k. k < H - 1 \<Longrightarrow>
        ?r ! (px_index W X0 (1 + 2 * k)) =
          ds_blend (lo8 (src ! (x0 + W * k))) (lo8 (src ! (x0 + W * (k + 1)))) XOR pm \<and>
        ?r ! (px_index W X0 (1 + (2 * k + 1))) =
          ds_blend (lo8 (src ! (x0 + W * (k + 1)))) (lo8 (src ! (x0 + W * k))) XOR pm"
    unfolding px_index_col by blast
  show "?r ! px_index W X Y =
      (if X = X0 \<and> 1 \<le> Y \<and> Y \<le> 2 * H - 2
       then ds_blend (src_px W src x0 (Y div 2)) (src_px W src x0 (nbr Y)) XOR pm
       else img ! px_index W X Y)"
  proof (cases "X = X0 \<and> 1 \<le> Y \<and> Y \<le> 2 * H - 2")
    case True
    from odd_or_even_pos[of Y] True consider k where "Y = 2 * k + 1" | k where "Y = 2 * k + 2"
      by blast
    then show ?thesis
    proof cases
      case 1
      with True have k: "k < H - 1" by auto
      have s: "src_px W src x0 k = lo8 (src ! (x0 + W * k))"
        "src_px W src x0 (k + 1) = lo8 (src ! (x0 + W * (k + 1)))"
        by (simp_all add: src_px_def algebra_simps)
      have i: "px_index W X Y = px_index W X0 (1 + 2 * k)" using 1 True by simp
      show ?thesis
        unfolding i using val[OF k] True 1 s by simp
    next
      case 2
      with True have k: "k < H - 1" by auto
      have s: "src_px W src x0 k = lo8 (src ! (x0 + W * k))"
        "src_px W src x0 (k + 1) = lo8 (src ! (x0 + W * (k + 1)))"
        by (simp_all add: src_px_def algebra_simps)
      have i: "px_index W X Y = px_index W X0 (1 + (2 * k + 1))" using 2 True by simp
      show ?thesis
        unfolding i using val[OF k] True 2 s by simp
    qed
  next
    case False
    have "\<forall>i < 2 * (H - 1). px_index W X Y \<noteq> px_index W X0 (1 + i)"
    proof (intro allI impI notI)
      fix i assume i: "i < 2 * (H - 1)" and e: "px_index W X Y = px_index W X0 (1 + i)"
      from px_index_inj[OF X X0 e] have "X = X0" "Y = 1 + i" by simp_all
      with i False show False by auto
    qed
    from out[OF this] False show ?thesis by (simp only: if_False)
  qed
qed

lemma qs_blend_perm:
  "qs_blend a c b d = qs_blend a b c d"
  "qs_blend a b d c = qs_blend a b c d"
  "qs_blend a d c b = qs_blend a b c d"
  "qs_blend a c d b = qs_blend a b c d"
  "qs_blend a d b c = qs_blend a b c d"
  by (simp_all add: qs_blend_def add_ac)

lemma row_range:
  assumes X: "X < 2 * W" and hi: "hi \<le> 2 * W"
    and lo: "2 * W * a + lo \<le> px_index W X Y" and up: "px_index W X Y < 2 * W * a + hi"
  shows "Y = a \<and> lo \<le> X \<and> X < hi"
proof -
  have "\<not> a < Y"
  proof
    assume "a < Y"
    then have "Suc a \<le> Y" by simp
    then have "2 * W * Suc a \<le> 2 * W * Y" by (rule mult_le_mono2)
    with up hi show False by (simp add: px_index_def algebra_simps)
  qed
  moreover have "\<not> Y < a"
  proof
    assume "Y < a"
    then have "Suc Y \<le> a" by simp
    then have "2 * W * Suc Y \<le> 2 * W * a" by (rule mult_le_mono2)
    with lo X show False by (simp add: px_index_def algebra_simps)
  qed
  ultimately have "Y = a" by simp
  with lo up show ?thesis by (simp add: px_index_def algebra_simps)
qed

lemma inner_rows_px:
  assumes X: "X < 2 * W" and r: "inner_rows W (px_index W 1 1) m (px_index W X Y)"
  shows "1 \<le> X \<and> X \<le> 2 * W - 2 \<and> 1 \<le> Y \<and> Y \<le> 2 * m"
proof -
  from r obtain r where rm: "r < m" and d:
    "(px_index W 1 1 + 4 * W * r \<le> px_index W X Y \<and>
      px_index W X Y < px_index W 1 1 + 4 * W * r + 2 * (W - 1)) \<or>
     (px_index W 1 1 + 4 * W * r + 2 * W \<le> px_index W X Y \<and>
      px_index W X Y < px_index W 1 1 + 4 * W * r + 2 * W + 2 * (W - 1))"
    unfolding inner_rows_def by blast
  have W: "0 < W" using X by simp
  from d show ?thesis
  proof
    assume a: "px_index W 1 1 + 4 * W * r \<le> px_index W X Y \<and>
      px_index W X Y < px_index W 1 1 + 4 * W * r + 2 * (W - 1)"
    have lo: "2 * W * (2 * r + 1) + 1 \<le> px_index W X Y"
      using a by (simp add: px_index_def algebra_simps)
    have up: "px_index W X Y < 2 * W * (2 * r + 1) + (2 * W - 1)"
      using a W by (cases W) (simp_all add: px_index_def algebra_simps)
    from row_range[OF X _ lo up] have "Y = 2 * r + 1 \<and> 1 \<le> X \<and> X < 2 * W - 1" by simp
    with rm show ?thesis by auto
  next
    assume a: "px_index W 1 1 + 4 * W * r + 2 * W \<le> px_index W X Y \<and>
      px_index W X Y < px_index W 1 1 + 4 * W * r + 2 * W + 2 * (W - 1)"
    have lo: "2 * W * (2 * r + 2) + 1 \<le> px_index W X Y"
      using a by (simp add: px_index_def algebra_simps)
    have up: "px_index W X Y < 2 * W * (2 * r + 2) + (2 * W - 1)"
      using a W by (cases W) (simp_all add: px_index_def algebra_simps)
    from row_range[OF X _ lo up] have "Y = 2 * r + 2 \<and> 1 \<le> X \<and> X < 2 * W - 1" by simp
    with rm show ?thesis by auto
  qed
qed

lemma inner_y_loop_at:
  assumes W: "0 < W" and H: "0 < H" and len: "length img = 4 * W * H"
    and X: "X < 2 * W" and Y: "Y < 2 * H"
  shows "interp_inner_y_loop W H pm src 0 0 (px_index W 1 1) img ! px_index W X Y =
      (if 1 \<le> X \<and> X \<le> 2 * W - 2 \<and> 1 \<le> Y \<and> Y \<le> 2 * H - 2
       then qs_blend (src_px W src (X div 2) (Y div 2)) (src_px W src (nbr X) (Y div 2))
              (src_px W src (X div 2) (nbr Y)) (src_px W src (nbr X) (nbr Y)) XOR pm
       else img ! px_index W X Y)"
    and "length (interp_inner_y_loop W H pm src 0 0 (px_index W 1 1) img) = length img"
proof -
  let ?r = "interp_inner_y_loop W H pm src 0 0 (px_index W 1 1) img"
  have n: "H - 1 - 0 = H - 1" by simp
  have "px_index W 1 1 + 4 * W * (H - 1) = 4 * W * H - 2 * W + 1"
    using W H by (cases H) (simp_all add: px_index_def algebra_simps)
  then have bnd: "px_index W 1 1 + 4 * W * (H - 1) \<le> length img + 2"
    using len by simp
  note p = inner_y_loop_props[OF n W bnd, of pm src 0]
  from p show "length ?r = length img" by blast
  from p have out: "\<And>j. \<not> inner_rows W (px_index W 1 1) (H - 1) j \<Longrightarrow> ?r ! j = img ! j"
    by blast
  have i1: "\<And>r k. px_index W 1 1 + 4 * W * r + 2 * k = px_index W (2 * k + 1) (2 * r + 1)"
    and i2: "\<And>r k. px_index W (2 * k + 1) (2 * r + 1) + 2 * W = px_index W (2 * k + 1) (2 * r + 2)"
    and i3: "\<And>r k. px_index W (2 * k + 1) (2 * r + 1) + 1 = px_index W (2 * k + 2) (2 * r + 1)"
    and i4: "\<And>r k. px_index W (2 * k + 2) (2 * r + 1) + 2 * W = px_index W (2 * k + 2) (2 * r + 2)"
    by (simp_all add: px_index_def algebra_simps)
  have s: "\<And>r k. lo8 (src ! (0 + W * r + k)) = src_px W src k r"
    "\<And>r k. lo8 (src ! (0 + W * r + k + 1)) = src_px W src (k + 1) r"
    "\<And>r k. lo8 (src ! (0 + W * r + k + W)) = src_px W src k (r + 1)"
    "\<And>r k. lo8 (src ! (0 + W * r + k + 1 + W)) = src_px W src (k + 1) (r + 1)"
    by (simp_all add: src_px_def algebra_simps)
  from p have val: "\<And>r k. r < H - 1 \<Longrightarrow> k < W - 1 \<Longrightarrow>
      ?r ! px_index W (2 * k + 1) (2 * r + 1) =
        qs_blend (src_px W src k r) (src_px W src (k + 1) r)
          (src_px W src k (r + 1)) (src_px W src (k + 1) (r + 1)) XOR pm \<and>
      ?r ! px_index W (2 * k + 1) (2 * r + 2) =
        qs_blend (src_px W src k (r + 1)) (src_px W src k r)
          (src_px W src (k + 1) r) (src_px W src (k + 1) (r + 1)) XOR pm \<and>
      ?r ! px_index W (2 * k + 2) (2 * r + 1) =
        qs_blend (src_px W src (k + 1) r) (src_px W src k r)
          (src_px W src k (r + 1)) (src_px W src (k + 1) (r + 1)) XOR pm \<and>
      ?r ! px_index W (2 * k + 2) (2 * r + 2) =
        qs_blend (src_px W src (k + 1) (r + 1)) (src_px W src k r)
          (src_px W src (k + 1) r) (src_px W src k (r + 1)) XOR pm"
    unfolding i1 i2 i3 i4 s by blast
  show "?r ! px_index W X Y =
      (if 1 \<le> X \<and> X \<le> 2 * W - 2 \<and> 1 \<le> Y \<and> Y \<le> 2 * H - 2
       then qs_blend (src_px W src (X div 2) (Y div 2)) (src_px W src (nbr X) (Y div 2))
              (src_px W src (X div 2) (nbr Y)) (src_px W src (nbr X) (nbr Y)) XOR pm
       else img ! px_index W X Y)"
  proof (cases "1 \<le> X \<and> X \<le> 2 * W - 2 \<and> 1 \<le> Y \<and> Y \<le> 2 * H - 2")
    case True
    from odd_or_even_pos[of X] True obtain k where
      kx: "X = 2 * k + 1 \<or> X = 2 * k + 2" by blast
    from odd_or_even_pos[of Y] True obtain r where
      ry: "Y = 2 * r + 1 \<or> Y = 2 * r + 2" by blast
    from kx True have k: "k < W - 1" by auto
    from ry True have r: "r < H - 1" by auto
    note v = val[OF r k]
    from kx ry show ?thesis
    proof (elim disjE)
      assume e: "X = 2 * k + 1" "Y = 2 * r + 1"
      show ?thesis using v k r True e by simp
    next
      assume e: "X = 2 * k + 1" "Y = 2 * r + 2"
      have q: "qs_blend (src_px W src k (r + 1)) (src_px W src k r)
          (src_px W src (k + 1) r) (src_px W src (k + 1) (r + 1)) =
        qs_blend (src_px W src k (r + 1)) (src_px W src (k + 1) (r + 1))
          (src_px W src k r) (src_px W src (k + 1) r)"
        by (simp add: qs_blend_def add_ac)
      show ?thesis using v k r q True e by simp
    next
      assume e: "X = 2 * k + 2" "Y = 2 * r + 1"
      have q: "qs_blend (src_px W src (k + 1) r) (src_px W src k r)
          (src_px W src k (r + 1)) (src_px W src (k + 1) (r + 1)) =
        qs_blend (src_px W src (k + 1) r) (src_px W src k r)
          (src_px W src (k + 1) (r + 1)) (src_px W src k (r + 1))"
        by (simp add: qs_blend_def add_ac)
      show ?thesis using v k r q True e by simp
    next
      assume e: "X = 2 * k + 2" "Y = 2 * r + 2"
      have q: "qs_blend (src_px W src (k + 1) (r + 1)) (src_px W src k r)
          (src_px W src (k + 1) r) (src_px W src k (r + 1)) =
        qs_blend (src_px W src (k + 1) (r + 1)) (src_px W src k (r + 1))
          (src_px W src (k + 1) r) (src_px W src k r)"
        by (simp add: qs_blend_def add_ac)
      show ?thesis using v k r q True e by simp
    qed
  next
    case False
    have "\<not> inner_rows W (px_index W 1 1) (H - 1) (px_index W X Y)"
    proof
      assume "inner_rows W (px_index W 1 1) (H - 1) (px_index W X Y)"
      from inner_rows_px[OF X this] False show False by auto
    qed
    from out[OF this] False show ?thesis by (simp only: if_False)
  qed
qed

subsection \<open>The phases of the interpolating doubler\<close>

lemma set_outer_row_at:
  assumes W: "0 < W" and H: "0 < H" and len: "length img = 4 * W * H"
    and X: "X < 2 * W" and Y: "Y < 2 * H"
  shows "interp_set_outer_row W H pm src img first_row ! px_index W X Y =
      (if Y = (if first_row then 0 else 2 * H - 1) \<and> 1 \<le> X \<and> X \<le> 2 * W - 2
       then ds_blend (src_px W src (X div 2) (Y div 2)) (src_px W src (nbr X) (Y div 2)) XOR pm
       else img ! px_index W X Y)"
    and "length (interp_set_outer_row W H pm src img first_row) = length img"
proof -
  have e: "interp_set_outer_row W H pm src img first_row =
      interp_outer_row_loop W pm src 0 ((if first_row then 0 else H - 1) * W)
        (px_index W 1 (if first_row then 0 else 2 * H - 1))
        (lo8 (src ! ((if first_row then 0 else H - 1) * W))) img"
    by (simp add: interp_set_outer_row_def px_index_def lo8_def Let_def mult_ac)
  have Y0: "(if first_row then 0 else 2 * H - 1) < 2 * H" using H by simp
  have d: "(if first_row then 0 else 2 * H - 1) div 2 = (if first_row then 0 else H - 1)"
    using H by (cases H) simp_all
  note p = outer_row_loop_at[OF W Y0 len X Y, of pm src "if first_row then 0 else H - 1"]
  show "length (interp_set_outer_row W H pm src img first_row) = length img"
    unfolding e by (rule p(2))
  show "interp_set_outer_row W H pm src img first_row ! px_index W X Y =
      (if Y = (if first_row then 0 else 2 * H - 1) \<and> 1 \<le> X \<and> X \<le> 2 * W - 2
       then ds_blend (src_px W src (X div 2) (Y div 2)) (src_px W src (nbr X) (Y div 2)) XOR pm
       else img ! px_index W X Y)"
    unfolding e p(1) using d by auto
qed

lemma set_outer_col_at:
  assumes W: "0 < W" and H: "0 < H" and len: "length img = 4 * W * H"
    and X: "X < 2 * W" and Y: "Y < 2 * H"
  shows "interp_set_outer_col W H pm src img first_col ! px_index W X Y =
      (if X = (if first_col then 0 else 2 * W - 1) \<and> 1 \<le> Y \<and> Y \<le> 2 * H - 2
       then ds_blend (src_px W src (X div 2) (Y div 2)) (src_px W src (X div 2) (nbr Y)) XOR pm
       else img ! px_index W X Y)"
    and "length (interp_set_outer_col W H pm src img first_col) = length img"
proof -
  have e: "interp_set_outer_col W H pm src img first_col =
      interp_outer_col_loop W H pm src 0 (if first_col then 0 else W - 1)
        (px_index W (if first_col then 0 else 2 * W - 1) 1)
        (lo8 (src ! (if first_col then 0 else W - 1))) img"
    by (simp add: interp_set_outer_col_def px_index_def lo8_def Let_def mult_ac)
  have X0: "(if first_col then 0 else 2 * W - 1) < 2 * W" using W by simp
  have d: "(if first_col then 0 else 2 * W - 1) div 2 = (if first_col then 0 else W - 1)"
    using W by (cases W) simp_all
  note p = outer_col_loop_at[OF W H len X Y X0, of pm src "if first_col then 0 else W - 1"]
  show "length (interp_set_outer_col W H pm src img first_col) = length img"
    unfolding e by (rule p(2))
  show "interp_set_outer_col W H pm src img first_col ! px_index W X Y =
      (if X = (if first_col then 0 else 2 * W - 1) \<and> 1 \<le> Y \<and> Y \<le> 2 * H - 2
       then ds_blend (src_px W src (X div 2) (Y div 2)) (src_px W src (X div 2) (nbr Y)) XOR pm
       else img ! px_index W X Y)"
    unfolding e p(1) using d by auto
qed

lemma set_inner_at:
  assumes W: "0 < W" and H: "0 < H" and len: "length img = 4 * W * H"
    and X: "X < 2 * W" and Y: "Y < 2 * H"
  shows "interp_set_inner W H pm src img ! px_index W X Y =
      (if 1 \<le> X \<and> X \<le> 2 * W - 2 \<and> 1 \<le> Y \<and> Y \<le> 2 * H - 2
       then qs_blend (src_px W src (X div 2) (Y div 2)) (src_px W src (nbr X) (Y div 2))
              (src_px W src (X div 2) (nbr Y)) (src_px W src (nbr X) (nbr Y)) XOR pm
       else img ! px_index W X Y)"
    and "length (interp_set_inner W H pm src img) = length img"
proof -
  have e: "interp_set_inner W H pm src img =
      interp_inner_y_loop W H pm src 0 0 (px_index W 1 1) img"
    by (simp add: interp_set_inner_def px_index_def)
  show "length (interp_set_inner W H pm src img) = length img"
    unfolding e by (rule inner_y_loop_at(2)[OF W H len X Y])
  show "interp_set_inner W H pm src img ! px_index W X Y =
      (if 1 \<le> X \<and> X \<le> 2 * W - 2 \<and> 1 \<le> Y \<and> Y \<le> 2 * H - 2
       then qs_blend (src_px W src (X div 2) (Y div 2)) (src_px W src (nbr X) (Y div 2))
              (src_px W src (X div 2) (nbr Y)) (src_px W src (nbr X) (nbr Y)) XOR pm
       else img ! px_index W X Y)"
    unfolding e by (rule inner_y_loop_at(1)[OF W H len X Y])
qed

lemma half_last: "0 < n \<Longrightarrow> (2 * n - 1) div 2 = n - (1::nat)"
  by (cases n) simp_all

lemma interp_spec_cases:
  assumes W: "0 < W" and H: "0 < H" and X: "X < 2 * W" and Y: "Y < 2 * H"
  shows "(word_of_nat (interp_spec W H (\<lambda>x y. unat (src_px W buf x y)) X Y) :: 8 word) =
    (if (X = 0 \<or> X = 2 * W - 1) \<and> (Y = 0 \<or> Y = 2 * H - 1)
     then src_px W buf (X div 2) (Y div 2)
     else if Y = 0 \<or> Y = 2 * H - 1
     then ds_blend (src_px W buf (X div 2) (Y div 2)) (src_px W buf (nbr X) (Y div 2))
     else if X = 0 \<or> X = 2 * W - 1
     then ds_blend (src_px W buf (X div 2) (Y div 2)) (src_px W buf (X div 2) (nbr Y))
     else qs_blend (src_px W buf (X div 2) (Y div 2)) (src_px W buf (nbr X) (Y div 2))
            (src_px W buf (X div 2) (nbr Y)) (src_px W buf (nbr X) (nbr Y)))"
  by (simp add: interp_spec_def Let_def ds_blend_def qs_blend_def SF_DS_def SF_QS_def
      DIV_DS_def DIV_QS_def)

lemma render_interp_agc_data_at:
  assumes W: "0 < W" and H: "0 < H" and len: "length img = 4 * W * H"
    and X: "X < 2 * W" and Y: "Y < 2 * H"
  shows "render_interp_agc_data W H pm buf img ! px_index W X Y =
      word_of_nat (interp_spec W H (\<lambda>x y. unat (src_px W buf x y)) X Y) XOR pm"
    and "length (render_interp_agc_data W H pm buf img) = length img"
proof -
  define i1 where "i1 = interp_set_pixel W pm (buf ! 0) img 0 0"
  define i2 where "i2 = interp_set_pixel W pm (buf ! (W - 1)) i1 (2 * W - 1) 0"
  define i3 where "i3 = interp_set_pixel W pm (buf ! (W * (H - 1))) i2 0 (2 * H - 1)"
  define i4 where "i4 = interp_set_pixel W pm (buf ! (W * (H - 1) + (W - 1))) i3
                 (2 * W - 1) (2 * H - 1)"
  define i5 where "i5 = interp_set_outer_row W H pm buf i4 True"
  define i6 where "i6 = interp_set_outer_row W H pm buf i5 False"
  define i7 where "i7 = interp_set_outer_col W H pm buf i6 True"
  define i8 where "i8 = interp_set_outer_col W H pm buf i7 False"
  have r: "render_interp_agc_data W H pm buf img = interp_set_inner W H pm buf i8"
    by (simp add: render_interp_agc_data_def Let_def i1_def i2_def i3_def i4_def i5_def
        i6_def i7_def i8_def)
  have x0: "0 < 2 * W" and xl: "2 * W - 1 < 2 * W" and yl: "2 * H - 1 < 2 * H"
    and y0: "0 < 2 * H"
    using W H by simp_all
  have b1: "px_index W 0 0 < length img" unfolding len by (rule px_index_less[OF x0 y0])
  note p1 = set_pixel_at(1)[OF x0 X b1, of pm "buf ! 0" Y, folded i1_def]
  note q1 = set_pixel_at(2)[OF x0 X b1, of pm "buf ! 0", folded i1_def]
  have l1: "length i1 = 4 * W * H" using q1 len by simp
  have b2: "px_index W (2 * W - 1) 0 < length i1" unfolding l1 by (rule px_index_less[OF xl y0])
  note p2 = set_pixel_at(1)[OF xl X b2, of pm "buf ! (W - 1)" Y, folded i2_def]
  note q2 = set_pixel_at(2)[OF xl X b2, of pm "buf ! (W - 1)", folded i2_def]
  have l2: "length i2 = 4 * W * H" using q2 l1 by simp
  have b3: "px_index W 0 (2 * H - 1) < length i2" unfolding l2 by (rule px_index_less[OF x0 yl])
  note p3 = set_pixel_at(1)[OF x0 X b3, of pm "buf ! (W * (H - 1))" Y, folded i3_def]
  note q3 = set_pixel_at(2)[OF x0 X b3, of pm "buf ! (W * (H - 1))", folded i3_def]
  have l3: "length i3 = 4 * W * H" using q3 l2 by simp
  have b4: "px_index W (2 * W - 1) (2 * H - 1) < length i3"
    unfolding l3 by (rule px_index_less[OF xl yl])
  note p4 = set_pixel_at(1)[OF xl X b4, of pm "buf ! (W * (H - 1) + (W - 1))" Y, folded i4_def]
  note q4 = set_pixel_at(2)[OF xl X b4, of pm "buf ! (W * (H - 1) + (W - 1))", folded i4_def]
  have l4: "length i4 = 4 * W * H" using q4 l3 by simp
  note p5 = set_outer_row_at[OF W H l4 X Y, of pm buf True, folded i5_def]
  have l5: "length i5 = 4 * W * H" using p5(2) l4 by simp
  note p6 = set_outer_row_at[OF W H l5 X Y, of pm buf False, folded i6_def]
  have l6: "length i6 = 4 * W * H" using p6(2) l5 by simp
  note p7 = set_outer_col_at[OF W H l6 X Y, of pm buf True, folded i7_def]
  have l7: "length i7 = 4 * W * H" using p7(2) l6 by simp
  note p8 = set_outer_col_at[OF W H l7 X Y, of pm buf False, folded i8_def]
  have l8: "length i8 = 4 * W * H" using p8(2) l7 by simp
  note p9 = set_inner_at[OF W H l8 X Y, of pm buf]
  show "length (render_interp_agc_data W H pm buf img) = length img"
    unfolding r using p9(2) l8 len by simp
  have c1: "src_px W buf 0 0 = lo8 (buf ! 0)"
    and c2: "src_px W buf (W - 1) 0 = lo8 (buf ! (W - 1))"
    and c3: "src_px W buf 0 (H - 1) = lo8 (buf ! (W * (H - 1)))"
    and c4: "src_px W buf (W - 1) (H - 1) = lo8 (buf ! (W * (H - 1) + (W - 1)))"
    by (simp_all add: src_px_def mult.commute)
  have hx: "(2 * W - 1) div 2 = W - 1" and hy: "(2 * H - 1) div 2 = H - 1"
    using W H by (simp_all add: half_last)
  have nx: "X \<noteq> 0 \<Longrightarrow> X \<noteq> 2 * W - 1 \<Longrightarrow> 1 \<le> X \<and> X \<le> 2 * W - 2" using X by auto
  have ny: "Y \<noteq> 0 \<Longrightarrow> Y \<noteq> 2 * H - 1 \<Longrightarrow> 1 \<le> Y \<and> Y \<le> 2 * H - 2" using Y by auto
  have ex: "X = 0 \<or> X = 2 * W - 1 \<Longrightarrow> \<not> (1 \<le> X \<and> X \<le> 2 * W - 2)" using W by auto
  have ey: "Y = 0 \<or> Y = 2 * H - 1 \<Longrightarrow> \<not> (1 \<le> Y \<and> Y \<le> 2 * H - 2)" using H by auto
  have d: "0 \<noteq> 2 * W - 1" "0 \<noteq> 2 * H - 1" using W H by auto
  have lx: "\<not> 2 * W - 1 \<le> 2 * W - 2" and ly: "\<not> 2 * H - 1 \<le> 2 * H - 2"
    using W H by arith+
  let ?a = "src_px W buf (X div 2) (Y div 2)"
  show "render_interp_agc_data W H pm buf img ! px_index W X Y =
      word_of_nat (interp_spec W H (\<lambda>x y. unat (src_px W buf x y)) X Y) XOR pm"
  proof (cases "X = 0 \<or> X = 2 * W - 1")
    case edge_x: True
    show ?thesis
    proof (cases "Y = 0 \<or> Y = 2 * H - 1")
      case edge_y: True
      have s: "word_of_nat (interp_spec W H (\<lambda>x y. unat (src_px W buf x y)) X Y) = ?a"
        unfolding interp_spec_cases[OF W H X Y] using edge_x edge_y by (simp only: simp_thms if_True)
      have "interp_set_inner W H pm buf i8 ! px_index W X Y = ?a XOR pm"
        using edge_x edge_y
      proof (elim disjE)
        assume "X = 0" "Y = 0"
        then show ?thesis
          unfolding p9(1) p8(1) p7(1) p6(1) p5(1) p4 p3 p2 p1 using d c1 W H by simp
      next
        assume "X = 0" "Y = 2 * H - 1"
        then show ?thesis
          unfolding p9(1) p8(1) p7(1) p6(1) p5(1) p4 p3 p2 p1 using d hy c3 ly by simp
      next
        assume "X = 2 * W - 1" "Y = 0"
        then show ?thesis
          unfolding p9(1) p8(1) p7(1) p6(1) p5(1) p4 p3 p2 p1 using d hx c2 lx by simp
      next
        assume "X = 2 * W - 1" "Y = 2 * H - 1"
        then show ?thesis
          unfolding p9(1) p8(1) p7(1) p6(1) p5(1) p4 p3 p2 p1 using d hx hy c4 lx ly by simp
      qed
      then show ?thesis unfolding r s .
    next
      case not_edge_y: False
      have s: "word_of_nat (interp_spec W H (\<lambda>x y. unat (src_px W buf x y)) X Y) =
          ds_blend ?a (src_px W buf (X div 2) (nbr Y))"
        unfolding interp_spec_cases[OF W H X Y] using edge_x not_edge_y
        by (simp only: simp_thms if_True if_False)
      from not_edge_y have yy: "1 \<le> Y \<and> Y \<le> 2 * H - 2" using ny by simp
      have "interp_set_inner W H pm buf i8 ! px_index W X Y =
          ds_blend ?a (src_px W buf (X div 2) (nbr Y)) XOR pm"
        unfolding p9(1) p8(1) p7(1) using ex[OF edge_x] yy edge_x by auto
      then show ?thesis unfolding r s .
    qed
  next
    case not_edge_x: False
    from not_edge_x have xx: "1 \<le> X \<and> X \<le> 2 * W - 2" using nx by simp
    show ?thesis
    proof (cases "Y = 0 \<or> Y = 2 * H - 1")
      case edge_y: True
      have s: "word_of_nat (interp_spec W H (\<lambda>x y. unat (src_px W buf x y)) X Y) =
          ds_blend ?a (src_px W buf (nbr X) (Y div 2))"
        unfolding interp_spec_cases[OF W H X Y] using not_edge_x edge_y
        by (simp only: simp_thms if_True if_False)
      have "interp_set_inner W H pm buf i8 ! px_index W X Y = i6 ! px_index W X Y"
        unfolding p9(1) p8(1) p7(1) using ey[OF edge_y] not_edge_x by auto
      also have "\<dots> = ds_blend ?a (src_px W buf (nbr X) (Y div 2)) XOR pm"
        unfolding p6(1) p5(1) using xx edge_y by auto
      finally show ?thesis unfolding r s .
    next
      case not_edge_y: False
      have s: "word_of_nat (interp_spec W H (\<lambda>x y. unat (src_px W buf x y)) X Y) =
          qs_blend ?a (src_px W buf (nbr X) (Y div 2))
            (src_px W buf (X div 2) (nbr Y)) (src_px W buf (nbr X) (nbr Y))"
        unfolding interp_spec_cases[OF W H X Y] using not_edge_x not_edge_y
        by (simp only: simp_thms if_True if_False)
      from not_edge_y have yy: "1 \<le> Y \<and> Y \<le> 2 * H - 2" using ny by simp
      have "interp_set_inner W H pm buf i8 ! px_index W X Y =
          qs_blend ?a (src_px W buf (nbr X) (Y div 2))
            (src_px W buf (X div 2) (nbr Y)) (src_px W buf (nbr X) (nbr Y)) XOR pm"
        unfolding p9(1) using xx yy by simp
      then show ?thesis unfolding r s .
    qed
  qed
qed

subsection \<open>Interpolation weights\<close>

lemma nbr_less:
  assumes "X < 2 * W" "X \<noteq> 0" "X \<noteq> 2 * W - 1"
  shows "nbr X < W"
  using assms unfolding nbr_def by (cases "even X") (auto elim!: evenE oddE)

lemma interp_spec_cong:
  assumes pq: "\<And>x y. x < W \<Longrightarrow> y < H \<Longrightarrow> p x y = q x y"
    and X: "X < 2 * W" and Y: "Y < 2 * H"
  shows "interp_spec W H p X Y = interp_spec W H q X Y"
proof -
  have x: "X div 2 < W" and y: "Y div 2 < H" using X Y by auto
  have nx: "X \<noteq> 0 \<Longrightarrow> X \<noteq> 2 * W - 1 \<Longrightarrow> nbr X < W" using nbr_less[OF X] by simp
  have ny: "Y \<noteq> 0 \<Longrightarrow> Y \<noteq> 2 * H - 1 \<Longrightarrow> nbr Y < H" using nbr_less[OF Y] by simp
  show ?thesis
    unfolding interp_spec_def Let_def using x y nx ny by (auto simp: pq)
qed

lemma interp_spec_bound:
  assumes b: "\<And>x y. p x y < 256"
  shows "interp_spec W H p X Y < 256"
proof -
  note b1 = b[of "X div 2" "Y div 2"] and b2 = b[of "nbr X" "Y div 2"]
    and b3 = b[of "X div 2" "nbr Y"] and b4 = b[of "nbr X" "nbr Y"]
  have e: "(3 * p (X div 2) (Y div 2) + p (nbr X) (Y div 2)) div 4 < 256"
    "(3 * p (X div 2) (Y div 2) + p (X div 2) (nbr Y)) div 4 < 256"
    "(5 * p (X div 2) (Y div 2) + p (nbr X) (Y div 2) + p (X div 2) (nbr Y) +
        p (nbr X) (nbr Y)) div 8 < 256"
    using b1 b2 b3 b4 by arith+
  show ?thesis unfolding interp_spec_def Let_def using b1 e by simp
qed

lemma lo8_small: "v \<le> 0xFF \<Longrightarrow> unat (lo8 v) = unat v"
proof -
  assume "v \<le> 0xFF"
  then have "unat v \<le> 255" by (simp add: word_le_nat_alt)
  then show ?thesis unfolding lo8_def by (simp add: unsigned_ucast_eq take_bit_eq_mod)
qed

text \<open>
  C1. For every frame of \<open>W * H\<close> samples that are all 8-bit values, and every output
  pixel \<open>(X, Y)\<close> of the \<open>2 * W\<close> by \<open>2 * H\<close> image, the pixel written by
  \<^verbatim>\<open>render_interp_agc_data\<close>, with the palette XOR taken off again, is the value of
  \<open>interp_spec\<close>: the owning source pixel at the four corners; \<open>(3 * owner + neighbour) div 4\<close>
  on the top and bottom rows and the left and right columns, the neighbour being the next
  source pixel along that row or column on the nearer side; and
  \<open>(5 * owner + n1 + n2 + n3) div 8\<close> in the interior, over the three source pixels that share
  the nearer corner of the owner.
\<close>

theorem interp_doubler_weights:
  assumes W: "0 < W" and H: "0 < H"
    and lb: "length buf = W * H" and len: "length img = 4 * W * H"
    and b8: "\<forall>v \<in> set buf. v \<le> 0xFF"
    and X: "X < 2 * W" and Y: "Y < 2 * H"
  shows "unat ((render_interp_agc_data W H pm buf img ! px_index W X Y) XOR pm) =
           interp_spec W H (\<lambda>x y. unat (buf ! (y * W + x))) X Y"
proof -
  let ?p = "\<lambda>x y. unat (src_px W buf x y)"
  have "\<And>x y. x < W \<Longrightarrow> y < H \<Longrightarrow> ?p x y = unat (buf ! (y * W + x))"
  proof -
    fix x y assume x: "x < W" and y: "y < H"
    from y have "y + 1 \<le> H" by simp
    then have "(y + 1) * W \<le> H * W" by (rule mult_le_mono1)
    with x have "y * W + x < length buf" by (simp add: lb mult.commute)
    then have "buf ! (y * W + x) \<in> set buf" by simp
    with b8 have "buf ! (y * W + x) \<le> 0xFF" by blast
    then show "?p x y = unat (buf ! (y * W + x))" unfolding src_px_def by (rule lo8_small)
  qed
  then have c: "interp_spec W H ?p X Y = interp_spec W H (\<lambda>x y. unat (buf ! (y * W + x))) X Y"
    using X Y by (rule interp_spec_cong)
  have bnd: "interp_spec W H ?p X Y < 256"
    by (rule interp_spec_bound) (use unsigned_less[where 'a=nat and 'b=8] in simp)
  have "(render_interp_agc_data W H pm buf img ! px_index W X Y) XOR pm =
      word_of_nat (interp_spec W H ?p X Y)"
    unfolding render_interp_agc_data_at(1)[OF W H len X Y] by (simp add: xor.assoc)
  then have "unat ((render_interp_agc_data W H pm buf img ! px_index W X Y) XOR pm) =
      interp_spec W H ?p X Y"
    using bnd by (simp add: unat_of_nat)
  with c show ?thesis by simp
qed

theorem interp_doubler_weights_witness:
  "unat ((render_interp_agc_data 2 2 0xFF [100, 200, 150, 250] (replicate 16 0)
           ! px_index 2 0 0) XOR 0xFF) = 100 \<and>
   unat ((render_interp_agc_data 2 2 0xFF [100, 200, 150, 250] (replicate 16 0)
           ! px_index 2 1 0) XOR 0xFF) = 125 \<and>
   unat ((render_interp_agc_data 2 2 0xFF [100, 200, 150, 250] (replicate 16 0)
           ! px_index 2 1 1) XOR 0xFF) = 137"
proof -
  have h1: "0 < (2::nat)" by simp
  have h3: "length [100, 200, 150, 250 :: 16 word] = 2 * 2" by simp
  have h4: "length (replicate 16 (0 :: 8 word)) = 4 * 2 * 2" by simp
  have h5: "\<forall>v \<in> set [100, 200, 150, 250 :: 16 word]. v \<le> 0xFF" by simp
  have x0: "(0::nat) < 2 * 2" and x1: "(1::nat) < 2 * 2" by simp_all
  note r = interp_doubler_weights[OF h1 h1 h3 h4 h5, of _ _ "0xFF"]
  have e1: "interp_spec 2 2 (\<lambda>x y. unat ([100, 200, 150, 250 :: 16 word] ! (y * 2 + x))) 0 0 = 100"
    and e2: "interp_spec 2 2 (\<lambda>x y. unat ([100, 200, 150, 250 :: 16 word] ! (y * 2 + x))) 1 0 = 125"
    and e3: "interp_spec 2 2 (\<lambda>x y. unat ([100, 200, 150, 250 :: 16 word] ! (y * 2 + x))) 1 1 = 137"
    by (simp_all add: interp_spec_def nbr_def)
  show ?thesis
    using r[OF x0 x0] r[OF x1 x0] r[OF x1 x1] unfolding e1 e2 e3 by blast
qed

subsection \<open>Pixel doubling\<close>

lemma double_line_props:
  fixes f :: "nat \<Rightarrow> nat \<Rightarrow> 8 word list \<Rightarrow> nat \<times> nat \<times> 8 word list"
  assumes step: "\<And>sp ip img. sp < e \<Longrightarrow>
      f sp ip img = f (sp + 1) (ip + 2) (img[ip := g (src ! sp) XOR pm, ip + 1 := g (src ! sp) XOR pm])"
    and stop: "\<And>sp ip img. \<not> sp < e \<Longrightarrow> f sp ip img = (sp, ip, img)"
  shows "e - sp = n \<Longrightarrow> ip + 2 * n \<le> length img \<Longrightarrow>
    \<exists>img'. f sp ip img = (sp + n, ip + 2 * n, img') \<and> length img' = length img \<and>
      (\<forall>j. j < ip \<or> ip + 2 * n \<le> j \<longrightarrow> img' ! j = img ! j) \<and>
      (\<forall>k < n. img' ! (ip + 2 * k) = g (src ! (sp + k)) XOR pm \<and>
               img' ! (ip + 2 * k + 1) = g (src ! (sp + k)) XOR pm)"
proof (induction n arbitrary: sp ip img)
  case 0
  then show ?case by (simp add: stop)
next
  case (Suc n)
  from Suc.prems(1) have lt: "sp < e" and n: "e - (sp + 1) = n" by simp_all
  define a where "a = g (src ! sp) XOR pm"
  define img2 where "img2 = img[ip := a, ip + 1 := a]"
  have st: "f sp ip img = f (sp + 1) (ip + 2) img2"
    unfolding img2_def a_def by (rule step[OF lt])
  have len2: "length img2 = length img" by (simp add: img2_def)
  have bnd: "ip + 2 + 2 * n \<le> length img2" using Suc.prems(2) len2 by simp
  from Suc.IH[OF n bnd] obtain img' where
    r: "f (sp + 1) (ip + 2) img2 = (sp + 1 + n, ip + 2 + 2 * n, img')"
    and l: "length img' = length img2"
    and o: "\<And>j. j < ip + 2 \<or> ip + 2 + 2 * n \<le> j \<Longrightarrow> img' ! j = img2 ! j"
    and v: "\<And>k. k < n \<Longrightarrow> img' ! (ip + 2 + 2 * k) = g (src ! (sp + 1 + k)) XOR pm \<and>
               img' ! (ip + 2 + 2 * k + 1) = g (src ! (sp + 1 + k)) XOR pm"
    by blast
  have i0: "img2 ! ip = a" "img2 ! (ip + 1) = a"
    using Suc.prems(2) by (simp_all add: img2_def)
  have out2: "\<And>j. j \<noteq> ip \<Longrightarrow> j \<noteq> ip + 1 \<Longrightarrow> img2 ! j = img ! j"
    by (simp add: img2_def)
  have A: "f sp ip img = (sp + Suc n, ip + 2 * Suc n, img')"
    unfolding st r by simp
  have B: "length img' = length img" using l len2 by simp
  have C: "\<forall>j. j < ip \<or> ip + 2 * Suc n \<le> j \<longrightarrow> img' ! j = img ! j"
  proof (intro allI impI)
    fix j assume j: "j < ip \<or> ip + 2 * Suc n \<le> j"
    then have "j < ip + 2 \<or> ip + 2 + 2 * n \<le> j" by auto
    then have "img' ! j = img2 ! j" by (rule o)
    moreover from j have "j \<noteq> ip" "j \<noteq> ip + 1" by auto
    ultimately show "img' ! j = img ! j" using out2 by simp
  qed
  have D: "\<forall>k < Suc n. img' ! (ip + 2 * k) = g (src ! (sp + k)) XOR pm \<and>
               img' ! (ip + 2 * k + 1) = g (src ! (sp + k)) XOR pm"
  proof (intro allI impI)
    fix k assume k: "k < Suc n"
    show "img' ! (ip + 2 * k) = g (src ! (sp + k)) XOR pm \<and>
               img' ! (ip + 2 * k + 1) = g (src ! (sp + k)) XOR pm"
    proof (cases k)
      case 0
      have "img' ! ip = img2 ! ip" "img' ! (ip + 1) = img2 ! (ip + 1)" by (simp_all add: o)
      with 0 i0 show ?thesis by (simp add: a_def)
    next
      case (Suc k')
      with k have "k' < n" by simp
      from v[OF this] Suc show ?thesis by (simp add: add.commute add.left_commute)
    qed
  qed
  from A B C D show ?case by blast
qed

lemma memcpy_img_nth:
  assumes d: "dst + n \<le> length img" and s: "src + n \<le> length img"
  shows "length (memcpy_img img dst src n) = length img"
    and "j < dst \<Longrightarrow> memcpy_img img dst src n ! j = img ! j"
    and "dst + n \<le> j \<Longrightarrow> memcpy_img img dst src n ! j = img ! j"
    and "c < n \<Longrightarrow> memcpy_img img dst src n ! (dst + c) = img ! (src + c)"
proof -
  have l1: "length (take dst img) = dst" using d by simp
  have l2: "length (take n (drop src img)) = n" using s by simp
  show "length (memcpy_img img dst src n) = length img"
    unfolding memcpy_img_def length_append l1 l2 using d by simp
  show "j < dst \<Longrightarrow> memcpy_img img dst src n ! j = img ! j"
    unfolding memcpy_img_def nth_append l1 using d by simp
  show "c < n \<Longrightarrow> memcpy_img img dst src n ! (dst + c) = img ! (src + c)"
    unfolding memcpy_img_def nth_append l1 l2 using s by simp
  show "dst + n \<le> j \<Longrightarrow> memcpy_img img dst src n ! j = img ! j"
  proof -
    assume j: "dst + n \<le> j"
    then have "\<not> j < dst" "\<not> j - dst < n" by auto
    then have "memcpy_img img dst src n ! j = drop (dst + n) img ! (j - dst - n)"
      unfolding memcpy_img_def nth_append l1 l2 by simp
    also have "\<dots> = img ! j" using d j by simp
    finally show ?thesis .
  qed
qed

lemma double_lines_props:
  fixes F :: "nat \<Rightarrow> nat \<Rightarrow> nat \<Rightarrow> 8 word list \<Rightarrow> 8 word list"
    and f :: "nat \<Rightarrow> nat \<Rightarrow> nat \<Rightarrow> 8 word list \<Rightarrow> nat \<times> nat \<times> 8 word list"
  assumes step: "\<And>y sp ip img. y < H \<Longrightarrow>
      F y sp ip img =
        (case f ((y + 1) * W) sp ip img of
           (sp', ip', img') \<Rightarrow>
             F (y + 1) sp' (ip' + 2 * W) (memcpy_img img' ip' (ip' - 2 * W) (2 * W)))"
    and stop: "\<And>y sp ip img. \<not> y < H \<Longrightarrow> F y sp ip img = img"
    and line: "\<And>e sp ip img n. e - sp = n \<Longrightarrow> ip + 2 * n \<le> length img \<Longrightarrow>
      \<exists>img'. f e sp ip img = (sp + n, ip + 2 * n, img') \<and> length img' = length img \<and>
        (\<forall>j. j < ip \<or> ip + 2 * n \<le> j \<longrightarrow> img' ! j = img ! j) \<and>
        (\<forall>k < n. img' ! (ip + 2 * k) = g (src ! (sp + k)) XOR pm \<and>
                 img' ! (ip + 2 * k + 1) = g (src ! (sp + k)) XOR pm)"
  shows "H - y = m \<Longrightarrow> sp = y * W \<Longrightarrow> ip + 4 * W * m \<le> length img \<Longrightarrow>
     length (F y sp ip img) = length img \<and>
     (\<forall>j. j < ip \<or> ip + 4 * W * m \<le> j \<longrightarrow> F y sp ip img ! j = img ! j) \<and>
     (\<forall>r < m. \<forall>c < 2 * W.
        F y sp ip img ! (ip + 4 * W * r + c) = g (src ! ((y + r) * W + c div 2)) XOR pm \<and>
        F y sp ip img ! (ip + 4 * W * r + 2 * W + c) =
          g (src ! ((y + r) * W + c div 2)) XOR pm)"
proof (induction m arbitrary: y sp ip img)
  case 0
  then show ?case by (simp add: stop)
next
  case (Suc m)
  from Suc.prems(1) have lt: "y < H" and m: "H - (y + 1) = m" by simp_all
  note sp = Suc.prems(2)
  have big: "ip + 4 * W + 4 * W * m \<le> length img" using Suc.prems(3) by (simp add: algebra_simps)
  have e: "(y + 1) * W - sp = W" by (simp add: sp)
  have b1: "ip + 2 * W \<le> length img" using big by simp
  from line[OF e b1] obtain img1 where
    r1: "f ((y + 1) * W) sp ip img = (sp + W, ip + 2 * W, img1)"
    and l1: "length img1 = length img"
    and o1: "\<And>j. j < ip \<or> ip + 2 * W \<le> j \<Longrightarrow> img1 ! j = img ! j"
    and v1: "\<And>k. k < W \<Longrightarrow> img1 ! (ip + 2 * k) = g (src ! (sp + k)) XOR pm \<and>
                 img1 ! (ip + 2 * k + 1) = g (src ! (sp + k)) XOR pm"
    by blast
  have c1: "img1 ! (ip + c) = g (src ! (y * W + c div 2)) XOR pm" if c: "c < 2 * W" for c
  proof -
    from c have k: "c div 2 < W" by simp
    have "c = 2 * (c div 2) \<or> c = 2 * (c div 2) + 1" by presburger
    then show ?thesis
    proof
      assume "c = 2 * (c div 2)"
      then have "ip + c = ip + 2 * (c div 2)" by linarith
      then have "img1 ! (ip + c) = img1 ! (ip + 2 * (c div 2))" by (rule arg_cong)
      with v1[OF k] show ?thesis by (simp add: sp)
    next
      assume "c = 2 * (c div 2) + 1"
      then have "ip + c = ip + 2 * (c div 2) + 1" by linarith
      then have "img1 ! (ip + c) = img1 ! (ip + 2 * (c div 2) + 1)" by (rule arg_cong)
      with v1[OF k] show ?thesis by (simp add: sp)
    qed
  qed
  define img2 where "img2 = memcpy_img img1 (ip + 2 * W) (ip + 2 * W - 2 * W) (2 * W)"
  have i2: "img2 = memcpy_img img1 (ip + 2 * W) ip (2 * W)" by (simp add: img2_def)
  have d2: "ip + 2 * W + 2 * W \<le> length img1" and s2: "ip + 2 * W \<le> length img1"
    using big l1 by simp_all
  note mc = memcpy_img_nth[OF d2 s2, folded i2]
  have l2: "length img2 = length img" using mc(1) l1 by simp
  have st: "F y sp ip img = F (y + 1) (sp + W) (ip + 2 * W + 2 * W) img2"
    unfolding step[OF lt] r1 img2_def by simp
  have sp': "sp + W = (y + 1) * W" by (simp add: sp)
  have big2: "ip + 2 * W + 2 * W + 4 * W * m \<le> length img2" using big l2 by simp
  note ih = Suc.IH[OF m sp' big2]
  let ?r = "F (y + 1) (sp + W) (ip + 2 * W + 2 * W) img2"
  from ih have la: "length ?r = length img2"
    and oa: "\<And>j. j < ip + 2 * W + 2 * W \<or> ip + 2 * W + 2 * W + 4 * W * m \<le> j \<Longrightarrow> ?r ! j = img2 ! j"
    and va: "\<And>r c. r < m \<Longrightarrow> c < 2 * W \<Longrightarrow>
        ?r ! (ip + 2 * W + 2 * W + 4 * W * r + c) = g (src ! ((y + 1 + r) * W + c div 2)) XOR pm \<and>
        ?r ! (ip + 2 * W + 2 * W + 4 * W * r + 2 * W + c) =
          g (src ! ((y + 1 + r) * W + c div 2)) XOR pm"
    by blast+
  have A: "length ?r = length img" using la l2 by simp
  have B: "\<forall>j. j < ip \<or> ip + 4 * W * Suc m \<le> j \<longrightarrow> ?r ! j = img ! j"
  proof (intro allI impI)
    fix j assume j: "j < ip \<or> ip + 4 * W * Suc m \<le> j"
    then have "j < ip + 2 * W + 2 * W \<or> ip + 2 * W + 2 * W + 4 * W * m \<le> j"
      by (auto simp: algebra_simps)
    then have "?r ! j = img2 ! j" by (rule oa)
    also from j have "j < ip + 2 * W \<or> ip + 2 * W + 2 * W \<le> j" by (auto simp: algebra_simps)
    then have "img2 ! j = img1 ! j" using mc(2,3) by blast
    also from j have "j < ip \<or> ip + 2 * W \<le> j" by (auto simp: algebra_simps)
    then have "img1 ! j = img ! j" by (rule o1)
    finally show "?r ! j = img ! j" .
  qed
  have C: "\<forall>r < Suc m. \<forall>c < 2 * W.
        ?r ! (ip + 4 * W * r + c) = g (src ! ((y + r) * W + c div 2)) XOR pm \<and>
        ?r ! (ip + 4 * W * r + 2 * W + c) = g (src ! ((y + r) * W + c div 2)) XOR pm"
  proof (intro allI impI)
    fix r c assume r: "r < Suc m" and c: "c < 2 * W"
    show "?r ! (ip + 4 * W * r + c) = g (src ! ((y + r) * W + c div 2)) XOR pm \<and>
        ?r ! (ip + 4 * W * r + 2 * W + c) = g (src ! ((y + r) * W + c div 2)) XOR pm"
    proof (cases r)
      case 0
      have "?r ! (ip + c) = img2 ! (ip + c)" using c by (intro oa) simp
      also have "\<dots> = img1 ! (ip + c)" using c by (intro mc(2)) simp
      finally have x: "?r ! (ip + c) = g (src ! (y * W + c div 2)) XOR pm" using c1[OF c] by simp
      have "?r ! (ip + 2 * W + c) = img2 ! (ip + 2 * W + c)" using c by (intro oa) simp
      also have "\<dots> = img1 ! (ip + c)" using c by (rule mc(4))
      finally have y: "?r ! (ip + 2 * W + c) = g (src ! (y * W + c div 2)) XOR pm"
        using c1[OF c] by simp
      from x y 0 show ?thesis by simp
    next
      case (Suc r')
      with r have "r' < m" by simp
      from va[OF this c] Suc show ?thesis by (simp add: algebra_simps)
    qed
  qed
  from A B C show ?case unfolding st by blast
qed

lemma double_lines_at:
  fixes F :: "nat \<Rightarrow> nat \<Rightarrow> nat \<Rightarrow> 8 word list \<Rightarrow> 8 word list"
    and f :: "nat \<Rightarrow> nat \<Rightarrow> nat \<Rightarrow> 8 word list \<Rightarrow> nat \<times> nat \<times> 8 word list"
  assumes step: "\<And>y sp ip img. y < H \<Longrightarrow>
      F y sp ip img =
        (case f ((y + 1) * W) sp ip img of
           (sp', ip', img') \<Rightarrow>
             F (y + 1) sp' (ip' + 2 * W) (memcpy_img img' ip' (ip' - 2 * W) (2 * W)))"
    and stop: "\<And>y sp ip img. \<not> y < H \<Longrightarrow> F y sp ip img = img"
    and line: "\<And>e sp ip img n. e - sp = n \<Longrightarrow> ip + 2 * n \<le> length img \<Longrightarrow>
      \<exists>img'. f e sp ip img = (sp + n, ip + 2 * n, img') \<and> length img' = length img \<and>
        (\<forall>j. j < ip \<or> ip + 2 * n \<le> j \<longrightarrow> img' ! j = img ! j) \<and>
        (\<forall>k < n. img' ! (ip + 2 * k) = g (src ! (sp + k)) XOR pm \<and>
                 img' ! (ip + 2 * k + 1) = g (src ! (sp + k)) XOR pm)"
    and len: "length img = 4 * W * H" and X: "X < 2 * W" and Y: "Y < 2 * H"
  shows "F 0 0 0 img ! px_index W X Y = g (src ! ((Y div 2) * W + X div 2)) XOR pm"
    and "length (F 0 0 0 img) = length img"
proof -
  have m: "H - 0 = H" and s: "(0::nat) = 0 * W" and b: "0 + 4 * W * H \<le> length img"
    using len by simp_all
  note p = double_lines_props[where F=F and f=f and g=g and src=src and pm=pm,
      OF step stop line m s b]
  from p show "length (F 0 0 0 img) = length img" by blast
  from p have v: "\<And>r c. r < H \<Longrightarrow> c < 2 * W \<Longrightarrow>
        F 0 0 0 img ! (0 + 4 * W * r + c) = g (src ! ((0 + r) * W + c div 2)) XOR pm \<and>
        F 0 0 0 img ! (0 + 4 * W * r + 2 * W + c) = g (src ! ((0 + r) * W + c div 2)) XOR pm"
    by blast
  from Y have r: "Y div 2 < H" by simp
  note vv = v[OF r X]
  have "Y = 2 * (Y div 2) \<or> Y = 2 * (Y div 2) + 1" by presburger
  then show "F 0 0 0 img ! px_index W X Y = g (src ! ((Y div 2) * W + X div 2)) XOR pm"
  proof
    assume "Y = 2 * (Y div 2)"
    then have "Y * 2 * W = 4 * W * (Y div 2)" by (metis mult.assoc mult.commute mult_2 numeral_Bit0)
    then have "px_index W X Y = 0 + 4 * W * (Y div 2) + X" by (simp add: px_index_def)
    with vv show ?thesis by simp
  next
    assume "Y = 2 * (Y div 2) + 1"
    then have "Y * 2 * W = (2 * (Y div 2) + 1) * 2 * W" by simp
    then have "Y * 2 * W = 4 * W * (Y div 2) + 2 * W" by (simp add: algebra_simps)
    then have "px_index W X Y = 0 + 4 * W * (Y div 2) + 2 * W + X" by (simp add: px_index_def)
    with vv show ?thesis by simp
  qed
qed

lemma double_rad_line_step:
  "sp < e \<Longrightarrow> double_rad_line e pm min_val diff src sp ip img =
     double_rad_line e pm min_val diff src (sp + 1) (ip + 2)
       (img[ip := rad_scale min_val diff (src ! sp) XOR pm,
            ip + 1 := rad_scale min_val diff (src ! sp) XOR pm])"
  by (subst double_rad_line.simps) (simp add: Let_def)

lemma double_rad_line_stop:
  "\<not> sp < e \<Longrightarrow> double_rad_line e pm min_val diff src sp ip img = (sp, ip, img)"
  by (subst double_rad_line.simps) simp

lemma double_rad_lines_step:
  "y < H \<Longrightarrow> double_rad_lines W H pm min_val diff src y sp ip img =
     (case double_rad_line ((y + 1) * W) pm min_val diff src sp ip img of
        (sp', ip', img') \<Rightarrow>
          double_rad_lines W H pm min_val diff src (y + 1) sp' (ip' + 2 * W)
            (memcpy_img img' ip' (ip' - 2 * W) (2 * W)))"
  by (subst double_rad_lines.simps) (simp add: Let_def)

lemma double_rad_lines_stop:
  "\<not> y < H \<Longrightarrow> double_rad_lines W H pm min_val diff src y sp ip img = img"
  by (subst double_rad_lines.simps) simp

lemma double_agc_line_step:
  "sp < e \<Longrightarrow> double_agc_line e pm src sp ip img =
     double_agc_line e pm src (sp + 1) (ip + 2)
       (img[ip := lo8 (src ! sp) XOR pm, ip + 1 := lo8 (src ! sp) XOR pm])"
  by (subst double_agc_line.simps) (simp add: Let_def lo8_and_ff)

lemma double_agc_line_stop:
  "\<not> sp < e \<Longrightarrow> double_agc_line e pm src sp ip img = (sp, ip, img)"
  by (subst double_agc_line.simps) simp

lemma double_agc_lines_step:
  "y < H \<Longrightarrow> double_agc_lines W H pm src y sp ip img =
     (case double_agc_line ((y + 1) * W) pm src sp ip img of
        (sp', ip', img') \<Rightarrow>
          double_agc_lines W H pm src (y + 1) sp' (ip' + 2 * W)
            (memcpy_img img' ip' (ip' - 2 * W) (2 * W)))"
  by (subst double_agc_lines.simps) (simp add: Let_def)

lemma double_agc_lines_stop:
  "\<not> y < H \<Longrightarrow> double_agc_lines W H pm src y sp ip img = img"
  by (subst double_agc_lines.simps) simp

lemma double_rad_line_props:
  "e - sp = n \<Longrightarrow> ip + 2 * n \<le> length img \<Longrightarrow>
    \<exists>img'. double_rad_line e pm min_val diff src sp ip img = (sp + n, ip + 2 * n, img') \<and>
      length img' = length img \<and>
      (\<forall>j. j < ip \<or> ip + 2 * n \<le> j \<longrightarrow> img' ! j = img ! j) \<and>
      (\<forall>k < n. img' ! (ip + 2 * k) = rad_scale min_val diff (src ! (sp + k)) XOR pm \<and>
               img' ! (ip + 2 * k + 1) = rad_scale min_val diff (src ! (sp + k)) XOR pm)"
  by (rule double_line_props[where f="double_rad_line e pm min_val diff src"
        and g="rad_scale min_val diff", OF double_rad_line_step double_rad_line_stop])

lemma double_agc_line_props:
  "e - sp = n \<Longrightarrow> ip + 2 * n \<le> length img \<Longrightarrow>
    \<exists>img'. double_agc_line e pm src sp ip img = (sp + n, ip + 2 * n, img') \<and>
      length img' = length img \<and>
      (\<forall>j. j < ip \<or> ip + 2 * n \<le> j \<longrightarrow> img' ! j = img ! j) \<and>
      (\<forall>k < n. img' ! (ip + 2 * k) = lo8 (src ! (sp + k)) XOR pm \<and>
               img' ! (ip + 2 * k + 1) = lo8 (src ! (sp + k)) XOR pm)"
  by (rule double_line_props[where f="double_agc_line e pm src" and g=lo8,
        OF double_agc_line_step double_agc_line_stop])

lemma render_double_rad_data_at:
  assumes len: "length img = 4 * W * H" and X: "X < 2 * W" and Y: "Y < 2 * H"
  shows "render_double_rad_data W H pm lep img ! px_index W X Y =
      rad_scale (lep_min_val lep) (rad_diff (lep_min_val lep) (lep_max_val lep))
        (lep_bufferP lep ! ((Y div 2) * W + X div 2)) XOR pm"
    and "length (render_double_rad_data W H pm lep img) = length img"
proof -
  let ?mn = "lep_min_val lep" and ?d = "rad_diff (lep_min_val lep) (lep_max_val lep)"
  let ?src = "lep_bufferP lep"
  have e: "render_double_rad_data W H pm lep img = double_rad_lines W H pm ?mn ?d ?src 0 0 0 img"
    by (simp add: render_double_rad_data_def Let_def)
  note p = double_lines_at[where F="double_rad_lines W H pm ?mn ?d ?src"
      and f="\<lambda>e. double_rad_line e pm ?mn ?d ?src" and g="rad_scale ?mn ?d"
      and src="?src" and pm=pm,
      OF double_rad_lines_step double_rad_lines_stop double_rad_line_props len X Y]
  show "render_double_rad_data W H pm lep img ! px_index W X Y =
      rad_scale ?mn ?d (?src ! ((Y div 2) * W + X div 2)) XOR pm"
    unfolding e by (rule p(1))
  show "length (render_double_rad_data W H pm lep img) = length img"
    unfolding e by (rule p(2))
qed

lemma render_double_agc_data_at:
  assumes len: "length img = 4 * W * H" and X: "X < 2 * W" and Y: "Y < 2 * H"
  shows "render_double_agc_data W H pm lep img ! px_index W X Y =
      lo8 (lep_bufferP lep ! ((Y div 2) * W + X div 2)) XOR pm"
    and "length (render_double_agc_data W H pm lep img) = length img"
proof -
  let ?src = "lep_bufferP lep"
  have e: "render_double_agc_data W H pm lep img = double_agc_lines W H pm ?src 0 0 0 img"
    by (simp add: render_double_agc_data_def)
  note p = double_lines_at[where F="double_agc_lines W H pm ?src"
      and f="\<lambda>e. double_agc_line e pm ?src" and g=lo8 and src="?src" and pm=pm,
      OF double_agc_lines_step double_agc_lines_stop double_agc_line_props len X Y]
  show "render_double_agc_data W H pm lep img ! px_index W X Y =
      lo8 (?src ! ((Y div 2) * W + X div 2)) XOR pm"
    unfolding e by (rule p(1))
  show "length (render_double_agc_data W H pm lep img) = length img"
    unfolding e by (rule p(2))
qed

subsection \<open>Dynamic-range scaling\<close>

lemma unat16_less: "unat (v :: 16 word) < 65536"
  using unsigned_less[of v, where 'a=nat] by simp

lemma word_of_int_diff32:
  assumes "mn \<le> (v :: 16 word)"
  shows "unat (word_of_int (uint v - uint mn) :: 32 word) = unat v - unat mn"
proof -
  from assms have le: "unat mn \<le> unat v" by (simp add: word_le_nat_alt)
  then have "uint v - uint mn = int (unat v - unat mn)" by simp
  then have "(word_of_int (uint v - uint mn) :: 32 word) = word_of_nat (unat v - unat mn)"
    by simp
  moreover have "unat v - unat mn < 2 ^ 32" using unat16_less[of v] by simp
  ultimately show ?thesis by (simp add: unat_of_nat)
qed

lemma rad_diff_unat:
  assumes "mn \<le> mx"
  shows "unat (rad_diff mn mx) = (if mx = mn then 1 else unat mx - unat mn)"
proof -
  let ?d = "word_of_int (uint mx - uint mn) :: 32 word"
  have u: "unat ?d = unat mx - unat mn" by (rule word_of_int_diff32[OF assms])
  from assms have le: "unat mn \<le> unat mx" by (simp add: word_le_nat_alt)
  have "?d = 0 \<longleftrightarrow> unat ?d = 0" by (simp add: unat_eq_0)
  also have "\<dots> \<longleftrightarrow> unat mx = unat mn" unfolding u using le by auto
  also have "\<dots> \<longleftrightarrow> mx = mn" by (simp add: word_unat_eq_iff)
  finally have z: "?d = 0 \<longleftrightarrow> mx = mn" .
  show ?thesis unfolding rad_diff_def Let_def using z u by simp
qed

lemma rad_scale_unat:
  assumes d: "0 < unat d"
  shows "unat (rad_scale mn d v) =
    (if unat v < unat mn then 0 else min 255 ((unat v - unat mn) * 255 div unat d))"
proof (cases "v < mn")
  case True
  then show ?thesis by (simp add: rad_scale_def word_less_nat_alt)
next
  case False
  then have le: "mn \<le> v" by simp
  define a where "a = (word_of_int (uint v - uint mn) :: 32 word)"
  have a: "unat a = unat v - unat mn" unfolding a_def by (rule word_of_int_diff32[OF le])
  have "unat a * unat (255 :: 32 word) < 2 ^ LENGTH(32)"
    unfolding a using unat16_less[of v] by simp
  then have "unat (a * 255) = unat a * unat (255 :: 32 word)"
    by (rule unat_mult_lem[THEN iffD1])
  then have m: "unat (a * 255) = (unat v - unat mn) * 255" by (simp add: a)
  define t where "t = a * 255 div d"
  have t: "unat t = (unat v - unat mn) * 255 div unat d" by (simp add: t_def unat_div m)
  have g: "t > 255 \<longleftrightarrow> 255 < unat t" by (simp add: word_less_nat_alt)
  have c: "\<not> 255 < unat t \<Longrightarrow> unat (ucast t :: 8 word) = unat t"
    by (simp add: unsigned_ucast_eq take_bit_eq_mod)
  have rs: "rad_scale mn d v = (if t > 255 then 255 else ucast t)"
    using False by (simp add: rad_scale_def Let_def t_def a_def)
  from False have nl: "\<not> unat v < unat mn" by (simp add: word_less_nat_alt)
  show ?thesis
  proof (cases "255 < unat t")
    case True
    then show ?thesis unfolding rs using nl g t by simp
  next
    case F: False
    then show ?thesis unfolding rs using nl g t c[OF F] by simp
  qed
qed

lemma rad_scale_spec:
  assumes "mn \<le> mx"
  shows "unat (rad_scale mn (rad_diff mn mx) v) = scale_spec (unat mn) (unat mx) (unat v)"
proof -
  note d = rad_diff_unat[OF assms]
  from assms have le: "unat mn \<le> unat mx" by (simp add: word_le_nat_alt)
  have p: "0 < unat (rad_diff mn mx)" unfolding d using le by (auto simp: word_unat_eq_iff)
  show ?thesis
    unfolding rad_scale_unat[OF p] d scale_spec_def by (simp add: word_unat_eq_iff)
qed

lemma linearize_step:
  "lepP + 1 < W * H \<Longrightarrow>
   linearize_loop W H min_val diff lepP buf =
   linearize_loop W H min_val diff (lepP + 1)
     (buf[lepP := ucast (rad_scale min_val diff (buf ! lepP))])"
  by (subst linearize_loop.simps) (simp add: Let_def)

lemma linearize_stop:
  "\<not> lepP + 1 < W * H \<Longrightarrow>
   linearize_loop W H min_val diff lepP buf =
     buf[lepP := ucast (rad_scale min_val diff (buf ! lepP))]"
  by (subst linearize_loop.simps) (simp add: Let_def)

lemma linearize_loop_props:
  "W * H - lepP = Suc n \<Longrightarrow> length buf = W * H \<Longrightarrow>
   length (linearize_loop W H min_val diff lepP buf) = length buf \<and>
   (\<forall>i < lepP. linearize_loop W H min_val diff lepP buf ! i = buf ! i) \<and>
   (\<forall>i. lepP \<le> i \<and> i < W * H \<longrightarrow>
        linearize_loop W H min_val diff lepP buf ! i = ucast (rad_scale min_val diff (buf ! i)))"
proof (induction n arbitrary: lepP buf)
  case 0
  then have s: "\<not> lepP + 1 < W * H" and l: "lepP < length buf" by simp_all
  have "\<And>i. lepP \<le> i \<and> i < W * H \<Longrightarrow> i = lepP" using 0(1) by linarith
  then show ?case unfolding linearize_stop[OF s] using l by (auto simp: nth_list_update)
next
  case (Suc n)
  then have s: "lepP + 1 < W * H" and n: "W * H - (lepP + 1) = Suc n" by simp_all
  define buf1 where "buf1 = buf[lepP := ucast (rad_scale min_val diff (buf ! lepP))]"
  have l1: "length buf1 = W * H" using Suc.prems(2) by (simp add: buf1_def)
  have lt: "lepP < length buf" using s Suc.prems(2) by simp
  note ih = Suc.IH[OF n l1]
  let ?r = "linearize_loop W H min_val diff (lepP + 1) buf1"
  have st: "linearize_loop W H min_val diff lepP buf = ?r"
    unfolding buf1_def by (rule linearize_step[OF s])
  have A: "length ?r = length buf" using ih l1 Suc.prems(2) by simp
  have B: "\<forall>i < lepP. ?r ! i = buf ! i"
  proof (intro allI impI)
    fix i assume i: "i < lepP"
    then have "i < lepP + 1" by simp
    with ih have "?r ! i = buf1 ! i" by blast
    with i show "?r ! i = buf ! i" by (simp add: buf1_def)
  qed
  have C: "\<forall>i. lepP \<le> i \<and> i < W * H \<longrightarrow> ?r ! i = ucast (rad_scale min_val diff (buf ! i))"
  proof (intro allI impI)
    fix i assume i: "lepP \<le> i \<and> i < W * H"
    show "?r ! i = ucast (rad_scale min_val diff (buf ! i))"
    proof (cases "i = lepP")
      case True
      then have "i < lepP + 1" by simp
      with ih have "?r ! i = buf1 ! i" by blast
      with True lt show ?thesis by (simp add: buf1_def)
    next
      case False
      with i have "lepP + 1 \<le> i \<and> i < W * H" by simp
      with ih have "?r ! i = ucast (rad_scale min_val diff (buf1 ! i))" by blast
      with False show ?thesis by (simp add: buf1_def)
    qed
  qed
  from A B C show ?case unfolding st by blast
qed

lemma render_interp_rad_data_frame:
  assumes W: "0 < W" and H: "0 < H" and lb: "length (lep_bufferP lep) = W * H"
  shows "length (lep_bufferP (fst (render_interp_rad_data W H pm lep img))) = W * H"
    and "i < W * H \<Longrightarrow> lep_bufferP (fst (render_interp_rad_data W H pm lep img)) ! i =
      ucast (rad_scale (lep_min_val lep) (rad_diff (lep_min_val lep) (lep_max_val lep))
        (lep_bufferP lep ! i))"
    and "snd (render_interp_rad_data W H pm lep img) =
      render_interp_agc_data W H pm (lep_bufferP (fst (render_interp_rad_data W H pm lep img))) img"
proof -
  let ?mn = "lep_min_val lep" and ?d = "rad_diff (lep_min_val lep) (lep_max_val lep)"
  have f: "lep_bufferP (fst (render_interp_rad_data W H pm lep img)) =
      linearize_loop W H ?mn ?d 0 (lep_bufferP lep)"
    by (simp add: render_interp_rad_data_def Let_def)
  from W H have "0 < W * H" by simp
  then obtain n where n: "W * H - 0 = Suc n" by (cases "W * H") simp_all
  note p = linearize_loop_props[OF n lb, of ?mn ?d]
  show "length (lep_bufferP (fst (render_interp_rad_data W H pm lep img))) = W * H"
    unfolding f using p lb by simp
  show "i < W * H \<Longrightarrow> lep_bufferP (fst (render_interp_rad_data W H pm lep img)) ! i =
      ucast (rad_scale ?mn ?d (lep_bufferP lep ! i))"
    unfolding f using p by simp
  show "snd (render_interp_rad_data W H pm lep img) =
      render_interp_agc_data W H pm (lep_bufferP (fst (render_interp_rad_data W H pm lep img))) img"
    by (simp add: render_interp_rad_data_def Let_def)
qed

lemma unat_ucast_8_16: "unat (ucast (w :: 8 word) :: 16 word) = unat w"
  by (simp add: unsigned_ucast_eq take_bit_eq_mod) (use unsigned_less[of w, where 'a=nat] in simp)

lemma src_index_less:
  assumes "X < 2 * (W::nat)" "Y < 2 * (H::nat)"
  shows "(Y div 2) * W + X div 2 < W * H"
proof -
  from assms have x: "X div 2 < W" and y: "Y div 2 + 1 \<le> H" by auto
  from y have "(Y div 2 + 1) * W \<le> H * W" by (rule mult_le_mono1)
  with x show ?thesis by (simp add: mult.commute)
qed

lemma scale_spec_100_250:
  "scale_spec 100 250 175 = 127"
  "v < 100 \<Longrightarrow> scale_spec 100 250 v = 0"
  "250 \<le> v \<Longrightarrow> scale_spec 100 250 v = 255"
  by (simp_all add: scale_spec_def)

text \<open>
  C2. For every frame of \<open>W * H\<close> samples whose recorded minimum is at most its recorded
  maximum, and every output pixel \<open>(X, Y)\<close>: the pixel written by
  \<^verbatim>\<open>render_double_rad_data\<close>, with the palette XOR taken off again, is \<open>scale_spec\<close> of the
  source sample that owns it, that is 0 below the minimum and otherwise
  \<open>min 255 ((v - min) * 255 div (max - min))\<close> with the divisor 1 when maximum and minimum are
  equal; \<^verbatim>\<open>render_interp_rad_data\<close> replaces that sample in the frame by the same value and
  then renders the rewritten frame with \<^verbatim>\<open>render_interp_agc_data\<close>. With minimum 100 and
  maximum 250 a sample of 175 gives 127, a sample below 100 gives 0 and a sample of 250 or
  more gives 255.
\<close>

theorem rad_scaling:
  assumes W: "0 < W" and H: "0 < H"
    and lb: "length (lep_bufferP lep) = W * H" and len: "length img = 4 * W * H"
    and mm: "lep_min_val lep \<le> lep_max_val lep"
    and X: "X < 2 * W" and Y: "Y < 2 * H"
  shows "unat ((render_double_rad_data W H pm lep img ! px_index W X Y) XOR pm) =
           scale_spec (unat (lep_min_val lep)) (unat (lep_max_val lep))
             (unat (lep_bufferP lep ! ((Y div 2) * W + X div 2))) \<and>
         unat (lep_bufferP (fst (render_interp_rad_data W H pm lep img))
                 ! ((Y div 2) * W + X div 2)) =
           scale_spec (unat (lep_min_val lep)) (unat (lep_max_val lep))
             (unat (lep_bufferP lep ! ((Y div 2) * W + X div 2))) \<and>
         snd (render_interp_rad_data W H pm lep img) =
           render_interp_agc_data W H pm
             (lep_bufferP (fst (render_interp_rad_data W H pm lep img))) img \<and>
         (lep_min_val lep = 100 \<and> lep_max_val lep = 250 \<longrightarrow>
            (lep_bufferP lep ! ((Y div 2) * W + X div 2) = 175 \<longrightarrow>
               unat ((render_double_rad_data W H pm lep img ! px_index W X Y) XOR pm) = 127) \<and>
            (lep_bufferP lep ! ((Y div 2) * W + X div 2) < 100 \<longrightarrow>
               unat ((render_double_rad_data W H pm lep img ! px_index W X Y) XOR pm) = 0) \<and>
            (250 \<le> lep_bufferP lep ! ((Y div 2) * W + X div 2) \<longrightarrow>
               unat ((render_double_rad_data W H pm lep img ! px_index W X Y) XOR pm) = 255))"
proof -
  note i = src_index_less[OF X Y]
  let ?v = "lep_bufferP lep ! ((Y div 2) * W + X div 2)"
  have a: "(render_double_rad_data W H pm lep img ! px_index W X Y) XOR pm =
      rad_scale (lep_min_val lep) (rad_diff (lep_min_val lep) (lep_max_val lep)) ?v"
    unfolding render_double_rad_data_at(1)[OF len X Y] by (simp add: xor.assoc)
  have b: "unat ((render_double_rad_data W H pm lep img ! px_index W X Y) XOR pm) =
      scale_spec (unat (lep_min_val lep)) (unat (lep_max_val lep)) (unat ?v)"
    unfolding a by (rule rad_scale_spec[OF mm])
  have c: "unat (lep_bufferP (fst (render_interp_rad_data W H pm lep img))
                 ! ((Y div 2) * W + X div 2)) =
      scale_spec (unat (lep_min_val lep)) (unat (lep_max_val lep)) (unat ?v)"
    unfolding render_interp_rad_data_frame(2)[OF W H lb i] unat_ucast_8_16
    by (rule rad_scale_spec[OF mm])
  have d: "lep_min_val lep = 100 \<and> lep_max_val lep = 250 \<longrightarrow>
            (?v = 175 \<longrightarrow>
               unat ((render_double_rad_data W H pm lep img ! px_index W X Y) XOR pm) = 127) \<and>
            (?v < 100 \<longrightarrow>
               unat ((render_double_rad_data W H pm lep img ! px_index W X Y) XOR pm) = 0) \<and>
            (250 \<le> ?v \<longrightarrow>
               unat ((render_double_rad_data W H pm lep img ! px_index W X Y) XOR pm) = 255)"
  proof (intro impI conjI)
    assume r: "lep_min_val lep = 100 \<and> lep_max_val lep = 250"
    then have s: "unat ((render_double_rad_data W H pm lep img ! px_index W X Y) XOR pm) =
        scale_spec 100 250 (unat ?v)"
      unfolding b by simp
    { assume "?v = 175"
      then have "unat ?v = 175" by simp
      then show "unat ((render_double_rad_data W H pm lep img ! px_index W X Y) XOR pm) = 127"
        unfolding s by (simp add: scale_spec_100_250) }
    { assume "?v < 100"
      then have "unat ?v < 100" by (simp add: word_less_nat_alt)
      then show "unat ((render_double_rad_data W H pm lep img ! px_index W X Y) XOR pm) = 0"
        unfolding s by (rule scale_spec_100_250) }
    { assume "250 \<le> ?v"
      then have "250 \<le> unat ?v" by (simp add: word_le_nat_alt)
      then show "unat ((render_double_rad_data W H pm lep img ! px_index W X Y) XOR pm) = 255"
        unfolding s by (rule scale_spec_100_250) }
  qed
  from b c render_interp_rad_data_frame(3)[OF W H lb] d show ?thesis by blast
qed

theorem rad_scaling_witness:
  "unat ((render_double_rad_data 2 2 0xFF example_frame (replicate 16 0) ! px_index 2 0 0)
      XOR 0xFF) = 127 \<and>
   unat ((render_double_rad_data 2 2 0xFF example_frame (replicate 16 0) ! px_index 2 2 0)
      XOR 0xFF) = 0 \<and>
   unat ((render_double_rad_data 2 2 0xFF example_frame (replicate 16 0) ! px_index 2 0 2)
      XOR 0xFF) = 255 \<and>
   unat ((render_double_rad_data 2 2 0xFF example_frame (replicate 16 0) ! px_index 2 3 3)
      XOR 0xFF) = 255 \<and>
   unat (lep_bufferP (fst (render_interp_rad_data 2 2 0xFF example_frame (replicate 16 0)))
      ! 0) = 127"
proof -
  have h1: "0 < (2::nat)" by simp
  have h3: "length (lep_bufferP example_frame) = 2 * 2" by (simp add: example_frame_def)
  have h4: "length (replicate 16 (0 :: 8 word)) = 4 * 2 * 2" by simp
  have h5: "lep_min_val example_frame \<le> lep_max_val example_frame"
    by (simp add: example_frame_def)
  have x0: "(0::nat) < 2 * 2" and x2: "(2::nat) < 2 * 2" and x3: "(3::nat) < 2 * 2"
    by simp_all
  note r = rad_scaling[OF h1 h1 h3 h4 h5, of _ _ "0xFF"]
  have mn: "lep_min_val example_frame = 100 \<and> lep_max_val example_frame = 250"
    by (simp add: example_frame_def)
  have v: "lep_bufferP example_frame ! ((0 div 2) * 2 + 0 div 2) = 175"
    "lep_bufferP example_frame ! ((0 div 2) * 2 + 2 div 2) < 100"
    "250 \<le> lep_bufferP example_frame ! ((2 div 2) * 2 + 0 div 2)"
    "250 \<le> lep_bufferP example_frame ! ((3 div 2) * 2 + 3 div 2)"
    by (simp_all add: example_frame_def)
  have s: "scale_spec (unat (lep_min_val example_frame)) (unat (lep_max_val example_frame))
      (unat (lep_bufferP example_frame ! ((0 div 2) * 2 + 0 div 2))) = 127"
    by (simp add: example_frame_def scale_spec_def)
  have z: "(0 div 2) * 2 + 0 div 2 = (0::nat)" by simp
  from r[OF x0 x0] mn v(1) have a: "unat ((render_double_rad_data 2 2 0xFF example_frame
      (replicate 16 0) ! px_index 2 0 0) XOR 0xFF) = 127" by blast
  from r[OF x2 x0] mn v(2) have b: "unat ((render_double_rad_data 2 2 0xFF example_frame
      (replicate 16 0) ! px_index 2 2 0) XOR 0xFF) = 0" by blast
  from r[OF x0 x2] mn v(3) have c: "unat ((render_double_rad_data 2 2 0xFF example_frame
      (replicate 16 0) ! px_index 2 0 2) XOR 0xFF) = 255" by blast
  from r[OF x3 x3] mn v(4) have d: "unat ((render_double_rad_data 2 2 0xFF example_frame
      (replicate 16 0) ! px_index 2 3 3) XOR 0xFF) = 255" by blast
  from r[OF x0 x0] have "unat (lep_bufferP (fst (render_interp_rad_data 2 2 0xFF example_frame
      (replicate 16 0))) ! ((0 div 2) * 2 + 0 div 2)) = 127"
    unfolding s by blast
  then have e: "unat (lep_bufferP (fst (render_interp_rad_data 2 2 0xFF example_frame
      (replicate 16 0))) ! 0) = 127" unfolding z .
  from a b c d e show ?thesis by blast
qed

subsection \<open>Palette inversion\<close>

lemma px_index_cover:
  assumes W: "0 < W" and i: "i < 4 * W * H"
  obtains X Y where "X < 2 * W" "Y < 2 * H" "i = px_index W X Y"
proof -
  have a: "i mod (2 * W) < 2 * W" using W by simp
  have "i < (2 * H) * (2 * W)" using i by (simp add: algebra_simps)
  then have b: "i div (2 * W) < 2 * H" using W by (simp add: less_mult_imp_div_less)
  have "i div (2 * W) * (2 * W) + i mod (2 * W) = i" by (rule div_mult_mod_eq)
  then have c: "i = px_index W (i mod (2 * W)) (i div (2 * W))"
    by (simp add: px_index_def mult.assoc)
  from a b c show ?thesis by (rule that)
qed

text \<open>
  C3. For every frame of \<open>W * H\<close> samples, every setting of the interpolation and AGC
  options (the four rendering strategies of \<^verbatim>\<open>render_lep_data\<close>) and every pixel index
  \<open>i\<close> of the image, the pixel rendered with the black-hot option set is \<open>0xFF XOR\<close> the pixel
  rendered from the same frame with the option clear, whatever the two image buffers held
  before.
\<close>

theorem palette_complement:
  assumes W: "0 < W" and H: "0 < H"
    and lb: "length (lep_bufferP lep) = W * H"
    and la: "length imga = 4 * W * H" and lbb: "length imgb = 4 * W * H"
    and i: "i < 4 * W * H"
  shows "snd (render_lep_data W H lep imga (g\<lparr>black_hot_palette := True\<rparr>)) ! i =
           0xFF XOR snd (render_lep_data W H lep imgb (g\<lparr>black_hot_palette := False\<rparr>)) ! i"
proof -
  from px_index_cover[OF W i] obtain X Y where
    X: "X < 2 * W" and Y: "Y < 2 * H" and e: "i = px_index W X Y" by blast
  show ?thesis
  proof (cases "display_interp_enable g")
    case interp: True
    show ?thesis
    proof (cases "agc_enabled g")
      case True
      with interp show ?thesis
        unfolding e
        by (simp add: render_lep_data_def render_interp_agc_data_at(1)[OF W H la X Y]
            render_interp_agc_data_at(1)[OF W H lbb X Y] xor.commute)
    next
      case False
      with interp show ?thesis
        unfolding e
        by (simp add: render_lep_data_def render_interp_rad_data_def Let_def
            render_interp_agc_data_at(1)[OF W H la X Y]
            render_interp_agc_data_at(1)[OF W H lbb X Y] xor.commute)
    qed
  next
    case doubled: False
    show ?thesis
    proof (cases "agc_enabled g")
      case True
      with doubled show ?thesis
        unfolding e
        by (simp add: render_lep_data_def render_double_agc_data_at(1)[OF la X Y]
            render_double_agc_data_at(1)[OF lbb X Y] xor.commute)
    next
      case False
      with doubled show ?thesis
        unfolding e
        by (simp add: render_lep_data_def render_double_rad_data_at(1)[OF la X Y]
            render_double_rad_data_at(1)[OF lbb X Y] xor.commute)
    qed
  qed
qed

theorem palette_complement_witness:
  "snd (render_lep_data 2 2 example_frame (replicate 16 0)
          ((example_gui True False)\<lparr>black_hot_palette := True\<rparr>)) ! 5 =
     0xFF XOR snd (render_lep_data 2 2 example_frame (replicate 16 1)
          ((example_gui True False)\<lparr>black_hot_palette := False\<rparr>)) ! 5 \<and>
   snd (render_lep_data 2 2 example_frame (replicate 16 0)
          ((example_gui False True)\<lparr>black_hot_palette := True\<rparr>)) ! 10 =
     0xFF XOR snd (render_lep_data 2 2 example_frame (replicate 16 1)
          ((example_gui False True)\<lparr>black_hot_palette := False\<rparr>)) ! 10"
proof -
  have h1: "0 < (2::nat)" by simp
  have h3: "length (lep_bufferP example_frame) = 2 * 2" by (simp add: example_frame_def)
  have h4: "length (replicate 16 (0 :: 8 word)) = 4 * 2 * 2"
    and h5: "length (replicate 16 (1 :: 8 word)) = 4 * 2 * 2" by simp_all
  have i5: "(5::nat) < 4 * 2 * 2" and i10: "(10::nat) < 4 * 2 * 2" by simp_all
  note r = palette_complement[OF h1 h1 h3 h4 h5]
  from r[OF i5, of "example_gui True False"] r[OF i10, of "example_gui False True"]
  show ?thesis by blast
qed

section \<open>Display handoff on the buffers\<close>

lemma vid_display_loop_step:
  "p < rendEnd \<Longrightarrow>
   vid_display_loop rendEnd rend p drv = vid_display_loop rendEnd rend (p + 1) (drv[p := rend ! p])"
  by (subst vid_display_loop.simps) simp

lemma vid_display_loop_stop:
  "\<not> p < rendEnd \<Longrightarrow> vid_display_loop rendEnd rend p drv = drv"
  by (subst vid_display_loop.simps) simp

lemma vid_display_loop_props:
  "rendEnd - p = n \<Longrightarrow> rendEnd \<le> length drv \<Longrightarrow>
   length (vid_display_loop rendEnd rend p drv) = length drv \<and>
   (\<forall>k. vid_display_loop rendEnd rend p drv ! k =
        (if p \<le> k \<and> k < rendEnd then rend ! k else drv ! k))"
proof (induction n arbitrary: p drv)
  case 0
  then have s: "\<not> p < rendEnd" by simp
  then show ?case unfolding vid_display_loop_stop[OF s] by auto
next
  case (Suc n)
  then have lt: "p < rendEnd" and n: "rendEnd - (p + 1) = n" by simp_all
  have l: "rendEnd \<le> length (drv[p := rend ! p])" using Suc.prems(2) by simp
  note ih = Suc.IH[OF n l]
  have pl: "p < length drv" using lt Suc.prems(2) by simp
  show ?case
    unfolding vid_display_loop_step[OF lt] using ih pl lt
    by (auto simp: nth_list_update)
qed

lemma vid_display_loop_copy:
  assumes "length rend = n" "length drv = n"
  shows "vid_display_loop n rend 0 drv = rend"
proof -
  have m: "n - 0 = n" by simp
  have l: "n \<le> length drv" using assms by simp
  note p = vid_display_loop_props[OF m l, of rend]
  show ?thesis
  proof (rule nth_equalityI)
    show "length (vid_display_loop n rend 0 drv) = length rend" using p assms by simp
  next
    fix k assume "k < length (vid_display_loop n rend 0 drv)"
    then have "k < n" using p assms by simp
    then show "vid_display_loop n rend 0 drv ! k = rend ! k" using p by simp
  qed
qed

lemma img_buf_size: "IMG_BUF_WIDTH W * IMG_BUF_HEIGHT H = 4 * W * H"
  by (simp add: IMG_BUF_WIDTH_def IMG_BUF_HEIGHT_def IMG_BUF_MULT_FACTOR_def)

lemma vid_display_image_copy:
  assumes "length (rend_fbP sys ! j) = 4 * W * H" "length (drv_fb sys) = 4 * W * H"
  shows "vid_display_image W H j sys = sys\<lparr>drv_fb := rend_fbP sys ! j\<rparr>"
  unfolding vid_display_image_def img_buf_size
  by (simp add: vid_display_loop_copy[OF assms])

lemma render_lep_data_length:
  assumes W: "0 < W" and H: "0 < H" and len: "length img = 4 * W * H"
  shows "length (snd (render_lep_data W H lep img g)) = 4 * W * H"
proof -
  have X: "0 < 2 * W" and Y: "0 < 2 * H" using W H by simp_all
  show ?thesis
    unfolding render_lep_data_def Let_def
    using render_interp_agc_data_at(2)[OF W H len X Y]
      render_double_agc_data_at(2)[OF len X Y] render_double_rad_data_at(2)[OF len X Y] len
    by (simp add: render_interp_rad_data_def Let_def)
qed

lemma vid_render_overlays_length:
  assumes "ext_ok ext"
  shows "length (vid_render_overlays ext i v lep img g) = length img"
  using assms by (simp add: vid_render_overlays_def ext_ok_def Let_def)

lemma vid_display_image_fields [simp]:
  "vid (vid_display_image W H j sys) = vid sys"
  "rend_fbP (vid_display_image W H j sys) = rend_fbP sys"
  "vid_lep_buffer (vid_display_image W H j sys) = vid_lep_buffer sys"
  by (simp_all add: vid_display_image_def)

lemma vid_render_image_fields:
  "drv_fb (vid_render_image ext W H i sys) = drv_fb sys"
  "vid (vid_render_image ext W H i sys) =
     (vid sys)\<lparr>gui_state := vid_render_gui ext (vid_lep_buffer sys ! (if i = 0 then 0 else 1))
                                (gui_state (vid sys))\<rparr>"
  "rend_fbP (vid_render_image ext W H i sys) =
     (rend_fbP sys)[i :=
        vid_render_overlays ext (cur_parm_index (vid sys)) (cur_parm_value (vid sys))
          (fst (render_lep_data W H (vid_lep_buffer sys ! (if i = 0 then 0 else 1))
                  (rend_fbP sys ! i)
                  (vid_render_gui ext (vid_lep_buffer sys ! (if i = 0 then 0 else 1))
                     (gui_state (vid sys)))))
          (snd (render_lep_data W H (vid_lep_buffer sys ! (if i = 0 then 0 else 1))
                  (rend_fbP sys ! i)
                  (vid_render_gui ext (vid_lep_buffer sys ! (if i = 0 then 0 else 1))
                     (gui_state (vid sys)))))
          (vid_render_gui ext (vid_lep_buffer sys ! (if i = 0 then 0 else 1))
             (gui_state (vid sys)))]"
  "length (vid_lep_buffer (vid_render_image ext W H i sys)) = length (vid_lep_buffer sys)"
  by (simp_all add: vid_render_image_def Let_def)

lemma vid_render_image_flag2:
  "vid_render_image ext W H i (sys\<lparr>vid := (vid sys)\<lparr>notify_image_2 := b\<rparr>\<rparr>) =
     (vid_render_image ext W H i sys)
       \<lparr>vid := (vid (vid_render_image ext W H i sys))\<lparr>notify_image_2 := b\<rparr>\<rparr>"
  by (simp add: vid_render_image_def Let_def)

lemma vid_display_image_flag2:
  "vid_display_image W H j (sys\<lparr>vid := (vid sys)\<lparr>notify_image_2 := b\<rparr>\<rparr>) =
     (vid_display_image W H j sys)
       \<lparr>vid := (vid (vid_display_image W H j sys))\<lparr>notify_image_2 := b\<rparr>\<rparr>"
  by (simp add: vid_display_image_def)

lemma vid_render_image_notify [simp]:
  "notify_image_1 (vid (vid_render_image ext W H i sys)) = notify_image_1 (vid sys)"
  "notify_image_2 (vid (vid_render_image ext W H i sys)) = notify_image_2 (vid sys)"
  by (simp_all add: vid_render_image_fields)

text \<open>The pass on the buffers is the pass on the variables followed by its buffer
  operations, carried out in order.\<close>

lemma vid_sys_step_pass:
  "fst (vid_sys_step ext W H (Loop_pass v now) (sys, hist)) =
     vid_task_loop_body ext W H v now sys"
proof -
  define s1 where "s1 = vid_eval_parm_update now (vid_handle_notifications v (vid sys))"
  have p: "vid_task_pass v now (vid sys) =
      (s1\<lparr>notify_image_1 := False, notify_image_2 := False\<rparr>,
       (if notify_image_1 s1 then [Wait_frame, Display_image 1, Render_image 0] else []) @
       (if notify_image_2 s1 then [Wait_frame, Display_image 0, Render_image 1] else []))"
    by (auto simp: vid_task_pass_def Let_def s1_def)
  have b: "vid_task_loop_body ext W H v now sys =
      (let sysA = (if notify_image_1 s1
                   then vid_render_image ext W H 0
                          (vid_display_image W H 1 (sys\<lparr>vid := s1\<lparr>notify_image_1 := False\<rparr>\<rparr>))
                   else sys\<lparr>vid := s1\<rparr>)
       in if notify_image_2 s1
          then vid_render_image ext W H 1
                 (vid_display_image W H 0 (sysA\<lparr>vid := (vid sysA)\<lparr>notify_image_2 := False\<rparr>\<rparr>))
          else sysA)"
    by (simp add: vid_task_loop_body_def Let_def s1_def)
  show ?thesis
  proof (cases "notify_image_1 s1")
    case n1: True
    show ?thesis
    proof (cases "notify_image_2 s1")
      case n2: True
      define Y where "Y = sys\<lparr>vid := s1\<lparr>notify_image_1 := False\<rparr>\<rparr>"
      define X where "X = vid_render_image ext W H 0 (vid_display_image W H 1 Y)"
      have e: "sys\<lparr>vid := s1\<lparr>notify_image_1 := False, notify_image_2 := False\<rparr>\<rparr> =
          Y\<lparr>vid := (vid Y)\<lparr>notify_image_2 := False\<rparr>\<rparr>"
        by (simp add: Y_def)
      have x: "vid_render_image ext W H 0 (vid_display_image W H 1
            (sys\<lparr>vid := s1\<lparr>notify_image_1 := False, notify_image_2 := False\<rparr>\<rparr>)) =
          X\<lparr>vid := (vid X)\<lparr>notify_image_2 := False\<rparr>\<rparr>"
        unfolding e vid_display_image_flag2 vid_render_image_flag2 X_def ..
      have l: "fst (vid_sys_step ext W H (Loop_pass v now) (sys, hist)) =
          vid_render_image ext W H 1 (vid_display_image W H 0
            (vid_render_image ext W H 0 (vid_display_image W H 1
              (sys\<lparr>vid := s1\<lparr>notify_image_1 := False, notify_image_2 := False\<rparr>\<rparr>))))"
        using n1 n2 by (simp add: p)
      have r: "vid_task_loop_body ext W H v now sys =
          vid_render_image ext W H 1 (vid_display_image W H 0
            (X\<lparr>vid := (vid X)\<lparr>notify_image_2 := False\<rparr>\<rparr>))"
        unfolding b X_def Y_def using n1 n2 by (simp add: Let_def)
      show ?thesis unfolding l r x ..
    next
      case n2: False
      then have e: "s1\<lparr>notify_image_1 := False, notify_image_2 := False\<rparr> =
          s1\<lparr>notify_image_1 := False\<rparr>" by simp
      show ?thesis unfolding b using n1 n2 by (simp add: p e)
    qed
  next
    case n1: False
    show ?thesis
    proof (cases "notify_image_2 s1")
      case n2: True
      from n1 have e: "s1\<lparr>notify_image_1 := False, notify_image_2 := False\<rparr> =
          s1\<lparr>notify_image_2 := False\<rparr>" by simp
      show ?thesis unfolding b using n1 n2 by (simp add: p e)
    next
      case n2: False
      with n1 have e: "s1\<lparr>notify_image_1 := False, notify_image_2 := False\<rparr> = s1" by simp
      show ?thesis unfolding b using n1 n2 by (simp add: p e)
    qed
  qed
qed

lemma handoff_inv_start:
  "bufs_ok W H sys0 \<Longrightarrow> \<not> notify_image_1 (vid sys0) \<Longrightarrow> \<not> notify_image_2 (vid sys0) \<Longrightarrow>
   handoff_inv W H sys0 (sys0, [None, None])"
  by (simp add: handoff_inv_def less_Suc_eq numeral_2_eq_2)

lemma rendered_length:
  assumes W: "0 < W" and H: "0 < H" and ext: "ext_ok ext" and len: "length img = 4 * W * H"
  shows "length (vid_render_overlays ext i v (fst (render_lep_data W H lep img g))
           (snd (render_lep_data W H lep img g)) g') = 4 * W * H"
  unfolding vid_render_overlays_length[OF ext] by (rule render_lep_data_length[OF W H len])

lemma handoff_invI:
  assumes "bufs_ok W H sys" "length hist = 2"
    "\<not> notify_image_1 (vid sys)" "\<not> notify_image_2 (vid sys)"
    "\<And>j. j < 2 \<Longrightarrow>
       rend_fbP sys ! j = (case hist ! j of Some img \<Rightarrow> img | None \<Rightarrow> rend_fbP sys0 ! j)"
  shows "handoff_inv W H sys0 (sys, hist)"
  using assms by (simp add: handoff_inv_def)

lemma handoff_invD:
  assumes "handoff_inv W H sys0 (sys, hist)"
  shows "bufs_ok W H sys" "length hist = 2"
    "\<not> notify_image_1 (vid sys)" "\<not> notify_image_2 (vid sys)"
    "\<And>j. j < 2 \<Longrightarrow>
       rend_fbP sys ! j = (case hist ! j of Some img \<Rightarrow> img | None \<Rightarrow> rend_fbP sys0 ! j)"
  using assms by (simp_all add: handoff_inv_def)

lemma bufs_ok_rend:
  "bufs_ok W H sys \<Longrightarrow> j < 2 \<Longrightarrow> length (rend_fbP sys ! j) = 4 * W * H"
  by (auto simp: bufs_ok_def less_Suc_eq numeral_2_eq_2)

lemma handoff_inv_display:
  assumes inv: "handoff_inv W H sys0 (sys, hist)" and j: "j < 2"
  shows "vid_display_image W H j sys = sys\<lparr>drv_fb := rend_fbP sys ! j\<rparr>"
    and "handoff_inv W H sys0 (vid_exec ext W H (Display_image (int j)) (sys, hist))"
proof -
  note d = handoff_invD[OF inv]
  have l: "length (rend_fbP sys ! j) = 4 * W * H" by (rule bufs_ok_rend[OF d(1) j])
  have ld: "length (drv_fb sys) = 4 * W * H" using d(1) by (simp add: bufs_ok_def)
  show c: "vid_display_image W H j sys = sys\<lparr>drv_fb := rend_fbP sys ! j\<rparr>"
    by (rule vid_display_image_copy[OF l ld])
  have b: "bufs_ok W H (sys\<lparr>drv_fb := rend_fbP sys ! j\<rparr>)"
    using d(1) l by (simp add: bufs_ok_def)
  have "handoff_inv W H sys0 (sys\<lparr>drv_fb := rend_fbP sys ! j\<rparr>, hist)"
    using b d(2,3,4) d(5) by (intro handoff_invI) simp_all
  then show "handoff_inv W H sys0 (vid_exec ext W H (Display_image (int j)) (sys, hist))"
    by (simp add: c)
qed

lemma handoff_inv_render:
  assumes W: "0 < W" and H: "0 < H" and ext: "ext_ok ext"
    and inv: "handoff_inv W H sys0 (sys, hist)" and i: "i < 2"
  shows "handoff_inv W H sys0 (vid_exec ext W H (Render_image (int i)) (sys, hist))"
proof -
  note d = handoff_invD[OF inv]
  have l: "length (rend_fbP sys ! i) = 4 * W * H" by (rule bufs_ok_rend[OF d(1) i])
  define sys' where "sys' = vid_render_image ext W H i sys"
  have l2: "length (rend_fbP sys) = 2" using d(1) by (simp add: bufs_ok_def)
  have ri: "length (rend_fbP sys' ! i) = 4 * W * H"
    unfolding sys'_def vid_render_image_fields using i l2 rendered_length[OF W H ext l]
    by simp
  have ro: "\<And>j. j \<noteq> i \<Longrightarrow> rend_fbP sys' ! j = rend_fbP sys ! j"
    unfolding sys'_def vid_render_image_fields by simp
  have rl: "length (rend_fbP sys') = 2"
    unfolding sys'_def vid_render_image_fields using l2 by simp
  have b: "bufs_ok W H sys'"
  proof -
    have "\<And>j. j < 2 \<Longrightarrow> length (rend_fbP sys' ! j) = 4 * W * H"
    proof -
      fix j :: nat assume j: "j < 2"
      show "length (rend_fbP sys' ! j) = 4 * W * H"
      proof (cases "j = i")
        case True then show ?thesis using ri by simp
      next
        case False then show ?thesis using ro bufs_ok_rend[OF d(1) j] by simp
      qed
    qed
    from this[of 0] this[of 1] have "length (rend_fbP sys' ! 0) = 4 * W * H"
      "length (rend_fbP sys' ! 1) = 4 * W * H" by simp_all
    moreover have "length (drv_fb sys') = 4 * W * H"
      "length (vid_lep_buffer sys') = 2"
      unfolding sys'_def vid_render_image_fields using d(1) by (simp_all add: bufs_ok_def)
    ultimately show ?thesis using rl by (simp add: bufs_ok_def)
  qed
  have "handoff_inv W H sys0 (sys', hist[i := Some (rend_fbP sys' ! i)])"
  proof (rule handoff_invI[OF b])
    show "length (hist[i := Some (rend_fbP sys' ! i)]) = 2" using d(2) by simp
    show "\<not> notify_image_1 (vid sys')" "\<not> notify_image_2 (vid sys')"
      unfolding sys'_def using d(3,4) by simp_all
    fix j :: nat assume j: "j < 2"
    show "rend_fbP sys' ! j =
        (case hist[i := Some (rend_fbP sys' ! i)] ! j of Some img \<Rightarrow> img
         | None \<Rightarrow> rend_fbP sys0 ! j)"
    proof (cases "j = i")
      case True
      then show ?thesis using i d(2) by simp
    next
      case False
      then show ?thesis using ro[OF False] d(5)[OF j] by simp
    qed
  qed
  then show ?thesis by (simp add: sys'_def)
qed

lemma handoff_block:
  assumes W: "0 < W" and H: "0 < H" and ext: "ext_ok ext"
    and inv: "handoff_inv W H sys0 (st, h)" and K: "K < 2"
    and st': "st' = vid_render_image ext W H K (vid_display_image W H (1 - K) st)"
  shows "drv_fb st' = rend_fbP st ! (1 - K)"
    and "rend_fbP st' ! (1 - K) = rend_fbP st ! (1 - K)"
    and "rend_fbP st' ! K =
      vid_render_overlays ext (cur_parm_index (vid st)) (cur_parm_value (vid st))
        (fst (render_lep_data W H (vid_lep_buffer st ! K) (rend_fbP st ! K)
                (vid_render_gui ext (vid_lep_buffer st ! K) (gui_state (vid st)))))
        (snd (render_lep_data W H (vid_lep_buffer st ! K) (rend_fbP st ! K)
                (vid_render_gui ext (vid_lep_buffer st ! K) (gui_state (vid st)))))
        (vid_render_gui ext (vid_lep_buffer st ! K) (gui_state (vid st)))"
    and "h ! (1 - K) = Some img \<Longrightarrow> drv_fb st' = img"
    and "foldl (\<lambda>s a. vid_exec ext W H a s) (st, h)
           [Wait_frame, Display_image (1 - int K), Render_image (int K)] =
         (st', h[K := Some (rend_fbP st' ! K)])"
    and "handoff_inv W H sys0 (st', h[K := Some (rend_fbP st' ! K)])"
proof -
  from K have KK: "K = 0 \<or> K = 1" by auto
  then have o: "1 - K < 2" and ne: "1 - K \<noteq> K" and slot: "(if K = 0 then 0 else 1) = K"
    and io: "nat (1 - int K) = 1 - K" "int (1 - K) = 1 - int K" by auto
  note d = handoff_invD[OF inv]
  have l2: "length (rend_fbP st) = 2" using d(1) by (simp add: bufs_ok_def)
  note c = handoff_inv_display(1)[OF inv o]
  show a: "drv_fb st' = rend_fbP st ! (1 - K)"
    unfolding st' vid_render_image_fields c by simp
  show "rend_fbP st' ! (1 - K) = rend_fbP st ! (1 - K)"
    unfolding st' vid_render_image_fields using ne by simp
  show "rend_fbP st' ! K =
      vid_render_overlays ext (cur_parm_index (vid st)) (cur_parm_value (vid st))
        (fst (render_lep_data W H (vid_lep_buffer st ! K) (rend_fbP st ! K)
                (vid_render_gui ext (vid_lep_buffer st ! K) (gui_state (vid st)))))
        (snd (render_lep_data W H (vid_lep_buffer st ! K) (rend_fbP st ! K)
                (vid_render_gui ext (vid_lep_buffer st ! K) (gui_state (vid st)))))
        (vid_render_gui ext (vid_lep_buffer st ! K) (gui_state (vid st)))"
    unfolding st' vid_render_image_fields slot using K l2 by simp
  show "h ! (1 - K) = Some img \<Longrightarrow> drv_fb st' = img"
    unfolding a using d(5)[OF o] by simp
  show f: "foldl (\<lambda>s a. vid_exec ext W H a s) (st, h)
           [Wait_frame, Display_image (1 - int K), Render_image (int K)] =
         (st', h[K := Some (rend_fbP st' ! K)])"
    by (simp add: st' io)
  have "handoff_inv W H sys0 (vid_exec ext W H (Render_image (int K))
      (vid_exec ext W H (Display_image (int (1 - K))) (st, h)))"
    using handoff_inv_render[OF W H ext _ K] handoff_inv_display(2)[OF inv o]
    by (metis prod.collapse)
  then show "handoff_inv W H sys0 (st', h[K := Some (rend_fbP st' ! K)])"
    by (simp add: st' io)
qed

lemma handoff_inv_vid:
  assumes "handoff_inv W H sys0 (sys, hist)" "\<not> notify_image_1 s" "\<not> notify_image_2 s"
  shows "handoff_inv W H sys0 (sys\<lparr>vid := s\<rparr>, hist)"
proof -
  note d = handoff_invD[OF assms(1)]
  have b: "bufs_ok W H (sys\<lparr>vid := s\<rparr>)" using d(1) by (simp add: bufs_ok_def)
  show ?thesis using d(2) assms(2,3) d(5) by (intro handoff_invI[OF b]) simp_all
qed

lemma handoff_inv_frame:
  assumes "handoff_inv W H sys0 (sys, hist)"
  shows "handoff_inv W H sys0 (sys\<lparr>vid_lep_buffer := (vid_lep_buffer sys)[i := lep]\<rparr>, hist)"
proof -
  note d = handoff_invD[OF assms(1)]
  have b: "bufs_ok W H (sys\<lparr>vid_lep_buffer := (vid_lep_buffer sys)[i := lep]\<rparr>)"
    using d(1) by (simp add: bufs_ok_def)
  show ?thesis using d(2,3,4) d(5) by (intro handoff_invI[OF b]) simp_all
qed

lemma handoff_inv_step:
  assumes W: "0 < W" and H: "0 < H" and ext: "ext_ok ext"
    and inv: "handoff_inv W H sys0 st"
  shows "handoff_inv W H sys0 (vid_sys_step ext W H e st)"
proof (cases st)
  case (Pair sys hist)
  note inv' = inv[unfolded Pair]
  show ?thesis
  proof (cases e)
    case (Frame_written i lep)
    then show ?thesis using handoff_inv_frame[OF inv'] by (simp add: Pair)
  next
    case (Loop_pass v now)
    define s1 where "s1 = sys\<lparr>vid := fst (vid_task_pass v now (vid sys))\<rparr>"
    have i1: "handoff_inv W H sys0 (s1, hist)"
      unfolding s1_def by (rule handoff_inv_vid[OF inv' vid_task_pass_flags])
    define s2 where "s2 = vid_render_image ext W H 0 (vid_display_image W H (1 - 0) s1)"
    note b0 = handoff_block[OF W H ext i1 _ s2_def]
    have k0: "(0::nat) < 2" and k1: "(1::nat) < 2" by simp_all
    note f0 = b0(5)[OF k0, simplified] and i2 = b0(6)[OF k0]
    define s3 where "s3 = vid_render_image ext W H 1 (vid_display_image W H (1 - 1) s2)"
    note b1 = handoff_block[OF W H ext i2 k1 s3_def]
    note f1 = b1(5)[simplified]
    define s3' where "s3' = vid_render_image ext W H 1 (vid_display_image W H (1 - 1) s1)"
    note b1' = handoff_block[OF W H ext i1 k1 s3'_def]
    note f1' = b1'(5)[simplified]
    have acts: "snd (vid_task_pass v now (vid sys)) =
       (if Notification v VID_NOTIFY_LEP_FRAME_MASK_1
        then [Wait_frame, Display_image 1, Render_image 0] else []) @
       (if Notification v VID_NOTIFY_LEP_FRAME_MASK_2
        then [Wait_frame, Display_image 0, Render_image 1] else [])"
      unfolding vid_task_pass_actions using handoff_invD(3,4)[OF inv'] by simp
    show ?thesis
      unfolding Pair Loop_pass vid_sys_step.simps acts s1_def[symmetric]
      using i1 i2 b1(6) b1'(6) f0 f1 f1'
      by (cases "Notification v VID_NOTIFY_LEP_FRAME_MASK_1";
          cases "Notification v VID_NOTIFY_LEP_FRAME_MASK_2") simp_all
  qed
qed

lemma handoff_inv_run:
  assumes W: "0 < W" and H: "0 < H" and ext: "ext_ok ext"
  shows "handoff_inv W H sys0 st \<Longrightarrow> handoff_inv W H sys0 (vid_sys_run ext W H es st)"
  by (induction es arbitrary: st) (simp_all add: handoff_inv_step[OF W H ext])

lemma lep_frame_handoff:
  assumes "task_state t = STATE_RUN" and "True \<in> set (vsync_samples inp)" and "call_ok inp"
    and "vid_buf_index t = 0 \<or> vid_buf_index t = 1"
  shows "\<exists>t' rest. lep_task_pass LIMIT RETRY inp t =
          Some (t', Get_frame (vid_buf_index t) #
                    Vid_notify (if vid_buf_index t = 0 then VID_NOTIFY_LEP_FRAME_MASK_1
                                else VID_NOTIFY_LEP_FRAME_MASK_2) # rest)
        \<and> vid_buf_index t' = 1 - vid_buf_index t
        \<and> task_state t' = STATE_RUN"
proof -
  note p = lep_run_ok [OF assms(1,2,3), of LIMIT RETRY]
  show ?thesis unfolding p using assms(1,4) by auto
qed

lemma handoff_single:
  assumes W: "0 < W" and H: "0 < H" and ext: "ext_ok ext"
    and inv: "handoff_inv W H sys0 (sys, hist)" and K: "K < 2"
    and v: "Notification v (if K = 0 then VID_NOTIFY_LEP_FRAME_MASK_1
                            else VID_NOTIFY_LEP_FRAME_MASK_2)"
    and nv: "\<not> Notification v (if K = 0 then VID_NOTIFY_LEP_FRAME_MASK_2
                               else VID_NOTIFY_LEP_FRAME_MASK_1)"
    and s1: "s1 = sys\<lparr>vid := fst (vid_task_pass v now (vid sys))\<rparr>"
    and st': "st' = vid_render_image ext W H K (vid_display_image W H (1 - K) s1)"
  shows "vid_sys_step ext W H (Loop_pass v now) (sys, hist) =
           (st', hist[K := Some (rend_fbP st' ! K)])"
    and "snd (vid_task_pass v now (vid sys)) =
           [Wait_frame, Display_image (1 - int K), Render_image (int K)]"
proof -
  from K have KK: "K = 0 \<or> K = 1" by auto
  have i1: "handoff_inv W H sys0 (s1, hist)"
    unfolding s1 by (rule handoff_inv_vid[OF inv vid_task_pass_flags])
  have acts: "snd (vid_task_pass v now (vid sys)) =
       (if Notification v VID_NOTIFY_LEP_FRAME_MASK_1
        then [Wait_frame, Display_image 1, Render_image 0] else []) @
       (if Notification v VID_NOTIFY_LEP_FRAME_MASK_2
        then [Wait_frame, Display_image 0, Render_image 1] else [])"
    unfolding vid_task_pass_actions using handoff_invD(3,4)[OF inv] by simp
  show a: "snd (vid_task_pass v now (vid sys)) =
           [Wait_frame, Display_image (1 - int K), Render_image (int K)]"
    unfolding acts using KK v nv by auto
  show "vid_sys_step ext W H (Loop_pass v now) (sys, hist) =
           (st', hist[K := Some (rend_fbP st' ! K)])"
    unfolding vid_sys_step.simps a s1[symmetric]
    by (rule handoff_block(5)[OF W H ext i1 K st'])
qed

lemma handoff_both:
  assumes W: "0 < W" and H: "0 < H" and ext: "ext_ok ext"
    and inv: "handoff_inv W H sys0 (sys, hist)"
    and v1: "Notification v VID_NOTIFY_LEP_FRAME_MASK_1"
    and v2: "Notification v VID_NOTIFY_LEP_FRAME_MASK_2"
    and s1: "s1 = sys\<lparr>vid := fst (vid_task_pass v now (vid sys))\<rparr>"
    and s2: "s2 = vid_render_image ext W H 0 (vid_display_image W H 1 s1)"
    and s3: "s3 = vid_render_image ext W H 1 (vid_display_image W H 0 s2)"
  shows "vid_sys_step ext W H (Loop_pass v now) (sys, hist) =
           (s3, [Some (rend_fbP s3 ! 0), Some (rend_fbP s3 ! 1)])"
    and "drv_fb (vid_display_image W H 1 s1) = rend_fbP sys ! 1"
    and "drv_fb s3 = rend_fbP s3 ! 0"
    and "rend_fbP s3 ! 0 = rend_fbP s2 ! 0"
proof -
  have k0: "(0::nat) < 2" and k1: "(1::nat) < 2" by simp_all
  have i1: "handoff_inv W H sys0 (s1, hist)"
    unfolding s1 by (rule handoff_inv_vid[OF inv vid_task_pass_flags])
  have s2': "s2 = vid_render_image ext W H 0 (vid_display_image W H (1 - 0) s1)"
    unfolding s2 by simp
  have s3': "s3 = vid_render_image ext W H 1 (vid_display_image W H (1 - 1) s2)"
    unfolding s3 by simp
  note b0 = handoff_block[OF W H ext i1 k0 s2']
  note b1 = handoff_block[OF W H ext b0(6) k1 s3']
  have acts: "snd (vid_task_pass v now (vid sys)) =
       [Wait_frame, Display_image 1, Render_image 0] @
       [Wait_frame, Display_image 0, Render_image 1]"
    unfolding vid_task_pass_actions using v1 v2 by simp
  have lh: "length hist = 2" by (rule handoff_invD(2)[OF inv])
  then obtain h0 h1 where hh: "hist = [h0, h1]"
    by (metis (no_types, opaque_lifting) One_nat_def Suc_1 Suc_length_conv length_0_conv)
  have r0: "rend_fbP s3 ! 0 = rend_fbP s2 ! 0" using b1(2) by simp
  show "vid_sys_step ext W H (Loop_pass v now) (sys, hist) =
           (s3, [Some (rend_fbP s3 ! 0), Some (rend_fbP s3 ! 1)])"
    unfolding vid_sys_step.simps acts foldl_append s1[symmetric]
    using b0(5) b1(5) r0 by (simp add: hh)
  show "drv_fb (vid_display_image W H 1 s1) = rend_fbP sys ! 1"
    using handoff_inv_display(1)[OF i1 k1] by (simp add: s1)
  show "drv_fb s3 = rend_fbP s3 ! 0" using b1(1) r0 by simp
  show "rend_fbP s3 ! 0 = rend_fbP s2 ! 0" by (rule r0)
qed

text \<open>
  C5 (as stated, refuted). At the first notification after start (raw slot 0 written, no
  render made so far) the pass copies into the display buffer what render buffer 1 held
  when it was allocated; no render of slot 1 has taken place before the copy, nor by the
  end of the pass.
\<close>

theorem display_first_notification_counterexample:
  "snd (vid_sys_run example_ext 2 2 [Frame_written 0 (example_frame\<lparr>lep_telemP := [0]\<rparr>)]
          (example_sys, [None, None])) = [None, None]
   \<and> rend_fbP example_sys ! 1 = replicate 16 0xAA
   \<and> drv_fb (vid_task_loop_body example_ext 2 2 VID_NOTIFY_LEP_FRAME_MASK_1 0
        (fst (vid_sys_run example_ext 2 2
               [Frame_written 0 (example_frame\<lparr>lep_telemP := [0]\<rparr>)]
               (example_sys, [None, None])))) = replicate 16 0xAA
   \<and> snd (vid_sys_run example_ext 2 2
          [Frame_written 0 (example_frame\<lparr>lep_telemP := [0]\<rparr>),
           Loop_pass VID_NOTIFY_LEP_FRAME_MASK_1 0]
          (example_sys, [None, None])) ! 1 = None"
  by code_simp

text \<open>
  C5 (amended). In every state that the buffers can be in after any sequence of frame
  writes and passes from a start state with buffers of the right sizes and no notification
  pending, a pass of the video task is the pass on its variables followed by its buffer
  operations in order. When the notification read carries the bit of raw slot \<open>K\<close> alone,
  the operations are: wait for the frame, copy render buffer \<open>1 - K\<close> to the display
  buffer, render raw slot \<open>K\<close>; after the pass the display buffer holds what render
  buffer \<open>1 - K\<close> held before it, which is the image left by the most recent render of
  slot \<open>1 - K\<close> whenever there has been one; render buffer \<open>1 - K\<close> is unchanged, and
  render buffer \<open>K\<close> holds the raster that \<^verbatim>\<open>render_lep_data\<close> makes of raw slot \<open>K\<close>
  under the current display configuration, with the overlays drawn on it. When both bits
  are set, slot 0 is handled first and then slot 1, each in this way, so the second copy
  shows the image just rendered from slot 0. A successful segment in the Run state of the
  acquisition task fills slot \<open>vid_buf_index\<close>, then notifies that very slot, and leaves
  \<open>vid_buf_index\<close> at the other slot.
\<close>

theorem display_previous_then_render:
  assumes W: "0 < W" and H: "0 < H" and ext: "ext_ok ext"
    and bufs: "bufs_ok W H sys0"
    and n0: "\<not> notify_image_1 (vid sys0)" "\<not> notify_image_2 (vid sys0)"
    and run: "vid_sys_run ext W H es (sys0, [None, None]) = (sys, hist)"
    and t: "task_state t = STATE_RUN" "True \<in> set (vsync_samples inp)" "call_ok inp"
      "vid_buf_index t = 0 \<or> vid_buf_index t = 1"
  shows
    "(let s1 = sys\<lparr>vid := fst (vid_task_pass v now (vid sys))\<rparr>;
          sys' = vid_task_loop_body ext W H v now sys;
          hist' = snd (vid_sys_step ext W H (Loop_pass v now) (sys, hist))
      in fst (vid_sys_step ext W H (Loop_pass v now) (sys, hist)) = sys' \<and>
         (\<forall>K < 2.
            Notification v (if K = 0 then VID_NOTIFY_LEP_FRAME_MASK_1
                            else VID_NOTIFY_LEP_FRAME_MASK_2) \<and>
            \<not> Notification v (if K = 0 then VID_NOTIFY_LEP_FRAME_MASK_2
                              else VID_NOTIFY_LEP_FRAME_MASK_1) \<longrightarrow>
              snd (vid_task_pass v now (vid sys)) =
                [Wait_frame, Display_image (1 - int K), Render_image (int K)] \<and>
              sys' = vid_render_image ext W H K (vid_display_image W H (1 - K) s1) \<and>
              drv_fb sys' = rend_fbP sys ! (1 - K) \<and>
              (\<forall>img. hist ! (1 - K) = Some img \<longrightarrow> drv_fb sys' = img) \<and>
              rend_fbP sys' ! (1 - K) = rend_fbP sys ! (1 - K) \<and>
              rend_fbP sys' ! K =
                (let g = vid_render_gui ext (vid_lep_buffer sys ! K) (gui_state (vid s1));
                     r = render_lep_data W H (vid_lep_buffer sys ! K) (rend_fbP sys ! K) g
                 in vid_render_overlays ext (cur_parm_index (vid s1)) (cur_parm_value (vid s1))
                      (fst r) (snd r) g) \<and>
              hist' = hist[K := Some (rend_fbP sys' ! K)]) \<and>
         (Notification v VID_NOTIFY_LEP_FRAME_MASK_1 \<and>
          Notification v VID_NOTIFY_LEP_FRAME_MASK_2 \<longrightarrow>
            sys' = vid_render_image ext W H 1 (vid_display_image W H 0
                     (vid_render_image ext W H 0 (vid_display_image W H 1 s1))) \<and>
            drv_fb (vid_display_image W H 1 s1) = rend_fbP sys ! 1 \<and>
            (\<forall>img. hist ! 1 = Some img \<longrightarrow> drv_fb (vid_display_image W H 1 s1) = img) \<and>
            rend_fbP sys' ! 0 =
              rend_fbP (vid_render_image ext W H 0 (vid_display_image W H 1 s1)) ! 0 \<and>
            drv_fb sys' = rend_fbP sys' ! 0 \<and>
            hist' = [Some (rend_fbP sys' ! 0), Some (rend_fbP sys' ! 1)]) \<and>
         (\<exists>t' rest. lep_task_pass LIMIT RETRY inp t =
            Some (t', Get_frame (vid_buf_index t) #
                      Vid_notify (if vid_buf_index t = 0 then VID_NOTIFY_LEP_FRAME_MASK_1
                                  else VID_NOTIFY_LEP_FRAME_MASK_2) # rest)
          \<and> vid_buf_index t' = 1 - vid_buf_index t
          \<and> task_state t' = STATE_RUN))"
proof -
  define s1 where "s1 = sys\<lparr>vid := fst (vid_task_pass v now (vid sys))\<rparr>"
  define sys' where "sys' = vid_task_loop_body ext W H v now sys"
  define hist' where "hist' = snd (vid_sys_step ext W H (Loop_pass v now) (sys, hist))"
  have inv: "handoff_inv W H sys0 (sys, hist)"
    using handoff_inv_run[OF W H ext handoff_inv_start[OF bufs n0], of es] run by simp
  have i1: "handoff_inv W H sys0 (s1, hist)"
    unfolding s1_def by (rule handoff_inv_vid[OF inv vid_task_pass_flags])
  have r1: "rend_fbP s1 = rend_fbP sys" "vid_lep_buffer s1 = vid_lep_buffer sys"
    by (simp_all add: s1_def)
  have A: "fst (vid_sys_step ext W H (Loop_pass v now) (sys, hist)) = sys'"
    unfolding sys'_def by (rule vid_sys_step_pass)
  have B: "\<forall>K < 2.
            Notification v (if K = 0 then VID_NOTIFY_LEP_FRAME_MASK_1
                            else VID_NOTIFY_LEP_FRAME_MASK_2) \<and>
            \<not> Notification v (if K = 0 then VID_NOTIFY_LEP_FRAME_MASK_2
                              else VID_NOTIFY_LEP_FRAME_MASK_1) \<longrightarrow>
              snd (vid_task_pass v now (vid sys)) =
                [Wait_frame, Display_image (1 - int K), Render_image (int K)] \<and>
              sys' = vid_render_image ext W H K (vid_display_image W H (1 - K) s1) \<and>
              drv_fb sys' = rend_fbP sys ! (1 - K) \<and>
              (\<forall>img. hist ! (1 - K) = Some img \<longrightarrow> drv_fb sys' = img) \<and>
              rend_fbP sys' ! (1 - K) = rend_fbP sys ! (1 - K) \<and>
              rend_fbP sys' ! K =
                (let g = vid_render_gui ext (vid_lep_buffer sys ! K) (gui_state (vid s1));
                     r = render_lep_data W H (vid_lep_buffer sys ! K) (rend_fbP sys ! K) g
                 in vid_render_overlays ext (cur_parm_index (vid s1)) (cur_parm_value (vid s1))
                      (fst r) (snd r) g) \<and>
              hist' = hist[K := Some (rend_fbP sys' ! K)]"
  proof (intro allI impI)
    fix K :: nat
    assume K: "K < 2"
      and c: "Notification v (if K = 0 then VID_NOTIFY_LEP_FRAME_MASK_1
                            else VID_NOTIFY_LEP_FRAME_MASK_2) \<and>
            \<not> Notification v (if K = 0 then VID_NOTIFY_LEP_FRAME_MASK_2
                              else VID_NOTIFY_LEP_FRAME_MASK_1)"
    define st' where "st' = vid_render_image ext W H K (vid_display_image W H (1 - K) s1)"
    note hs = handoff_single[OF W H ext inv K c[THEN conjunct1] c[THEN conjunct2] s1_def st'_def]
    have e: "sys' = st'" using A hs(1) by simp
    have h: "hist' = hist[K := Some (rend_fbP sys' ! K)]"
      unfolding hist'_def hs(1) e by simp
    note b = handoff_block[OF W H ext i1 K st'_def]
    show "snd (vid_task_pass v now (vid sys)) =
                [Wait_frame, Display_image (1 - int K), Render_image (int K)] \<and>
              sys' = vid_render_image ext W H K (vid_display_image W H (1 - K) s1) \<and>
              drv_fb sys' = rend_fbP sys ! (1 - K) \<and>
              (\<forall>img. hist ! (1 - K) = Some img \<longrightarrow> drv_fb sys' = img) \<and>
              rend_fbP sys' ! (1 - K) = rend_fbP sys ! (1 - K) \<and>
              rend_fbP sys' ! K =
                (let g = vid_render_gui ext (vid_lep_buffer sys ! K) (gui_state (vid s1));
                     r = render_lep_data W H (vid_lep_buffer sys ! K) (rend_fbP sys ! K) g
                 in vid_render_overlays ext (cur_parm_index (vid s1)) (cur_parm_value (vid s1))
                      (fst r) (snd r) g) \<and>
              hist' = hist[K := Some (rend_fbP sys' ! K)]"
      unfolding e Let_def
      using hs(2) st'_def b(1,2,3) b(4) h[unfolded e] unfolding r1 by blast
  qed
  have C: "Notification v VID_NOTIFY_LEP_FRAME_MASK_1 \<and>
          Notification v VID_NOTIFY_LEP_FRAME_MASK_2 \<longrightarrow>
            sys' = vid_render_image ext W H 1 (vid_display_image W H 0
                     (vid_render_image ext W H 0 (vid_display_image W H 1 s1))) \<and>
            drv_fb (vid_display_image W H 1 s1) = rend_fbP sys ! 1 \<and>
            (\<forall>img. hist ! 1 = Some img \<longrightarrow> drv_fb (vid_display_image W H 1 s1) = img) \<and>
            rend_fbP sys' ! 0 =
              rend_fbP (vid_render_image ext W H 0 (vid_display_image W H 1 s1)) ! 0 \<and>
            drv_fb sys' = rend_fbP sys' ! 0 \<and>
            hist' = [Some (rend_fbP sys' ! 0), Some (rend_fbP sys' ! 1)]"
  proof (intro impI)
    assume c: "Notification v VID_NOTIFY_LEP_FRAME_MASK_1 \<and>
          Notification v VID_NOTIFY_LEP_FRAME_MASK_2"
    define s2 where "s2 = vid_render_image ext W H 0 (vid_display_image W H 1 s1)"
    define s3 where "s3 = vid_render_image ext W H 1 (vid_display_image W H 0 s2)"
    note hb = handoff_both[OF W H ext inv c[THEN conjunct1] c[THEN conjunct2] s1_def s2_def s3_def]
    have e: "sys' = s3" using A hb(1) by simp
    have h: "hist' = [Some (rend_fbP s3 ! 0), Some (rend_fbP s3 ! 1)]"
      unfolding hist'_def hb(1) by simp
    have k1: "(1::nat) < 2" by simp
    have p: "\<forall>img. hist ! 1 = Some img \<longrightarrow> drv_fb (vid_display_image W H 1 s1) = img"
      unfolding hb(2) using handoff_invD(5)[OF inv k1] by simp
    show "sys' = vid_render_image ext W H 1 (vid_display_image W H 0
                     (vid_render_image ext W H 0 (vid_display_image W H 1 s1))) \<and>
            drv_fb (vid_display_image W H 1 s1) = rend_fbP sys ! 1 \<and>
            (\<forall>img. hist ! 1 = Some img \<longrightarrow> drv_fb (vid_display_image W H 1 s1) = img) \<and>
            rend_fbP sys' ! 0 =
              rend_fbP (vid_render_image ext W H 0 (vid_display_image W H 1 s1)) ! 0 \<and>
            drv_fb sys' = rend_fbP sys' ! 0 \<and>
            hist' = [Some (rend_fbP sys' ! 0), Some (rend_fbP sys' ! 1)]"
      unfolding e using hb(2,3,4) p h unfolding s3_def s2_def by blast
  qed
  note D = lep_frame_handoff[OF t, of LIMIT RETRY]
  from A B C D show ?thesis
    unfolding Let_def s1_def[symmetric] sys'_def[symmetric] hist'_def[symmetric]
    by (intro conjI)
qed

theorem display_previous_then_render_witness:
  "ext_ok example_ext \<and> bufs_ok 2 2 example_sys
   \<and> Notification VID_NOTIFY_LEP_FRAME_MASK_2 VID_NOTIFY_LEP_FRAME_MASK_2
   \<and> \<not> Notification VID_NOTIFY_LEP_FRAME_MASK_2 VID_NOTIFY_LEP_FRAME_MASK_1
   \<and> snd (vid_sys_run example_ext 2 2
        [Frame_written 0 (example_frame\<lparr>lep_telemP := [0]\<rparr>),
         Loop_pass VID_NOTIFY_LEP_FRAME_MASK_1 0,
         Frame_written 1 (example_frame\<lparr>lep_telemP := [0]\<rparr>)]
        (example_sys, [None, None])) ! 0 =
       Some [127, 95, 31, 0, 159, 143, 79, 63, 223, 207, 207, 191, 255, 255, 255, 255]
   \<and> snd (vid_task_pass VID_NOTIFY_LEP_FRAME_MASK_2 30
        (vid (fst (vid_sys_run example_ext 2 2
          [Frame_written 0 (example_frame\<lparr>lep_telemP := [0]\<rparr>),
           Loop_pass VID_NOTIFY_LEP_FRAME_MASK_1 0,
           Frame_written 1 (example_frame\<lparr>lep_telemP := [0]\<rparr>)]
          (example_sys, [None, None]))))) =
       [Wait_frame, Display_image 0, Render_image 1]
   \<and> drv_fb (vid_task_loop_body example_ext 2 2 VID_NOTIFY_LEP_FRAME_MASK_2 30
        (fst (vid_sys_run example_ext 2 2
          [Frame_written 0 (example_frame\<lparr>lep_telemP := [0]\<rparr>),
           Loop_pass VID_NOTIFY_LEP_FRAME_MASK_1 0,
           Frame_written 1 (example_frame\<lparr>lep_telemP := [0]\<rparr>)]
          (example_sys, [None, None])))) =
       [127, 95, 31, 0, 159, 143, 79, 63, 223, 207, 207, 191, 255, 255, 255, 255]
   \<and> (\<exists>t' rest. lep_task_pass 10 60 segment_ok
          \<lparr>task_state = STATE_RUN, vid_buf_index = 0, vsync_count = 0,
           sync_fail_count = 0, reset_fail_count = 0\<rparr> =
          Some (t', Get_frame 0 # Vid_notify VID_NOTIFY_LEP_FRAME_MASK_1 # rest)
        \<and> vid_buf_index t' = 1)"
proof -
  define R where "R = vid_sys_run example_ext 2 2
        [Frame_written 0 (example_frame\<lparr>lep_telemP := [0]\<rparr>),
         Loop_pass VID_NOTIFY_LEP_FRAME_MASK_1 0,
         Frame_written 1 (example_frame\<lparr>lep_telemP := [0]\<rparr>)]
        (example_sys, [None, None])"
  let ?t = "\<lparr>task_state = STATE_RUN, vid_buf_index = 0, vsync_count = 0,
             sync_fail_count = 0, reset_fail_count = 0\<rparr>"
  have h1: "0 < (2::nat)" by simp
  have hx: "ext_ok example_ext" by (simp add: ext_ok_def example_ext_def)
  have hb: "bufs_ok 2 2 example_sys" by (simp add: bufs_ok_def example_sys_def)
  have hn: "\<not> notify_image_1 (vid example_sys)" "\<not> notify_image_2 (vid example_sys)"
    by (simp_all add: example_sys_def vid_task_init_def Let_def)
  have hr: "vid_sys_run example_ext 2 2
        [Frame_written 0 (example_frame\<lparr>lep_telemP := [0]\<rparr>),
         Loop_pass VID_NOTIFY_LEP_FRAME_MASK_1 0,
         Frame_written 1 (example_frame\<lparr>lep_telemP := [0]\<rparr>)]
        (example_sys, [None, None]) = (fst R, snd R)"
    unfolding R_def by (rule prod.collapse[symmetric])
  have t1: "task_state ?t = STATE_RUN" by simp
  have t2: "True \<in> set (vsync_samples segment_ok)" by (simp add: segment_ok_def)
  have t3: "call_ok segment_ok" by (simp add: segment_ok_def)
  have t4: "vid_buf_index ?t = 0 \<or> vid_buf_index ?t = 1" by simp
  note r = display_previous_then_render[OF h1 h1 hx hb hn hr t1 t2 t3 t4,
      of VID_NOTIFY_LEP_FRAME_MASK_2 30 10 60, unfolded Let_def]
  have n: "Notification VID_NOTIFY_LEP_FRAME_MASK_2 VID_NOTIFY_LEP_FRAME_MASK_2"
    "\<not> Notification VID_NOTIFY_LEP_FRAME_MASK_2 VID_NOTIFY_LEP_FRAME_MASK_1"
    by (simp_all add: Notification_def VID_NOTIFY_LEP_FRAME_MASK_1_def
          VID_NOTIFY_LEP_FRAME_MASK_2_def)
  have k: "(1::nat) < 2" by simp
  have i: "\<And>x y :: 32 word. (if (1::nat) = 0 then x else y) = y"
    "(1::nat) - 1 = 0" "1 - int 1 = 0" "int 1 = 1" "(1::int) - 1 = 0" by simp_all
  note rk = r[THEN conjunct2, THEN conjunct1, THEN spec, of 1, unfolded i]
  have hs: "snd R ! 0 =
      Some [127, 95, 31, 0, 159, 143, 79, 63, 223, 207, 207, 191, 255, 255, 255, 255]"
    unfolding R_def by code_simp
  from rk k n have a: "snd (vid_task_pass VID_NOTIFY_LEP_FRAME_MASK_2 30 (vid (fst R))) =
       [Wait_frame, Display_image 0, Render_image 1]" by blast
  from rk k n hs have b: "drv_fb (vid_task_loop_body example_ext 2 2
        VID_NOTIFY_LEP_FRAME_MASK_2 30 (fst R)) =
       [127, 95, 31, 0, 159, 143, 79, 63, 223, 207, 207, 191, 255, 255, 255, 255]"
    by blast
  have c: "\<exists>t' rest. lep_task_pass 10 60 segment_ok ?t =
          Some (t', Get_frame 0 # Vid_notify VID_NOTIFY_LEP_FRAME_MASK_1 # rest)
        \<and> vid_buf_index t' = 1"
    using r[THEN conjunct2, THEN conjunct2, THEN conjunct2] by auto
  from hx hb n hs a b c show ?thesis unfolding R_def by blast
qed

end
